(* ===== verification/Prelude.thy ===== *)
theory Prelude
  imports Main "HOL-Library.Word" "HOL-Library.Monad_Syntax" "HOL-Library.Char_ord"
begin

text \<open>
  Shared vocabulary of the development: the machine types of the code (a \<open>char\<close> is an
  octet, \<open>uint8_t\<close> .. \<open>uint64_t\<close> are words of that width), the character classes of
  the C locale, raw buffers with checked accesses, and the list facts about a buffer that
  is read and rewritten in place by a read head and a write head.

  Every access to a C buffer goes through \<open>rd\<close>, \<open>wr\<close> or \<open>wrs\<close>, which return
  \<open>None\<close> out of bounds: in this development \<open>None\<close> stands for undefined behaviour, and a
  theorem that an operation returns \<open>Some\<close> is a memory-safety theorem.
\<close>

unbundle bit_operations_syntax

named_theorems buf_simps \<open>evaluation of checked buffer accesses that are in bounds\<close>

section \<open>Machine types\<close>

type_synonym u8 = "8 word"
type_synonym u16 = "16 word"
type_synonym u32 = "32 word"
type_synonym u64 = "64 word"

text \<open>The casts \<open>(uint8_t)c\<close> and \<open>(char)w\<close>.\<close>

definition byte :: "char \<Rightarrow> u8" where
  "byte c = of_char c"

definition to_char :: "u8 \<Rightarrow> char" where
  "to_char w = char_of (unat w)"

lemma unat_byte: "unat (byte c) = (of_char c :: nat)"
proof -
  have "unat (of_nat (of_char c) :: u8) = take_bit 8 (of_char c :: nat)"
    by (simp add: unsigned_of_nat)
  then show ?thesis
    by (simp add: byte_def take_bit_eq_mod of_nat_of_char)
qed

lemma to_char_byte [simp]: "to_char (byte c) = c"
  by (simp add: to_char_def unat_byte)

lemma byte_to_char [simp]: "byte (to_char w) = w"
proof -
  have "unat w < 256"
    using unsigned_less [of w] by simp
  then show ?thesis
    by (simp add: to_char_def word_unat_eq_iff unat_byte)
qed

lemma byte_inject [simp]: "byte c = byte d \<longleftrightarrow> c = d"
  using to_char_byte by metis

section \<open>Character classes of the C locale\<close>

definition isdigit :: "char \<Rightarrow> bool" where
  "isdigit c \<longleftrightarrow> CHR ''0'' \<le> c \<and> c \<le> CHR ''9''"

definition is_upper :: "char \<Rightarrow> bool" where
  "is_upper c \<longleftrightarrow> CHR ''A'' \<le> c \<and> c \<le> CHR ''Z''"

definition is_lower :: "char \<Rightarrow> bool" where
  "is_lower c \<longleftrightarrow> CHR ''a'' \<le> c \<and> c \<le> CHR ''z''"

definition isxdigit :: "char \<Rightarrow> bool" where
  "isxdigit c \<longleftrightarrow> isdigit c \<or> (CHR ''a'' \<le> c \<and> c \<le> CHR ''f'')
     \<or> (CHR ''A'' \<le> c \<and> c \<le> CHR ''F'')"

definition isalnum :: "char \<Rightarrow> bool" where
  "isalnum c \<longleftrightarrow> isdigit c \<or> is_upper c \<or> is_lower c"

definition isspace :: "char \<Rightarrow> bool" where
  "isspace c \<longleftrightarrow> c = CHR '' '' \<or> (CHR 0x09 \<le> c \<and> c \<le> CHR 0x0D)"

text \<open>The expression \<open>c | 0x20\<close>, narrowed to a \<open>char\<close>.\<close>

definition or20 :: "char \<Rightarrow> char" where
  "or20 c = to_char (byte c OR 0x20)"

abbreviation NUL :: char where "NUL \<equiv> CHR 0x00"

section \<open>Buffers\<close>

type_synonym buf = "char list"

definition rd :: "buf \<Rightarrow> nat \<Rightarrow> char option" where
  "rd a i = (if i < length a then Some (a ! i) else None)"

definition wr :: "buf \<Rightarrow> nat \<Rightarrow> char \<Rightarrow> buf option" where
  "wr a i c = (if i < length a then Some (a[i := c]) else None)"

text \<open>Storing consecutive bytes, as \<open>*p++ = b\<close> or \<open>memcpy\<close> do.\<close>

primrec wrs :: "buf \<Rightarrow> nat \<Rightarrow> char list \<Rightarrow> buf option" where
  "wrs a i [] = Some a"
| "wrs a i (c # cs) = do { a' \<leftarrow> wr a i c; wrs a' (Suc i) cs }"

text \<open>
  A conjunction of tests on single characters, evaluated left to right with the
  short circuit of \<open>&&\<close>: an access is made only when the tests before it held.
\<close>

primrec chk :: "buf \<Rightarrow> (nat \<times> (char \<Rightarrow> bool)) list \<Rightarrow> bool option" where
  "chk a [] = Some True"
| "chk a (p # ps) = do { c \<leftarrow> rd a (fst p); if snd p c then chk a ps else Some False }"

abbreviation eqc :: "char \<Rightarrow> char \<Rightarrow> bool" where
  "eqc c d \<equiv> d = c"

lemma rd_in [buf_simps, simp]: "i < length a \<Longrightarrow> rd a i = Some (a ! i)"
  by (simp add: rd_def)

lemma wr_in [buf_simps, simp]: "i < length a \<Longrightarrow> wr a i c = Some (a[i := c])"
  by (simp add: wr_def)

lemma rd_Some: "rd a i = Some c \<longleftrightarrow> i < length a \<and> a ! i = c"
  by (auto simp: rd_def)

lemma wr_Some: "wr a i c = Some b \<longleftrightarrow> i < length a \<and> b = a[i := c]"
  by (auto simp: wr_def)

lemma chk_in:
  "\<forall>(i, P) \<in> set ps. i < length a \<Longrightarrow> chk a ps = Some (\<forall>(i, P) \<in> set ps. P (a ! i))"
  by (induction ps) auto

lemma wrs_in:
  "i + length cs \<le> length a \<Longrightarrow>
   wrs a i cs = Some (take i a @ cs @ drop (i + length cs) a)"
proof (induction cs arbitrary: a i)
  case Nil
  then show ?case by simp
next
  case (Cons c cs)
  have "take (Suc i) (a[i := c]) = take i a @ [c]"
    using Cons.prems by (simp add: take_Suc_conv_app_nth)
  moreover have "drop (Suc (i + length cs)) (a[i := c]) = drop (Suc (i + length cs)) a"
    by simp
  ultimately show ?case
    using Cons.IH [of "Suc i" "a[i := c]"] Cons.prems by simp
qed

section \<open>The unread part and the written part of a buffer\<close>

text \<open>
  The in-place loops keep \<open>w \<le> r\<close>: what is already written is \<open>take w a\<close>, what is
  still to be read is \<open>unread a r n\<close>. The lemmas say how one read and one write move them.
\<close>

definition unread :: "buf \<Rightarrow> nat \<Rightarrow> nat \<Rightarrow> char list" where
  "unread a r n = drop r (take n a)"

lemma unread_0 [simp]: "unread a 0 n = take n a"
  by (simp add: unread_def)

lemma unread_end [simp]: "n \<le> r \<Longrightarrow> unread a r n = []"
  by (simp add: unread_def)

lemma length_unread [simp]: "n \<le> length a \<Longrightarrow> length (unread a r n) = n - r"
  by (simp add: unread_def)

lemma unread_Cons:
  "r < n \<Longrightarrow> n \<le> length a \<Longrightarrow> unread a r n = a ! r # unread a (Suc r) n"
  by (simp add: unread_def Cons_nth_drop_Suc [symmetric])

lemma unread_nth: "r + i < n \<Longrightarrow> n \<le> length a \<Longrightarrow> unread a r n ! i = a ! (r + i)"
  by (simp add: unread_def)

lemma unread_drop: "drop k (unread a r n) = unread a (r + k) n"
  by (simp add: unread_def add.commute)

lemma unread_update [simp]: "w < r \<Longrightarrow> unread (a[w := c]) r n = unread a r n"
  by (simp add: unread_def take_update_swap drop_update_cancel)

lemma take_Suc_update [simp]:
  "w < length a \<Longrightarrow> take (Suc w) (a[w := c]) = take w a @ [c]"
  by (simp add: take_Suc_conv_app_nth)

lemma take_update_le [simp]: "k \<le> w \<Longrightarrow> take k (a[w := c]) = take k a"
  by (rule take_update_cancel)

lemma unread_append_take: "r \<le> n \<Longrightarrow> take r a @ unread a r n = take n a"
  unfolding unread_def by (metis append_take_drop_id min.absorb1 take_take)

text \<open>Several bytes at once.\<close>

lemma take_wrs:
  "wrs a w cs = Some b \<Longrightarrow> take (w + length cs) b = take w a @ cs \<and> length b = length a"
proof (induction cs arbitrary: a w)
  case Nil
  then show ?case by simp
next
  case (Cons c cs)
  then have w: "w < length a" and "wrs (a[w := c]) (Suc w) cs = Some b"
    by (auto simp: wr_Some bind_eq_Some_conv)
  with Cons.IH [of "a[w := c]" "Suc w"] show ?case
    by simp
qed

lemma unread_wrs:
  "wrs a w cs = Some b \<Longrightarrow> w + length cs \<le> r \<Longrightarrow> unread b r n = unread a r n"
proof (induction cs arbitrary: a w)
  case Nil
  then show ?case by simp
next
  case (Cons c cs)
  then have "w < length a" and "wrs (a[w := c]) (Suc w) cs = Some b"
    by (auto simp: wr_Some bind_eq_Some_conv)
  with Cons.IH [of "a[w := c]" "Suc w"] Cons.prems show ?case
    by simp
qed

lemma wrs_ex:
  assumes "w + length cs \<le> length a"
  obtains b where "wrs a w cs = Some b" "length b = length a"
    "take (w + length cs) b = take w a @ cs"
    "\<And>r n. w + length cs \<le> r \<Longrightarrow> unread b r n = unread a r n"
proof -
  from assms obtain b where b: "wrs a w cs = Some b"
    by (metis wrs_in)
  with take_wrs [OF b] unread_wrs [OF b] that show ?thesis
    by metis
qed

section \<open>Scanning loops\<close>

text \<open>
  \<open>for (; pos < length && !stop(array[pos]); ++pos) {}\<close>, the first loop of most
  transformers.
\<close>

function scan :: "(char \<Rightarrow> bool) \<Rightarrow> buf \<Rightarrow> nat \<Rightarrow> nat \<Rightarrow> nat option" where
  "scan stop a len pos =
     (if pos < len
      then do { c \<leftarrow> rd a pos; if stop c then Some pos else scan stop a len (Suc pos) }
      else Some pos)"
  by pat_completeness auto
termination
  by (relation "measure (\<lambda>(stop, a, len, pos). len - pos)") auto

declare scan.simps [simp del]

lemma scan_correct:
  "len \<le> length a \<Longrightarrow> pos \<le> len \<Longrightarrow>
   scan stop a len pos = Some (pos + length (takeWhile (\<lambda>c. \<not> stop c) (unread a pos len)))"
proof (induction "len - pos" arbitrary: pos rule: less_induct)
  case less
  show ?case
  proof (cases "pos < len")
    case True
    with less show ?thesis
      by (simp add: scan.simps [of stop a len pos] unread_Cons)
  next
    case False
    with less show ?thesis
      by (subst scan.simps) simp
  qed
qed

lemma scan_ge: "scan stop a n p = Some q \<Longrightarrow> p \<le> q"
proof (induction "n - p" arbitrary: p rule: less_induct)
  case less
  from less.prems have "p = q \<or> (p < n \<and> scan stop a n (Suc p) = Some q)"
    by (subst (asm) scan.simps) (auto simp: bind_eq_Some_conv split: if_splits)
  with less.hyps [of "Suc p"] show ?case
    by fastforce
qed

lemma length_takeWhile_eq_iff:
  "length (takeWhile P xs) = length xs \<longleftrightarrow> (\<forall>x \<in> set xs. P x)"
  by (metis takeWhile_eq_all_conv takeWhile_eq_take take_all_iff length_takeWhile_le order.refl)

end
