(* ===== verification/Objects.thy ===== *)
theory Objects
  imports Prelude
begin

text \<open>
  The generic object of the C API (\<open>include/ddwaf.h\<close>, \<open>src/object.cpp\<close>) and the type
  tests of \<open>src/utils.hpp\<close>. A \<open>ddwaf_object\<close> is a key and a tagged union; a string carries
  its allocation (a buffer at least as long as the string) and its length \<open>nbEntries\<close>, a
  container the capacity of its allocation and its entries, or the null pointer with the
  \<open>nbEntries\<close> the caller wrote.

  A function that may return a null pointer returns \<open>Some None\<close> for it; \<open>None\<close> is
  undefined behaviour (an access outside an allocation). \<open>malloc\<close> is the parameter
  \<open>alloc\<close>: whether an allocation of that many bytes succeeds.
\<close>

section \<open>The object\<close>

datatype 'o arr =
    NullArr nat              \<comment> \<open>\<open>array == nullptr\<close>, with \<open>nbEntries\<close>\<close>
  | Arr (cap: nat) (items: "'o list")

datatype ddwaf_object = Obj (parameterName: "string option") (payload: obj_value)
and obj_value =
    Invalid
  | Signed u64
  | Unsigned u64
  | Str "buf option" nat     \<comment> \<open>\<open>stringValue\<close> and \<open>nbEntries\<close>\<close>
  | Array "ddwaf_object arr"
  | Map "ddwaf_object arr"
  | Bool bool

datatype obj_type =
  OBJ_INVALID | OBJ_SIGNED | OBJ_UNSIGNED | OBJ_STRING | OBJ_ARRAY | OBJ_MAP | OBJ_BOOL

fun type_of :: "obj_value \<Rightarrow> obj_type" where
  "type_of Invalid = OBJ_INVALID"
| "type_of (Signed _) = OBJ_SIGNED"
| "type_of (Unsigned _) = OBJ_UNSIGNED"
| "type_of (Str _ _) = OBJ_STRING"
| "type_of (Array _) = OBJ_ARRAY"
| "type_of (Map _) = OBJ_MAP"
| "type_of (Bool _) = OBJ_BOOL"

definition obj_type :: "ddwaf_object \<Rightarrow> obj_type" where
  "obj_type ob = type_of (payload ob)"

fun arr_nbEntries :: "'o arr \<Rightarrow> nat" where
  "arr_nbEntries (NullArr n) = n"
| "arr_nbEntries (Arr _ xs) = length xs"

fun arr_items :: "'o arr \<Rightarrow> 'o list" where
  "arr_items (NullArr _) = []"
| "arr_items (Arr _ xs) = xs"

fun value_nbEntries :: "obj_value \<Rightarrow> nat" where
  "value_nbEntries (Str _ n) = n"
| "value_nbEntries (Array a) = arr_nbEntries a"
| "value_nbEntries (Map a) = arr_nbEntries a"
| "value_nbEntries _ = 0"

definition nbEntries :: "ddwaf_object \<Rightarrow> nat" where
  "nbEntries ob = value_nbEntries (payload ob)"

text \<open>The tests of \<open>utils.hpp\<close>; a container needs a non-null array, a boolean is no scalar.\<close>

fun is_container :: "ddwaf_object \<Rightarrow> bool" where
  "is_container (Obj _ (Array (Arr _ _))) = True"
| "is_container (Obj _ (Map (Arr _ _))) = True"
| "is_container _ = False"

fun is_map :: "ddwaf_object \<Rightarrow> bool" where
  "is_map (Obj _ (Map (Arr _ _))) = True"
| "is_map _ = False"

definition is_scalar :: "ddwaf_object \<Rightarrow> bool" where
  "is_scalar ob \<longleftrightarrow> obj_type ob \<in> {OBJ_SIGNED, OBJ_UNSIGNED, OBJ_STRING}"

fun children :: "ddwaf_object \<Rightarrow> ddwaf_object list" where
  "children (Obj _ (Array a)) = arr_items a"
| "children (Obj _ (Map a)) = arr_items a"
| "children _ = []"

lemma not_scalar_container: "is_scalar ob \<Longrightarrow> \<not> is_container ob"
  by (cases ob rule: is_container.cases) (auto simp: is_scalar_def obj_type_def)

lemma is_map_container: "is_map ob \<Longrightarrow> is_container ob"
  by (cases ob rule: is_map.cases) auto

lemma container_nbEntries: "is_container ob \<Longrightarrow> nbEntries ob = length (children ob)"
  by (cases ob rule: is_container.cases) (auto simp: nbEntries_def)

lemma child_size: "x \<in> set (children ob) \<Longrightarrow> size x < size ob"
proof (cases ob rule: children.cases)
  case (1 n a)
  then show "x \<in> set (children ob) \<Longrightarrow> size x < size ob"
    by (cases a) (auto dest: size_list_estimation' [where f = size, OF _ order.refl])
next
  case (2 n a)
  then show "x \<in> set (children ob) \<Longrightarrow> size x < size ob"
    by (cases a) (auto dest: size_list_estimation' [where f = size, OF _ order.refl])
qed simp_all

section \<open>C strings and decimal rendering\<close>

text \<open>\<open>strlen\<close> of a buffer without a terminator reads past it.\<close>

definition strlen :: "buf \<Rightarrow> nat option" where
  "strlen a = do { n \<leftarrow> scan (eqc NUL) a (length a) 0; if n < length a then Some n else None }"

text \<open>\<open>snprintf\<close> with \<open>PRIu64\<close> and \<open>PRId64\<close>.\<close>

function dec_nat :: "nat \<Rightarrow> string" where
  "dec_nat n = (if n < 10 then [char_of (48 + n)] else dec_nat (n div 10) @ [char_of (48 + n mod 10)])"
  by pat_completeness auto
termination by (relation "measure id") auto

declare dec_nat.simps [simp del]

definition dec_int :: "int \<Rightarrow> string" where
  "dec_int i = (if i < 0 then CHR ''-'' # dec_nat (nat (- i)) else dec_nat (nat i))"

lemma length_dec_nat: "n < 10 ^ Suc k \<Longrightarrow> length (dec_nat n) \<le> Suc k"
proof (induction n arbitrary: k rule: dec_nat.induct)
  case (1 n)
  show ?case
  proof (cases "n < 10")
    case True
    then show ?thesis by (simp add: dec_nat.simps [of n])
  next
    case False
    with "1.prems" obtain j where k: "k = Suc j"
      by (cases k) auto
    with "1.prems" have "n div 10 < 10 ^ Suc j"
      by (simp add: less_mult_imp_div_less mult.commute)
    with "1.IH" [OF False this] False k show ?thesis
      by (simp add: dec_nat.simps [of n])
  qed
qed

lemma strlen_terminated:
  assumes "NUL \<notin> set s"
  shows "strlen (s @ NUL # rest) = Some (length s)"
proof -
  have "takeWhile (\<lambda>c. c \<noteq> NUL) (s @ NUL # rest) = s"
    using assms by (induction s) auto
  then show ?thesis
    by (simp add: strlen_def scan_correct del: takeWhile_append)
qed

section \<open>Constructors\<close>

abbreviation SIZE_MAX :: nat where "SIZE_MAX \<equiv> 18446744073709551615"
abbreviation sizeof_object :: nat where "sizeof_object \<equiv> 40"

definition ddwaf_object_invalid :: "ddwaf_object option \<Rightarrow> ddwaf_object option" where
  "ddwaf_object_invalid ob = map_option (\<lambda>_. Obj None Invalid) ob"

definition ddwaf_object_string_helper ::
    "(nat \<Rightarrow> bool) \<Rightarrow> buf \<Rightarrow> nat \<Rightarrow> ddwaf_object option option" where
  "ddwaf_object_string_helper alloc s len =
     (if len = SIZE_MAX then Some None
      else if \<not> alloc (len + 1) then Some None
      else if length s < len then None
      else Some (Some (Obj None (Str (Some (take len s @ [NUL])) len))))"

definition ddwaf_object_string ::
    "(nat \<Rightarrow> bool) \<Rightarrow> ddwaf_object option \<Rightarrow> buf option \<Rightarrow> ddwaf_object option option" where
  "ddwaf_object_string alloc ob s =
     (case ob of None \<Rightarrow> Some None
      | Some _ \<Rightarrow> (case s of None \<Rightarrow> Some None
          | Some s \<Rightarrow> do { n \<leftarrow> strlen s; ddwaf_object_string_helper alloc s n }))"

definition ddwaf_object_stringl ::
    "(nat \<Rightarrow> bool) \<Rightarrow> ddwaf_object option \<Rightarrow> buf option \<Rightarrow> nat \<Rightarrow> ddwaf_object option option" where
  "ddwaf_object_stringl alloc ob s len =
     (case ob of None \<Rightarrow> Some None
      | Some _ \<Rightarrow> (case s of None \<Rightarrow> Some None
          | Some s \<Rightarrow> ddwaf_object_string_helper alloc s len))"

definition ddwaf_object_stringl_nc ::
    "ddwaf_object option \<Rightarrow> buf option \<Rightarrow> nat \<Rightarrow> ddwaf_object option" where
  "ddwaf_object_stringl_nc ob s len =
     (case ob of None \<Rightarrow> None
      | Some _ \<Rightarrow> (case s of None \<Rightarrow> None | Some s \<Rightarrow> Some (Obj None (Str (Some s) len))))"

text \<open>
  The 21-byte stack buffer that \<open>snprintf\<close> fills: at most 20 characters are kept and the
  rest of the buffer stays zero; the returned length is that of the whole rendering.
\<close>

definition snprintf21 :: "string \<Rightarrow> buf \<times> nat" where
  "snprintf21 s = (take 20 s @ replicate (21 - length (take 20 s)) NUL, length s)"

definition ddwaf_object_signed ::
    "(nat \<Rightarrow> bool) \<Rightarrow> ddwaf_object option \<Rightarrow> u64 \<Rightarrow> ddwaf_object option option" where
  "ddwaf_object_signed alloc ob v =
     (case ob of None \<Rightarrow> Some None
      | Some _ \<Rightarrow> (let (container, len) = snprintf21 (dec_int (sint v))
                   in ddwaf_object_stringl alloc ob (Some container) len))"

definition ddwaf_object_unsigned ::
    "(nat \<Rightarrow> bool) \<Rightarrow> ddwaf_object option \<Rightarrow> u64 \<Rightarrow> ddwaf_object option option" where
  "ddwaf_object_unsigned alloc ob v =
     (case ob of None \<Rightarrow> Some None
      | Some _ \<Rightarrow> (let (container, len) = snprintf21 (dec_nat (unat v))
                   in ddwaf_object_stringl alloc ob (Some container) len))"

definition ddwaf_object_unsigned_force :: "ddwaf_object option \<Rightarrow> u64 \<Rightarrow> ddwaf_object option" where
  "ddwaf_object_unsigned_force ob v = map_option (\<lambda>_. Obj None (Unsigned v)) ob"

definition ddwaf_object_signed_force :: "ddwaf_object option \<Rightarrow> u64 \<Rightarrow> ddwaf_object option" where
  "ddwaf_object_signed_force ob v = map_option (\<lambda>_. Obj None (Signed v)) ob"

definition ddwaf_object_bool :: "ddwaf_object option \<Rightarrow> bool \<Rightarrow> ddwaf_object option" where
  "ddwaf_object_bool ob b = map_option (\<lambda>_. Obj None (Bool b)) ob"

definition ddwaf_object_array :: "ddwaf_object option \<Rightarrow> ddwaf_object option" where
  "ddwaf_object_array ob = map_option (\<lambda>_. Obj None (Array (NullArr 0))) ob"

definition ddwaf_object_map :: "ddwaf_object option \<Rightarrow> ddwaf_object option" where
  "ddwaf_object_map ob = map_option (\<lambda>_. Obj None (Map (NullArr 0))) ob"

section \<open>Insertion into containers\<close>

text \<open>
  \<open>ddwaf_object_insert\<close>: the first entry allocates room for eight, and whenever the number
  of entries is a multiple of eight the allocation grows by eight. The entry is then stored
  at index \<open>nbEntries\<close>, which is undefined behaviour unless the allocation has that slot.
  The result is the new array, or \<open>Some None\<close> where the code returns false.
\<close>

fun ddwaf_object_insert :: "(nat \<Rightarrow> bool) \<Rightarrow> 'o arr \<Rightarrow> 'o \<Rightarrow> 'o arr option option" where
  "ddwaf_object_insert alloc (NullArr n) ob =
     (if n = 0 then
        (if alloc (8 * sizeof_object) then Some (Some (Arr 8 [ob])) else Some None)
      else None)"
| "ddwaf_object_insert alloc (Arr c xs) ob =
     (let n = length xs in
      if n = 0 then
        (if alloc (8 * sizeof_object) then Some (Some (Arr 8 [ob])) else Some None)
      else if n AND 7 = 0 then
        (if SIZE_MAX div sizeof_object < n + 8 then Some None
         else if \<not> alloc ((n + 8) * sizeof_object) then Some None
         else Some (Some (Arr (n + 8) (xs @ [ob]))))
      else if n < c then Some (Some (Arr c (xs @ [ob])))
      else None)"

definition ddwaf_object_array_add ::
    "(nat \<Rightarrow> bool) \<Rightarrow> ddwaf_object option \<Rightarrow> ddwaf_object option \<Rightarrow> (bool \<times> ddwaf_object option) option" where
  "ddwaf_object_array_add alloc arr ob =
     (case arr of
        Some (Obj nm (Array a)) \<Rightarrow>
          (case ob of
             None \<Rightarrow> Some (False, arr)
           | Some o1 \<Rightarrow>
               if obj_type o1 = OBJ_INVALID then Some (False, arr)
               else do {
                 res \<leftarrow> ddwaf_object_insert alloc a o1;
                 case res of None \<Rightarrow> Some (False, arr)
                 | Some a' \<Rightarrow> Some (True, Some (Obj nm (Array a'))) })
      | _ \<Rightarrow> Some (False, arr))"

text \<open>The shared tail of the map insertions: copy the key, then insert.\<close>

definition ddwaf_object_map_add_helper ::
    "(nat \<Rightarrow> bool) \<Rightarrow> ddwaf_object arr \<Rightarrow> buf \<Rightarrow> nat \<Rightarrow> ddwaf_object \<Rightarrow> ddwaf_object arr option option" where
  "ddwaf_object_map_add_helper alloc m key len ob =
     (if len = SIZE_MAX then Some None
      else if \<not> alloc (len + 1) then Some None
      else if length key < len then None
      else ddwaf_object_insert alloc m (Obj (Some (take len key)) (payload ob)))"

fun ddwaf_object_map_add_valid ::
    "ddwaf_object option \<Rightarrow> buf option \<Rightarrow> ddwaf_object option \<Rightarrow> bool" where
  "ddwaf_object_map_add_valid (Some m) (Some key) (Some ob) \<longleftrightarrow>
     obj_type m = OBJ_MAP \<and> obj_type ob \<noteq> OBJ_INVALID"
| "ddwaf_object_map_add_valid _ _ _ \<longleftrightarrow> False"

definition ddwaf_object_map_addl ::
    "(nat \<Rightarrow> bool) \<Rightarrow> ddwaf_object option \<Rightarrow> buf option \<Rightarrow> nat \<Rightarrow> ddwaf_object option
     \<Rightarrow> (bool \<times> ddwaf_object option) option" where
  "ddwaf_object_map_addl alloc m key len ob =
     (if \<not> ddwaf_object_map_add_valid m key ob then Some (False, m)
      else case m of
        Some (Obj nm (Map a)) \<Rightarrow>
          do { res \<leftarrow> ddwaf_object_map_add_helper alloc a (the key) len (the ob);
               case res of None \<Rightarrow> Some (False, m)
               | Some a' \<Rightarrow> Some (True, Some (Obj nm (Map a'))) }
      | _ \<Rightarrow> Some (False, m))"

definition ddwaf_object_map_add ::
    "(nat \<Rightarrow> bool) \<Rightarrow> ddwaf_object option \<Rightarrow> buf option \<Rightarrow> ddwaf_object option
     \<Rightarrow> (bool \<times> ddwaf_object option) option" where
  "ddwaf_object_map_add alloc m key ob =
     (if \<not> ddwaf_object_map_add_valid m key ob then Some (False, m)
      else do { len \<leftarrow> strlen (the key); ddwaf_object_map_addl alloc m key len ob })"

text \<open>The variant that does not copy the key renames the object that the caller passed.\<close>

definition ddwaf_object_map_addl_nc ::
    "(nat \<Rightarrow> bool) \<Rightarrow> ddwaf_object option \<Rightarrow> buf option \<Rightarrow> nat \<Rightarrow> ddwaf_object option
     \<Rightarrow> (bool \<times> ddwaf_object option \<times> ddwaf_object option) option" where
  "ddwaf_object_map_addl_nc alloc m key len ob =
     (if \<not> ddwaf_object_map_add_valid m key ob then Some (False, m, ob)
      else if length (the key) < len then None
      else case m of
        Some (Obj nm (Map a)) \<Rightarrow>
          (let ob' = Obj (Some (take len (the key))) (payload (the ob)) in
           do { res \<leftarrow> ddwaf_object_insert alloc a ob';
                case res of None \<Rightarrow> Some (False, m, Some ob')
                | Some a' \<Rightarrow> Some (True, Some (Obj nm (Map a')), Some ob') })
      | _ \<Rightarrow> Some (False, m, ob))"

text \<open>
  Freeing an object leaves it invalid and without a key, except that an object that is
  already invalid is left as it is.
\<close>

definition ddwaf_object_free :: "ddwaf_object option \<Rightarrow> ddwaf_object option" where
  "ddwaf_object_free ob =
     (case ob of None \<Rightarrow> None
      | Some o1 \<Rightarrow> if obj_type o1 = OBJ_INVALID then Some o1 else ddwaf_object_invalid (Some o1))"

section \<open>Accessors\<close>

definition ddwaf_object_type :: "ddwaf_object option \<Rightarrow> obj_type" where
  "ddwaf_object_type ob = (case ob of None \<Rightarrow> OBJ_INVALID | Some o1 \<Rightarrow> obj_type o1)"

definition ddwaf_object_size :: "ddwaf_object option \<Rightarrow> nat" where
  "ddwaf_object_size ob =
     (case ob of None \<Rightarrow> 0 | Some o1 \<Rightarrow> if \<not> is_container o1 then 0 else nbEntries o1)"

definition ddwaf_object_length :: "ddwaf_object option \<Rightarrow> nat" where
  "ddwaf_object_length ob =
     (case ob of None \<Rightarrow> 0 | Some o1 \<Rightarrow> if obj_type o1 \<noteq> OBJ_STRING then 0 else nbEntries o1)"

text \<open>The key and its length; the code stores the length only when there is a key.\<close>

definition ddwaf_object_get_key :: "ddwaf_object option \<Rightarrow> (string \<times> nat) option" where
  "ddwaf_object_get_key ob =
     (case ob of None \<Rightarrow> None
      | Some o1 \<Rightarrow> (case parameterName o1 of None \<Rightarrow> None | Some k \<Rightarrow> Some (k, length k)))"

text \<open>The string pointer (which may be null) and its length, for a string.\<close>

definition ddwaf_object_get_string :: "ddwaf_object option \<Rightarrow> (buf option \<times> nat) option" where
  "ddwaf_object_get_string ob =
     (case ob of Some (Obj _ (Str s n)) \<Rightarrow> Some (s, n) | _ \<Rightarrow> None)"

definition ddwaf_object_get_unsigned :: "ddwaf_object option \<Rightarrow> u64" where
  "ddwaf_object_get_unsigned ob = (case ob of Some (Obj _ (Unsigned v)) \<Rightarrow> v | _ \<Rightarrow> 0)"

definition ddwaf_object_get_signed :: "ddwaf_object option \<Rightarrow> u64" where
  "ddwaf_object_get_signed ob = (case ob of Some (Obj _ (Signed v)) \<Rightarrow> v | _ \<Rightarrow> 0)"

definition ddwaf_object_get_bool :: "ddwaf_object option \<Rightarrow> bool" where
  "ddwaf_object_get_bool ob = (case ob of Some (Obj _ (Bool b)) \<Rightarrow> b | _ \<Rightarrow> False)"

definition ddwaf_object_get_index :: "ddwaf_object option \<Rightarrow> nat \<Rightarrow> ddwaf_object option" where
  "ddwaf_object_get_index ob i =
     (case ob of None \<Rightarrow> None
      | Some o1 \<Rightarrow>
          if \<not> is_container o1 \<or> nbEntries o1 \<le> i then None else Some (children o1 ! i))"

section \<open>Well-formed objects\<close>

text \<open>
  What the library may assume of an object a caller hands over: a string is not longer than
  its allocation (a null string is empty), a container has no more entries than its
  allocation, and so for every entry.
\<close>

function wf_object :: "ddwaf_object \<Rightarrow> bool" where
  "wf_object ob =
     ((case payload ob of
         Str (Some a) n \<Rightarrow> n \<le> length a
       | Str None n \<Rightarrow> n = 0
       | Array (Arr c xs) \<Rightarrow> length xs \<le> c
       | Map (Arr c xs) \<Rightarrow> length xs \<le> c
       | _ \<Rightarrow> True)
      \<and> (\<forall>x \<in> set (children ob). wf_object x))"
  by pat_completeness auto
termination
  by (relation "measure size") (auto intro: child_size)

declare wf_object.simps [simp del]

lemma wf_child: "wf_object ob \<Longrightarrow> x \<in> set (children ob) \<Longrightarrow> wf_object x"
  by (simp add: wf_object.simps [of ob])

lemma wf_string: "wf_object (Obj k (Str (Some a) n)) \<longleftrightarrow> n \<le> length a"
  by (subst wf_object.simps) simp

lemma wf_key_irrelevant: "wf_object (Obj k v) \<longleftrightarrow> wf_object (Obj k' v)"
proof -
  have "children (Obj k v) = children (Obj k' v)"
    by (cases v) simp_all
  then show ?thesis
    using wf_object.simps [of "Obj k v"] wf_object.simps [of "Obj k' v"] by simp
qed

text \<open>
  The allocation invariant of a container that only the API has grown: its capacity is the
  number of entries rounded up to a multiple of eight.
\<close>

fun arr_ok :: "'o arr \<Rightarrow> bool" where
  "arr_ok (NullArr n) \<longleftrightarrow> n = 0"
| "arr_ok (Arr c xs) \<longleftrightarrow> xs = [] \<or> c = 8 * ((length xs + 7) div 8)"

lemma and_7: "n AND 7 = n mod 8" for n :: nat
  using take_bit_eq_mask [of 3 n] by (simp add: take_bit_eq_mod mask_eq_exp_minus_1)

lemma round_up_full: "n mod 8 = 0 \<Longrightarrow> n + 8 = 8 * ((n + 8) div 8)" for n :: nat
  by (simp add: dvd_eq_mod_eq_0 [symmetric])

lemma round_up_room: "n mod 8 \<noteq> 0 \<Longrightarrow> (n + 8) div 8 = (n + 7) div 8 \<and> n < 8 * ((n + 7) div 8)" for n :: nat
proof -
  assume "n mod 8 \<noteq> 0"
  moreover have "8 * (n div 8) + n mod 8 = n" and "n mod 8 < 8"
    by simp_all
  ultimately have lo: "8 * Suc (n div 8) \<le> n + 7" and hi: "n < 8 * Suc (n div 8)"
    unfolding mult_Suc_right by linarith+
  then have "(n + 7) div 8 = Suc (n div 8)" and "(n + 8) div 8 = Suc (n div 8)"
    by (auto intro!: div_nat_eqI)
  with hi show ?thesis by simp
qed

lemma insert_safe:
  assumes "arr_ok a"
  shows "\<exists>res. ddwaf_object_insert alloc a ob = Some res \<and>
    (\<forall>a'. res = Some a' \<longrightarrow> arr_ok a' \<and> arr_items a' = arr_items a @ [ob])"
proof (cases a)
  case (NullArr n)
  with assms show ?thesis by simp
next
  case (Arr c xs)
  show ?thesis
  proof (cases "xs = []")
    case True
    with Arr show ?thesis by simp
  next
    case False
    then have c: "c = 8 * ((length xs + 7) div 8)"
      using assms Arr by simp
    show ?thesis
    proof (cases "length xs mod 8 = 0")
      case mod: True
      then have "length xs + 8 = 8 * ((length (xs @ [ob]) + 7) div 8)"
        using round_up_full [of "length xs"] by (simp only: length_append list.size add.assoc) simp
      then have "arr_ok (Arr (length xs + 8) (xs @ [ob]))"
        by (simp only: arr_ok.simps simp_thms)
      with mod False show ?thesis
        using Arr by (simp add: and_7 Let_def del: arr_ok.simps)
    next
      case mod: False
      then have "length xs < c" and "c = 8 * ((length (xs @ [ob]) + 7) div 8)"
        using round_up_room [of "length xs"] c
        by (simp_all only: length_append list.size add.assoc) simp_all
      then have "length xs < c" and "arr_ok (Arr c (xs @ [ob]))"
        by (simp_all only: arr_ok.simps simp_thms)
      with mod False Arr show ?thesis
        by (simp add: and_7 Let_def del: arr_ok.simps)
    qed
  qed
qed

text \<open>Adding the entries of a list one by one, stopping at the first failure.\<close>

primrec add_all ::
    "(nat \<Rightarrow> bool) \<Rightarrow> ddwaf_object option \<Rightarrow> ddwaf_object list \<Rightarrow> (bool \<times> ddwaf_object option) option" where
  "add_all alloc m [] = Some (True, m)"
| "add_all alloc m (x # xs) = do {
     (ok, m') \<leftarrow> ddwaf_object_array_add alloc m (Some x);
     if ok then add_all alloc m' xs else Some (False, m') }"

text \<open>
  Growing an array through the API: whatever the allocator answers, no entry is stored
  outside the allocation, and an array whose insertions all reported success holds exactly
  the inserted objects, in order.
\<close>

lemma add_all_from:
  assumes "arr_ok a"
  shows "\<exists>ok a'. add_all alloc (Some (Obj k (Array a))) xs = Some (ok, Some (Obj k (Array a')))
    \<and> arr_ok a' \<and> (ok \<longrightarrow> arr_items a' = arr_items a @ xs)"
  using assms
proof (induction xs arbitrary: a)
  case Nil
  then show ?case by auto
next
  case (Cons x xs)
  from insert_safe [OF Cons.prems, of alloc x] obtain res where
    res: "ddwaf_object_insert alloc a x = Some res"
    and ok: "\<And>a'. res = Some a' \<Longrightarrow> arr_ok a' \<and> arr_items a' = arr_items a @ [x]"
    by blast
  show ?case
  proof (cases "obj_type x = OBJ_INVALID \<or> res = None")
    case True
    with res have "add_all alloc (Some (Obj k (Array a))) (x # xs)
        = Some (False, Some (Obj k (Array a)))"
      by (cases "obj_type x = OBJ_INVALID") (simp_all add: ddwaf_object_array_add_def)
    with Cons.prems show ?thesis by blast
  next
    case False
    then obtain a1 where a1: "res = Some a1" "arr_ok a1" "arr_items a1 = arr_items a @ [x]"
      using ok by auto
    from Cons.IH [OF \<open>arr_ok a1\<close>] obtain ok2 a2 where
      IH: "add_all alloc (Some (Obj k (Array a1))) xs = Some (ok2, Some (Obj k (Array a2)))"
        "arr_ok a2" "ok2 \<longrightarrow> arr_items a2 = arr_items a1 @ xs"
      by (elim exE conjE) (rule that)
    from False res a1 have "add_all alloc (Some (Obj k (Array a))) (x # xs)
        = add_all alloc (Some (Obj k (Array a1))) xs"
      by (simp add: ddwaf_object_array_add_def)
    with IH a1(3) show ?thesis
      by (intro exI [of _ ok2] exI [of _ a2]) (simp only: append.simps append_assoc simp_thms)
  qed
qed

text \<open>C14: An array grown entry by entry through the C API never stores outside its
  allocation, whatever the allocator answers, and when every insertion succeeds it holds
  exactly the inserted objects in order.\<close>

theorem array_build:
  "\<exists>ok a. add_all alloc (ddwaf_object_array (Some ob)) xs = Some (ok, Some (Obj None (Array a)))
     \<and> arr_ok a \<and> (ok \<longrightarrow> arr_items a = xs)"
proof -
  have start: "ddwaf_object_array (Some ob) = Some (Obj None (Array (NullArr 0)))"
    by (simp add: ddwaf_object_array_def)
  have "arr_ok (NullArr 0 :: ddwaf_object arr)" by simp
  from add_all_from [OF this, of alloc None xs] obtain ok a where
    "add_all alloc (Some (Obj None (Array (NullArr 0)))) xs = Some (ok, Some (Obj None (Array a)))"
    and "arr_ok a" and "ok \<longrightarrow> arr_items a = arr_items (NullArr 0) @ xs"
    by blast
  then show ?thesis
    unfolding start by auto
qed

theorem array_build_witness:
  "\<exists>ok a. add_all (\<lambda>n. n \<le> 4096) (ddwaf_object_array (Some (Obj None Invalid)))
         [Obj None (Bool True), Obj None (Signed 3)]
       = Some (ok, Some (Obj None (Array a))) \<and> arr_ok a \<and> ok
     \<and> arr_items a = [Obj None (Bool True), Obj None (Signed 3)]"
proof -
  have run: "map_option fst (add_all (\<lambda>n. n \<le> 4096) (ddwaf_object_array (Some (Obj None Invalid)))
         [Obj None (Bool True), Obj None (Signed 3)]) = Some True"
    by (simp add: ddwaf_object_array_def ddwaf_object_array_add_def obj_type_def and_7)
  obtain ok a where *: "add_all (\<lambda>n. n \<le> 4096) (ddwaf_object_array (Some (Obj None Invalid)))
         [Obj None (Bool True), Obj None (Signed 3)] = Some (ok, Some (Obj None (Array a)))"
    and "arr_ok a" and "ok \<longrightarrow> arr_items a = [Obj None (Bool True), Obj None (Signed 3)]"
    using array_build [where alloc = "\<lambda>n. n \<le> 4096" and ob = "Obj None Invalid"
        and xs = "[Obj None (Bool True), Obj None (Signed 3)]"]
    by (elim exE conjE) (rule that)
  moreover from run have ok by (simp only: * option.map option.inject fst_conv)
  ultimately show ?thesis by iprover
qed

end
