(* ===== verification/Utf8.thy ===== *)
theory Utf8
  imports Prelude
begin

text \<open>
  The UTF-8 component, \<open>src/utf8.cpp\<close>: encoding a code point, recognising and fetching the
  next glyph, normalising a code point with utf8proc, and normalising a whole string through
  a list of scratch buffers. utf8proc is not part of the repository: it is the parameter
  record \<open>utf8proc\<close>, and the development states no law about it.

  A function of the code that stores bytes through a pointer and returns how many is modelled
  as the list of those bytes; its callers store them with \<open>wrs\<close>.
\<close>

abbreviation UTF8_MAX_CODEPOINT :: u32 where "UTF8_MAX_CODEPOINT \<equiv> 0x10FFFF"
abbreviation UTF8_INVALID :: u32 where "UTF8_INVALID \<equiv> 0xFFFFFFFF"
abbreviation UTF8_EOF :: u32 where "UTF8_EOF \<equiv> 0xFFFFFFFE"

text \<open>The narrowing cast \<open>(char)w\<close> of a 32-bit value.\<close>

definition char32 :: "u32 \<Rightarrow> char" where
  "char32 w = to_char (ucast w)"

section \<open>Encoding\<close>

definition codepoint_to_bytes :: "u32 \<Rightarrow> char list" where
  "codepoint_to_bytes cp =
     (if cp \<le> 0x7F then [char32 cp]
      else if cp > UTF8_MAX_CODEPOINT then []
      else if cp > 0xFFFF then
        [char32 (0xF0 OR (drop_bit 18 cp AND 0x07)),
         char32 (0x80 OR (drop_bit 12 cp AND 0x3F)),
         char32 (0x80 OR (drop_bit 6 cp AND 0x3F)),
         char32 (0x80 OR (cp AND 0x3F))]
      else if cp > 0x7FF then
        [char32 (0xE0 OR (drop_bit 12 cp AND 0x0F)),
         char32 (0x80 OR (drop_bit 6 cp AND 0x3F)),
         char32 (0x80 OR (cp AND 0x3F))]
      else
        [char32 (0xC0 OR (drop_bit 6 cp AND 0x1F)),
         char32 (0x80 OR (cp AND 0x3F))])"

definition replacement_bytes :: "char list" where
  "replacement_bytes = [CHR 0xEF, CHR 0xBF, CHR 0xBD]"

definition write_codepoint :: "u32 \<Rightarrow> nat \<Rightarrow> char list" where
  "write_codepoint cp lengthLeft =
     (if cp = 0 \<or> (cp \<ge> 0xd800 \<and> cp \<le> 0xdfff) \<or> cp > 0x10ffff
      then (if lengthLeft > 2 then replacement_bytes else [])
      else codepoint_to_bytes cp)"

section \<open>Decoding\<close>

definition is_continuation :: "char \<Rightarrow> bool" where
  "is_continuation c \<longleftrightarrow> drop_bit 6 (byte c) = 0x2"

definition expectedSequenceLength :: "u8 \<Rightarrow> int" where
  "expectedSequenceLength firstByte =
     (if drop_bit 5 firstByte = 0x6 then 2
      else if drop_bit 4 firstByte = 0xe then 3
      else if drop_bit 3 firstByte = 0x1e then 4
      else -1)"

text \<open>The bytes at \<open>pos\<close>: the length of the glyph, 0 at the end, -1 when it is no glyph.\<close>

definition findNextGlyphLength :: "buf \<Rightarrow> nat \<Rightarrow> nat \<Rightarrow> int option" where
  "findNextGlyphLength a pos lengthLeft =
     (if lengthLeft = 0 then Some 0
      else do {
        first \<leftarrow> rd a pos;
        if byte first AND 0x80 = 0 then Some 1
        else let n = expectedSequenceLength (byte first) in
          if n < 0 \<or> int lengthLeft < n then Some (-1)
          else do {
            ok \<leftarrow> chk a (map (\<lambda>i. (pos + i, is_continuation)) [1..<nat n]);
            Some (if ok then n else -1) } })"

text \<open>The continuation bytes at the given offsets, six bits each.\<close>

primrec fetch_continuation :: "buf \<Rightarrow> nat \<Rightarrow> nat list \<Rightarrow> u32 \<Rightarrow> u32 option" where
  "fetch_continuation a pos [] cp = Some cp"
| "fetch_continuation a pos (i # is) cp = do {
     c \<leftarrow> rd a (pos + i);
     fetch_continuation a pos is (push_bit 6 cp OR (ucast (byte c) AND 0x3F)) }"

definition fetch_next_codepoint :: "buf \<Rightarrow> nat \<Rightarrow> nat \<Rightarrow> (u32 \<times> nat) option" where
  "fetch_next_codepoint a position len =
     (if position > len then Some (UTF8_INVALID, position)
      else do {
        n \<leftarrow> findNextGlyphLength a position (len - position);
        if n = 0 then Some (UTF8_EOF, position)
        else if n < 0 then Some (UTF8_INVALID, position + 1)
        else if n = 1 then do { c \<leftarrow> rd a position; Some (ucast (byte c), position + 1) }
        else do {
          c \<leftarrow> rd a position;
          cp \<leftarrow> fetch_continuation a position [1..<nat n]
                 (ucast (byte c AND drop_bit (nat n + 1) 0xFF));
          Some (cp, position + nat n) } })"

section \<open>Normalising a code point\<close>

text \<open>
  What \<open>normalize_codepoint\<close> uses of utf8proc: the decomposition of a code point (its
  length as the code casts it, and the code points stored when they fit), the general
  category, whether the property record has a case-folding sequence, and the two case maps.
\<close>

text \<open>The two enumerators of \<open>utf8proc.h\<close> that the code compares and masks categories with.\<close>

definition CATEGORY_LU :: nat where "CATEGORY_LU = 1"
definition CATEGORY_LL :: nat where "CATEGORY_LL = 2"

record utf8proc =
  decompose_char :: "u32 \<Rightarrow> nat \<Rightarrow> nat \<times> u32 list"
  get_category :: "u32 \<Rightarrow> nat"
  has_casefold :: "u32 \<Rightarrow> bool"
  cp_toupper :: "u32 \<Rightarrow> u32"
  cp_tolower :: "u32 \<Rightarrow> u32"

definition restore_case :: "utf8proc \<Rightarrow> u32 \<Rightarrow> u32 list \<Rightarrow> u32 list" where
  "restore_case lib cp ds =
     (if has_casefold lib cp then
        (if get_category lib cp AND (CATEGORY_LU OR CATEGORY_LL) \<noteq> 0 then
           (if get_category lib cp = CATEGORY_LU then map (cp_toupper lib) ds
            else map (cp_tolower lib) ds)
         else ds)
      else map (\<lambda>d. if get_category lib d = CATEGORY_LU then cp_toupper lib (cp_tolower lib d)
                     else if get_category lib d = CATEGORY_LL then cp_tolower lib (cp_toupper lib d)
                     else d) ds)"

text \<open>The returned length and what the buffer of \<open>wbBufferLength\<close> entries then holds.\<close>

definition normalize_codepoint :: "utf8proc \<Rightarrow> u32 \<Rightarrow> nat \<Rightarrow> nat \<times> u32 list" where
  "normalize_codepoint lib cp wbBufferLength =
     (if cp \<ge> UTF8_MAX_CODEPOINT then (0, [])
      else if cp = 0x200D then (1, if wbBufferLength > 0 then [cp] else [])
      else let (decomposedLength, wbBuffer) = decompose_char lib cp wbBufferLength in
        if decomposedLength > 0 \<and> decomposedLength \<le> wbBufferLength
        then (decomposedLength, restore_case lib cp wbBuffer)
        else (decomposedLength, wbBuffer))"

section \<open>Normalising a string\<close>

text \<open>
  The scratchpad is a non-empty vector of chunks, each with its allocation size and the bytes
  stored so far: the chunks before the last one, and the last one. Storing into a chunk whose
  allocation failed writes through a null pointer, so that branch is undefined behaviour.
\<close>

type_synonym chunk = "nat \<times> char list"
type_synonym scratchpad = "chunk list \<times> chunk"

definition scratch_write :: "(nat \<Rightarrow> bool) \<Rightarrow> scratchpad \<Rightarrow> char list \<Rightarrow> scratchpad option" where
  "scratch_write alloc sp bytes =
     (case sp of (before, (cap, used)) \<Rightarrow>
        if \<not> alloc cap then None
        else if length used + length bytes \<ge> cap then
          (if length bytes \<le> cap then Some (before @ [(cap, used)], (cap, bytes)) else None)
        else Some (before, (cap, used @ bytes)))"

primrec scratch_write_all :: "(nat \<Rightarrow> bool) \<Rightarrow> scratchpad \<Rightarrow> u32 list \<Rightarrow> scratchpad option" where
  "scratch_write_all alloc sp [] = Some sp"
| "scratch_write_all alloc sp (d # ds) = do {
     sp' \<leftarrow> scratch_write alloc sp (write_codepoint d 4);
     scratch_write_all alloc sp' ds }"

abbreviation INFLIGHT_BUFFER_SIZE :: nat where "INFLIGHT_BUFFER_SIZE \<equiv> 24"

partial_function (option) normalize_loop ::
    "(nat \<Rightarrow> bool) \<Rightarrow> utf8proc \<Rightarrow> buf \<Rightarrow> nat \<Rightarrow> nat \<Rightarrow> scratchpad \<Rightarrow> scratchpad option" where
  "normalize_loop alloc lib a len position sp = do {
     (cp, position') \<leftarrow> fetch_next_codepoint a position len;
     if cp = UTF8_EOF then Some sp
     else if cp = UTF8_INVALID then normalize_loop alloc lib a len position' sp
     else case normalize_codepoint lib cp INFLIGHT_BUFFER_SIZE of (n, ds) \<Rightarrow>
       if n > INFLIGHT_BUFFER_SIZE then normalize_loop alloc lib a len position' sp
       else do {
         sp' \<leftarrow> scratch_write_all alloc sp (take n ds);
         normalize_loop alloc lib a len position' sp' } }"

declare normalize_loop.simps [code]

definition scratch_bytes :: "scratchpad \<Rightarrow> char list" where
  "scratch_bytes sp = concat (map snd (fst sp @ [snd sp]))"

text \<open>
  The result is the returned flag, the buffer (its initialised part) and the length. With one
  chunk the buffer is that chunk; otherwise the original buffer is grown when it is too short,
  and the chunks are copied into it.
\<close>

definition normalize_string ::
    "(nat \<Rightarrow> bool) \<Rightarrow> utf8proc \<Rightarrow> buf \<Rightarrow> nat \<Rightarrow> (bool \<times> buf \<times> nat) option" where
  "normalize_string alloc lib a bufferLength =
     (let cap = (if bufferLength > 1024 then bufferLength else 1024) in
      do {
        sp \<leftarrow> normalize_loop alloc lib a bufferLength 0 ([], (cap, []));
        let out = scratch_bytes sp in
        if fst sp = [] then Some (True, snd (snd sp), length (snd (snd sp)))
        else if length out > bufferLength then
          (if alloc (length out) then Some (True, out, length out) else Some (False, a, bufferLength))
        else do { a' \<leftarrow> wrs a 0 out; Some (True, a', length out) } })"

section \<open>Bit-level facts\<close>

lemma masks32:
  "x AND 0x3F = take_bit 6 x" "x AND 0x1F = take_bit 5 x"
  "x AND 0x0F = take_bit 4 x" "x AND 0x07 = take_bit 3 x" for x :: u32
  by (simp_all add: take_bit_eq_mask mask_eq_exp_minus_1)

lemma masks8:
  "x AND drop_bit 3 0xFF = take_bit 5 x" "x AND drop_bit 4 0xFF = take_bit 4 x"
  "x AND drop_bit 5 0xFF = take_bit 3 x" for x :: u8
  by (simp_all add: take_bit_eq_mask mask_eq_exp_minus_1)

text \<open>The bits of the constants of the encoding, each a shifted mask.\<close>

lemma shifted_mask_bits:
  "bit (push_bit k (mask m) :: int) n \<longleftrightarrow> k \<le> n \<and> n < k + m"
  by (auto simp: bit_push_bit_iff bit_mask_iff)

lemma prefix_masks:
  "(0x80 :: int) = push_bit 7 (mask 1)" "(0xC0 :: int) = push_bit 6 (mask 2)"
  "(0xE0 :: int) = push_bit 5 (mask 3)" "(0xF0 :: int) = push_bit 4 (mask 4)"
  "(2 :: int) = push_bit 1 (mask 1)" "(6 :: int) = push_bit 1 (mask 2)"
  "(7 :: int) = push_bit 0 (mask 3)" "(14 :: int) = push_bit 1 (mask 3)"
  "(15 :: int) = push_bit 0 (mask 4)" "(30 :: int) = push_bit 1 (mask 4)"
  "(0xF8 :: int) = push_bit 3 (mask 5)"
  by (simp_all add: mask_eq_exp_minus_1)

lemmas prefix_bits =
  shifted_mask_bits [of 7 1, folded prefix_masks] shifted_mask_bits [of 6 2, folded prefix_masks]
  shifted_mask_bits [of 5 3, folded prefix_masks] shifted_mask_bits [of 4 4, folded prefix_masks]
  shifted_mask_bits [of 1 1, folded prefix_masks] shifted_mask_bits [of 1 2, folded prefix_masks]
  shifted_mask_bits [of 0 3, folded prefix_masks] shifted_mask_bits [of 1 3, folded prefix_masks]
  shifted_mask_bits [of 0 4, folded prefix_masks] shifted_mask_bits [of 1 4, folded prefix_masks]
  shifted_mask_bits [of 3 5, folded prefix_masks]

lemma six_bits_more:
  "push_bit n (take_bit m (drop_bit n x)) OR take_bit n x = take_bit (m + n) x" for x :: "'a::len word"
  by (rule bit_word_eqI) (auto simp: bit_simps)

lemma six_bits_more_low:
  "push_bit 6 (take_bit m (drop_bit (6 + k) x)) OR take_bit 6 (drop_bit k x)
     = take_bit (m + 6) (drop_bit k x)" for x :: "'a::len word"
  using six_bits_more [of 6 m "drop_bit k x"] by (simp add: add.commute)

lemma top_bit: "x AND 0x80 = 0 \<longleftrightarrow> \<not> bit x 7" for x :: u8
proof
  assume "x AND 0x80 = 0"
  then have "\<not> bit (x AND 0x80) 7"
    by simp
  then show "\<not> bit x 7"
    by (simp add: bit_simps)
next
  assume x: "\<not> bit x 7"
  have "bit (x AND 0x80) n = bit (0 :: u8) n" if "n < LENGTH(8)" for n
    using x that by (cases "n = 7") (auto simp add: bit_simps prefix_bits)
  then show "x AND 0x80 = 0"
    by (rule bit_word_eqI)
qed

lemma small_word: "x < 2 ^ k \<Longrightarrow> take_bit k x = x" for x :: u32
  by (simp add: take_bit_eq_mask less_mask_eq)

lemma continuation_byte:
  "is_continuation (char32 (0x80 OR (x AND 0x3F)))"
  "ucast (byte (char32 (0x80 OR (x AND 0x3F)))) AND 0x3F = take_bit 6 x" for x :: u32
  unfolding char32_def is_continuation_def byte_to_char masks32
  by (rule bit_word_eqI; auto simp: bit_simps prefix_bits)+

lemma header_value:
  "ucast (byte (char32 (0xC0 OR (x AND 0x1F))) AND drop_bit 3 0xFF) = take_bit 5 x"
  "ucast (byte (char32 (0xE0 OR (x AND 0x0F))) AND drop_bit 4 0xFF) = take_bit 4 x"
  "ucast (byte (char32 (0xF0 OR (x AND 0x07))) AND drop_bit 5 0xFF) = take_bit 3 x" for x :: u32
  unfolding char32_def byte_to_char masks32 masks8
  by (rule bit_word_eqI; auto simp: bit_simps prefix_bits)+

lemma header_prefix:
  "byte (char32 (0xC0 OR (x AND 0x1F))) AND 0xE0 = 0xC0"
  "byte (char32 (0xE0 OR (x AND 0x0F))) AND 0xF0 = 0xE0"
  "byte (char32 (0xF0 OR (x AND 0x07))) AND 0xF8 = 0xF0" for x :: u32
  unfolding char32_def byte_to_char masks32
  by (rule bit_word_eqI; auto simp: bit_simps prefix_bits)+

lemma length_of_prefix:
  "byte c AND 0xE0 = 0xC0 \<longrightarrow> expectedSequenceLength (byte c) = 2"
  "byte c AND 0xF0 = 0xE0 \<longrightarrow> expectedSequenceLength (byte c) = 3"
  "byte c AND 0xF8 = 0xF0 \<longrightarrow> expectedSequenceLength (byte c) = 4"
  "byte c AND 0x80 = 0 \<longrightarrow> expectedSequenceLength (byte c) = -1"
proof -
  have "\<forall>c. (byte c AND 0xE0 = 0xC0 \<longrightarrow> expectedSequenceLength (byte c) = 2) \<and>
            (byte c AND 0xF0 = 0xE0 \<longrightarrow> expectedSequenceLength (byte c) = 3) \<and>
            (byte c AND 0xF8 = 0xF0 \<longrightarrow> expectedSequenceLength (byte c) = 4) \<and>
            (byte c AND 0x80 = 0 \<longrightarrow> expectedSequenceLength (byte c) = -1)"
    by code_simp
  then show
    "byte c AND 0xE0 = 0xC0 \<longrightarrow> expectedSequenceLength (byte c) = 2"
    "byte c AND 0xF0 = 0xE0 \<longrightarrow> expectedSequenceLength (byte c) = 3"
    "byte c AND 0xF8 = 0xF0 \<longrightarrow> expectedSequenceLength (byte c) = 4"
    "byte c AND 0x80 = 0 \<longrightarrow> expectedSequenceLength (byte c) = -1"
    by blast+
qed

section \<open>What is encoded is fetched back\<close>

lemma rd_middle [simp]: "i < length xs \<Longrightarrow> rd (pre @ xs @ suf) (length pre + i) = Some (xs ! i)"
  by (simp add: nth_append)

lemma rd_middle_0 [simp]: "rd (pre @ x # suf) (length pre) = Some x"
  by simp

lemma ascii_byte: "x \<le> 0x7F \<Longrightarrow> byte (char32 x) AND 0x80 = 0 \<and> ucast (byte (char32 x)) = x" for x :: u32
proof -
  assume "x \<le> 0x7F"
  then have "x < 2 ^ 7"
    by (simp add: word_le_nat_alt word_less_nat_alt)
  then have x: "x = take_bit 7 x"
    by (simp add: small_word)
  show ?thesis
    unfolding top_bit unfolding char32_def byte_to_char
    by (subst (1 2 3) x) (auto simp: bit_eq_iff bit_simps)
qed

text \<open>A well-formed glyph of at least two bytes, and the code point its bytes stand for.\<close>

definition more_bits :: "u32 \<Rightarrow> char \<Rightarrow> u32" where
  "more_bits cp c = push_bit 6 cp OR (ucast (byte c) AND 0x3F)"

lemma fetch_continuation_foldl:
  "length pre = pos + i \<Longrightarrow>
   fetch_continuation (pre @ cs @ suf) pos [i..<i + length cs] cp = Some (foldl more_bits cp cs)"
proof (induction cs arbitrary: pre i cp)
  case Nil
  then show ?case by simp
next
  case (Cons c cs)
  have "[i..<i + length (c # cs)] = i # [Suc i..<Suc i + length cs]"
    by (simp add: upt_conv_Cons del: upt_Suc)
  with Cons.IH [of "pre @ [c]" "Suc i" "more_bits cp c"] Cons.prems show ?case
    by (simp add: more_bits_def nth_append del: upt_Suc)
qed

lemma fetch_glyph:
  assumes a: "a = pre @ (h # cs) @ suf" and n: "n = length (h # cs)"
    and len: "length pre + n \<le> len" "len \<le> length a"
    and esl: "expectedSequenceLength (byte h) = int n" and cs: "list_all is_continuation cs"
  shows "fetch_next_codepoint a (length pre) len
    = Some (foldl more_bits (ucast (byte h AND drop_bit (n + 1) 0xFF)) cs, length pre + n)"
proof -
  have top: "byte h AND 0x80 \<noteq> 0"
    using length_of_prefix(4) [of h] esl by auto
  have n1: "int n > 1"
    using esl by (auto simp: expectedSequenceLength_def split: if_splits)
  have rd: "rd a (length pre) = Some h"
    using a by simp
  have "chk a (map (\<lambda>i. (length pre + i, is_continuation)) [1..<n]) = Some True"
    using a n cs by (subst chk_in) (auto simp: nth_append nth_Cons' list_all_length)
  then have find: "findNextGlyphLength a (length pre) (len - length pre) = Some (int n)"
    using rd top esl len n1 by (simp add: findNextGlyphLength_def)
  have "fetch_continuation a (length pre) [1..<n] cp = Some (foldl more_bits cp cs)" for cp
    using fetch_continuation_foldl [of "pre @ [h]" "length pre" 1 cs suf cp] a n by simp
  then show ?thesis
    using len find n1 rd by (simp add: fetch_next_codepoint_def)
qed

lemma more_bits_take:
  "more_bits (take_bit m (drop_bit (6 + k) x)) (char32 (0x80 OR (drop_bit k x AND 0x3F)))
     = take_bit (m + 6) (drop_bit k x)" for x :: u32
  by (simp only: more_bits_def continuation_byte six_bits_more_low)

lemma fetch_next_encoded:
  assumes cp: "cp \<le> UTF8_MAX_CODEPOINT" and a: "a = pre @ codepoint_to_bytes cp @ suf"
    and len: "length pre + length (codepoint_to_bytes cp) \<le> len" "len \<le> length a"
  shows "fetch_next_codepoint a (length pre) len
           = Some (cp, length pre + length (codepoint_to_bytes cp))"
proof -
  let ?c = "\<lambda>k. char32 (0x80 OR (drop_bit k cp AND 0x3F))"
  consider (1) "cp \<le> 0x7F" | (2) "0x7F < cp" "cp \<le> 0x7FF" | (3) "0x7FF < cp" "cp \<le> 0xFFFF" | (4) "0xFFFF < cp"
    by (meson linorder_not_le)
  then show ?thesis
  proof cases
    case 1
    then have "codepoint_to_bytes cp = [char32 cp]"
      by (simp add: codepoint_to_bytes_def)
    with a len ascii_byte [OF 1] show ?thesis
      by (auto simp: fetch_next_codepoint_def findNextGlyphLength_def)
  next
    case 2
    then have "cp < 2 ^ 11"
      by (simp add: word_le_nat_alt word_less_nat_alt)
    then have "more_bits (take_bit 5 (drop_bit 6 cp)) (?c 0) = cp"
      using more_bits_take [of 5 0 cp] by (simp add: small_word)
    moreover have "\<not> cp \<le> 0x7F" "\<not> cp > 0xFFFF" "\<not> cp > 0x7FF"
      using 2 by (simp_all add: word_le_nat_alt word_less_nat_alt)
    then have e: "codepoint_to_bytes cp = [char32 (0xC0 OR (drop_bit 6 cp AND 0x1F)), ?c 0]"
      using cp by (simp add: codepoint_to_bytes_def)
    ultimately show ?thesis
      using fetch_glyph [OF a [unfolded e], of 2] len header_prefix(1) length_of_prefix(1)
        header_value(1) [of "drop_bit 6 cp"] continuation_byte(1) [of "cp"]
      unfolding e by simp
  next
    case 3
    then have "cp < 2 ^ 16"
      by (simp add: word_le_nat_alt word_less_nat_alt)
    then have "more_bits (more_bits (take_bit 4 (drop_bit 12 cp)) (?c 6)) (?c 0) = cp"
      using more_bits_take [of 4 6 cp] more_bits_take [of 10 0 cp] by (simp add: small_word)
    moreover have "\<not> cp \<le> 0x7F" "\<not> cp > 0xFFFF"
      using 3 by (simp_all add: word_le_nat_alt word_less_nat_alt)
    then have e: "codepoint_to_bytes cp =
        [char32 (0xE0 OR (drop_bit 12 cp AND 0x0F)), ?c 6, ?c 0]"
      using cp 3 by (simp add: codepoint_to_bytes_def)
    ultimately show ?thesis
      using fetch_glyph [OF a [unfolded e], of 3] len header_prefix(2) length_of_prefix(2)
        header_value(2) [of "drop_bit 12 cp"] continuation_byte(1) [of "cp"]
        continuation_byte(1) [of "drop_bit 6 cp"]
      unfolding e by simp
  next
    case 4
    then have "cp < 2 ^ 21"
      using cp by (simp add: word_le_nat_alt word_less_nat_alt)
    then have "more_bits (more_bits (more_bits (take_bit 3 (drop_bit 18 cp)) (?c 12)) (?c 6)) (?c 0) = cp"
      using more_bits_take [of 3 12 cp] more_bits_take [of 9 6 cp] more_bits_take [of 15 0 cp]
      by (simp add: small_word)
    moreover have "\<not> cp \<le> 0x7F"
      using 4 by (simp add: word_le_nat_alt word_less_nat_alt)
    then have e: "codepoint_to_bytes cp =
        [char32 (0xF0 OR (drop_bit 18 cp AND 0x07)), ?c 12, ?c 6, ?c 0]"
      using cp 4 by (simp add: codepoint_to_bytes_def)
    ultimately show ?thesis
      using fetch_glyph [OF a [unfolded e], of 4] len header_prefix(3) length_of_prefix(3)
        header_value(3) [of "drop_bit 18 cp"] continuation_byte(1) [of "cp"]
        continuation_byte(1) [of "drop_bit 6 cp"] continuation_byte(1) [of "drop_bit 12 cp"]
      unfolding e by simp
  qed
qed

text \<open>C15: Wherever the encoding of a code point stands in a buffer, fetching there gives the
  code point back and moves past exactly its bytes.\<close>

theorem fetch_encoded:
  assumes cp: "cp \<le> UTF8_MAX_CODEPOINT" and a: "a = pre @ codepoint_to_bytes cp @ suf"
    and len: "length pre + length (codepoint_to_bytes cp) \<le> len" "len \<le> length a"
  shows "fetch_next_codepoint a (length pre) len
           = Some (cp, length pre + length (codepoint_to_bytes cp))"
  by (rule fetch_next_encoded [OF assms])

section \<open>Any bytes can be fetched\<close>

text \<open>
  Fetching reads inside the buffer whatever the bytes are, moves forward except at the end,
  and a code point of at most 21 bits comes out of it, so the two marker values are never
  taken for code points.
\<close>

lemma find_safe:
  assumes "pos + left \<le> length a"
  obtains n where "findNextGlyphLength a pos left = Some n"
    "n = 0 \<longleftrightarrow> left = 0" "left > 0 \<Longrightarrow> n = -1 \<or> (n \<in> {1, 2, 3, 4} \<and> nat n \<le> left)"
proof (cases "left = 0")
  case True
  with that show ?thesis
    by (simp add: findNextGlyphLength_def)
next
  case False
  let ?n = "expectedSequenceLength (byte (a ! pos))"
  have n: "?n \<in> {-1, 2, 3, 4}"
    by (simp add: expectedSequenceLength_def)
  have rd: "rd a pos = Some (a ! pos)"
    using False assms by simp
  show ?thesis
  proof (cases "byte (a ! pos) AND 0x80 = 0 \<or> ?n < 0 \<or> int left < ?n")
    case True
    with False rd have "findNextGlyphLength a pos left
        = Some (if byte (a ! pos) AND 0x80 = 0 then 1 else -1)"
      by (auto simp: findNextGlyphLength_def Let_def)
    from that [OF this] False show ?thesis
      by (auto split: if_splits)
  next
    case long: False
    then have "\<forall>(i, P) \<in> set (map (\<lambda>i. (pos + i, is_continuation)) [1..<nat ?n]). i < length a"
      using assms n by auto
    from chk_in [OF this] obtain ok where
      "chk a (map (\<lambda>i. (pos + i, is_continuation)) [1..<nat ?n]) = Some ok"
      by blast
    with long False rd have "findNextGlyphLength a pos left = Some (if ok then ?n else -1)"
      by (simp add: findNextGlyphLength_def)
    with long False n that [of "if ok then ?n else -1"] show ?thesis
      by auto
  qed
qed

lemma more_bits_fits: "take_bit k cp = cp \<Longrightarrow> take_bit (k + 6) (more_bits cp c) = more_bits cp c"
proof -
  assume cp: "take_bit k cp = cp"
  have "more_bits (take_bit k cp) c = take_bit (k + 6) (more_bits (take_bit k cp) c)"
    unfolding more_bits_def masks32 by (rule bit_word_eqI) (auto simp: bit_simps)
  with cp show ?thesis
    by simp
qed

lemma fetch_continuation_safe:
  "\<forall>i \<in> set is. pos + i < length a \<Longrightarrow> take_bit k cp = cp \<Longrightarrow>
   \<exists>cp'. fetch_continuation a pos is cp = Some cp' \<and> take_bit (k + 6 * length is) cp' = cp'"
proof (induction "is" arbitrary: cp k)
  case Nil
  then show ?case by simp
next
  case (Cons i "is")
  then show ?case
    using Cons.IH [OF _ more_bits_fits [OF Cons.prems(2), of "a ! (pos + i)"]]
    by (simp add: more_bits_def add.assoc)
qed

lemma header_fits:
  fixes w :: u8
  assumes "n \<in> {2, 3, 4}"
  shows "take_bit (7 - n) (ucast (w AND drop_bit (n + 1) 0xFF) :: u32) = ucast (w AND drop_bit (n + 1) 0xFF)"
proof -
  have "take_bit k (ucast (take_bit k w) :: u32) = ucast (take_bit k w)" for k
    by (rule bit_word_eqI) (auto simp: bit_simps)
  moreover have "w AND 0x1F = take_bit 5 w" "w AND 0x0F = take_bit 4 w" "w AND 0x07 = take_bit 3 w"
    by (simp_all add: take_bit_eq_mask mask_eq_exp_minus_1)
  ultimately show ?thesis
    using assms by auto
qed

lemma take_bit_21: "take_bit 21 cp = cp \<Longrightarrow> cp \<noteq> UTF8_INVALID \<and> cp \<noteq> UTF8_EOF" for cp :: u32
proof -
  assume *: "take_bit 21 cp = cp"
  have "\<not> bit cp 31"
    by (subst * [symmetric]) (simp add: bit_simps)
  moreover have "bit UTF8_INVALID 31" "bit UTF8_EOF 31"
    by code_simp+
  ultimately show ?thesis
    by metis
qed

lemma fetch_next_safe:
  assumes "len \<le> length a" "position \<le> len"
  shows "\<exists>cp position'. fetch_next_codepoint a position len = Some (cp, position') \<and>
           (cp = UTF8_EOF \<longleftrightarrow> position = len) \<and>
           (position < len \<longrightarrow> position < position' \<and> position' \<le> len
              \<and> (cp = UTF8_INVALID \<or> take_bit 21 cp = cp))"
proof -
  obtain n where n: "findNextGlyphLength a position (len - position) = Some n"
    "n = 0 \<longleftrightarrow> len - position = 0"
    "len - position > 0 \<Longrightarrow> n = -1 \<or> (n \<in> {1, 2, 3, 4} \<and> nat n \<le> len - position)"
    using find_safe [of position "len - position" a] assms by auto
  have one: "take_bit 21 (ucast (w :: u8) :: u32) = ucast w" for w
    by (rule bit_word_eqI) (auto simp: bit_simps dest: bit_imp_le_length)
  consider (eof) "position = len" | (bad) "position < len" "n = -1" | (one) "position < len" "n = 1"
    | (more) "position < len" "nat n \<in> {2, 3, 4}" "nat n \<le> len - position" "n > 1"
    using n assms by force
  then show ?thesis
  proof cases
    case more
    let ?h = "ucast (byte (a ! position) AND drop_bit (nat n + 1) 0xFF) :: u32"
    have "\<forall>i \<in> set [1..<nat n]. position + i < length a"
      using more assms by auto
    then obtain cp where cp: "fetch_continuation a position [1..<nat n] ?h = Some cp"
      "take_bit (7 - nat n + 6 * length [1..<nat n]) cp = cp"
      using fetch_continuation_safe [OF _ header_fits [OF more(2)], of "[1..<nat n]" position a "byte (a ! position)"]
      by auto
    have "7 - nat n + 6 * length [1..<nat n] \<le> 21"
      using more by auto
    then have "take_bit 21 cp = cp"
      using cp(2) by (metis min.absorb2 take_bit_take_bit)
    with more n assms cp(1) take_bit_21 [of cp] show ?thesis
      by (simp add: fetch_next_codepoint_def)
  qed (use n assms one take_bit_21 in \<open>auto simp: fetch_next_codepoint_def\<close>)
qed

text \<open>C16: Fetching the next code point never reads outside the buffer, whatever the bytes
  are; it reports the end exactly at the end, and otherwise moves forward within the buffer and
  yields the invalid marker or a value of at most 21 bits.\<close>

theorem fetch_safe:
  assumes "len \<le> length a" "position \<le> len"
  shows "\<exists>cp position'. fetch_next_codepoint a position len = Some (cp, position') \<and>
           (cp = UTF8_EOF \<longleftrightarrow> position = len) \<and>
           (position < len \<longrightarrow> position < position' \<and> position' \<le> len
              \<and> (cp = UTF8_INVALID \<or> take_bit 21 cp = cp))"
  by (rule fetch_next_safe [OF assms])

section \<open>What a buffer decodes to\<close>

text \<open>The code points \<open>normalize_string\<close> goes through: the invalid glyphs are left out.\<close>

function codepoints :: "buf \<Rightarrow> nat \<Rightarrow> nat \<Rightarrow> u32 list" where
  "codepoints a len position =
     (case fetch_next_codepoint a position len of
        None \<Rightarrow> []
      | Some (cp, position') \<Rightarrow>
          if cp = UTF8_EOF \<or> \<not> (position < position' \<and> position' \<le> len) then []
          else if cp = UTF8_INVALID then codepoints a len position'
          else cp # codepoints a len position')"
  by pat_completeness auto
termination
  by (relation "measure (\<lambda>(a, len, position). len - position)") auto

declare codepoints.simps [simp del]

lemma codepoints_encoded:
  "list_all (\<lambda>cp. cp \<le> UTF8_MAX_CODEPOINT) cps \<Longrightarrow>
   codepoints (pre @ concat (map codepoint_to_bytes cps) @ suf)
     (length (pre @ concat (map codepoint_to_bytes cps))) (length pre) = cps"
proof (induction cps arbitrary: pre)
  case Nil
  show ?case
    by (subst codepoints.simps) (simp add: fetch_next_codepoint_def findNextGlyphLength_def)
next
  case (Cons cp cps)
  let ?xs = "pre @ concat (map codepoint_to_bytes (cp # cps))"
  have cp: "cp \<le> UTF8_MAX_CODEPOINT" "cp \<noteq> UTF8_EOF" "cp \<noteq> UTF8_INVALID"
    using Cons.prems by auto
  moreover have "fetch_next_codepoint (?xs @ suf) (length pre) (length ?xs)
      = Some (cp, length pre + length (codepoint_to_bytes cp))"
    by (rule fetch_next_encoded [OF cp(1), where suf = "concat (map codepoint_to_bytes cps) @ suf"]) simp_all
  moreover have "length (codepoint_to_bytes cp) > 0"
    using cp(1) by (auto simp: codepoint_to_bytes_def not_less)
  ultimately show ?case
    using Cons.IH [of "pre @ codepoint_to_bytes cp"] Cons.prems
    by (subst codepoints.simps) simp
qed

text \<open>The code point whose encoding \<open>write_codepoint\<close> stores, given room for it.\<close>

definition storable :: "u32 \<Rightarrow> u32" where
  "storable cp = (if cp = 0 \<or> (cp \<ge> 0xd800 \<and> cp \<le> 0xdfff) \<or> cp > 0x10ffff then 0xFFFD else cp)"

lemma replacement_is_FFFD: "replacement_bytes = codepoint_to_bytes 0xFFFD"
  by code_simp

lemma write_codepoint_storable: "2 < n \<Longrightarrow> write_codepoint cp n = codepoint_to_bytes (storable cp)"
  by (auto simp: write_codepoint_def storable_def replacement_is_FFFD)

lemma storable_le: "storable cp \<le> UTF8_MAX_CODEPOINT"
  by (auto simp: storable_def)

lemma length_write_codepoint: "length (write_codepoint cp n) \<le> 4"
  by (auto simp: write_codepoint_def replacement_bytes_def codepoint_to_bytes_def)

section \<open>Normalisation keeps every byte and terminates\<close>

text \<open>What a code point contributes to the normalised string.\<close>

definition normalized_codepoints :: "utf8proc \<Rightarrow> u32 \<Rightarrow> u32 list" where
  "normalized_codepoints lib cp =
     (case normalize_codepoint lib cp INFLIGHT_BUFFER_SIZE of (n, ds) \<Rightarrow>
        if n > INFLIGHT_BUFFER_SIZE then [] else map storable (take n ds))"

lemma normalized_le: "d \<in> set (normalized_codepoints lib cp) \<Longrightarrow> d \<le> UTF8_MAX_CODEPOINT"
  by (cases "normalize_codepoint lib cp INFLIGHT_BUFFER_SIZE")
    (auto simp: normalized_codepoints_def storable_le split: if_splits)

lemma scratch_write_bytes:
  assumes "alloc (fst (snd sp))" "length bytes \<le> fst (snd sp)"
  shows "\<exists>sp'. scratch_write alloc sp bytes = Some sp' \<and> fst (snd sp') = fst (snd sp) \<and>
    scratch_bytes sp' = scratch_bytes sp @ bytes"
  using assms by (cases sp; cases "snd sp") (auto simp: scratch_write_def scratch_bytes_def)

lemma scratch_write_all_bytes:
  assumes "alloc (fst (snd sp))" "4 \<le> fst (snd sp)"
  shows "\<exists>sp'. scratch_write_all alloc sp ds = Some sp' \<and> fst (snd sp') = fst (snd sp) \<and>
    scratch_bytes sp' = scratch_bytes sp @ concat (map codepoint_to_bytes (map storable ds))"
  using assms
proof (induction ds arbitrary: sp)
  case Nil
  then show ?case by simp
next
  case (Cons d ds)
  have "length (write_codepoint d 4) \<le> fst (snd sp)"
    using Cons.prems length_write_codepoint [of d 4] by simp
  then obtain sp' where
    "scratch_write alloc sp (write_codepoint d 4) = Some sp'" "fst (snd sp') = fst (snd sp)"
    "scratch_bytes sp' = scratch_bytes sp @ write_codepoint d 4"
    using scratch_write_bytes [of alloc sp "write_codepoint d 4"] Cons.prems by blast
  with Cons.IH [of sp'] Cons.prems show ?case
    by (auto simp: write_codepoint_storable)
qed

lemma normalize_loop_total:
  assumes "len \<le> length a" "position \<le> len" "alloc (fst (snd sp))" "4 \<le> fst (snd sp)"
  shows "\<exists>sp'. normalize_loop alloc lib a len position sp = Some sp' \<and>
    scratch_bytes sp' = scratch_bytes sp @
      concat (map codepoint_to_bytes (concat (map (normalized_codepoints lib) (codepoints a len position))))"
  using assms
proof (induction "len - position" arbitrary: position sp rule: less_induct)
  case less
  obtain cp p where f: "fetch_next_codepoint a position len = Some (cp, p)"
    "cp = UTF8_EOF \<longleftrightarrow> position = len" "position < len \<longrightarrow> position < p \<and> p \<le> len"
    using fetch_next_safe [OF less.prems(1,2)] by blast
  show ?case
  proof (cases "position = len")
    case True
    with f show ?thesis
      by (subst normalize_loop.simps, subst codepoints.simps) simp
  next
    case False
    then have p: "position < p" "p \<le> len" "cp \<noteq> UTF8_EOF" "len - p < len - position"
      using f less.prems by auto
    obtain n ds where n: "normalize_codepoint lib cp INFLIGHT_BUFFER_SIZE = (n, ds)"
      by (cases "normalize_codepoint lib cp INFLIGHT_BUFFER_SIZE") auto
    obtain sp1 where sp1: "scratch_write_all alloc sp (take n ds) = Some sp1" "fst (snd sp1) = fst (snd sp)"
      "scratch_bytes sp1 = scratch_bytes sp @ concat (map codepoint_to_bytes (map storable (take n ds)))"
      using scratch_write_all_bytes [of alloc sp "take n ds"] less.prems by blast
    note IH = less.hyps [OF p(4) less.prems(1) p(2)]
    from IH [of sp] IH [of sp1] f(1) p n sp1 less.prems(3,4) show ?thesis
      by (subst normalize_loop.simps, subst codepoints.simps)
        (auto simp: normalized_codepoints_def)
  qed
qed

lemma normalize_string_total:
  assumes "bufferLength \<le> length a" "\<forall>n. alloc n"
  shows "\<exists>b n. normalize_string alloc lib a bufferLength = Some (True, b, n) \<and> n \<le> length b \<and>
    codepoints b n 0 = concat (map (normalized_codepoints lib) (codepoints a bufferLength 0)) \<and>
    take n b = concat (map codepoint_to_bytes (codepoints b n 0))"
proof -
  let ?cap = "if bufferLength > 1024 then bufferLength else 1024"
  let ?cps = "concat (map (normalized_codepoints lib) (codepoints a bufferLength 0))"
  let ?out = "concat (map codepoint_to_bytes ?cps)"
  have "4 \<le> ?cap"
    by simp
  then obtain sp where sp: "normalize_loop alloc lib a bufferLength 0 ([], (?cap, [])) = Some sp"
    "scratch_bytes sp = ?out"
    using normalize_loop_total [of bufferLength a 0 alloc "([], (?cap, []))" lib] assms
    unfolding scratch_bytes_def fst_conv snd_conv by (force simp: scratch_bytes_def)
  have "list_all (\<lambda>cp. cp \<le> UTF8_MAX_CODEPOINT) ?cps"
    using normalized_le by (simp add: list_all_iff)
  from codepoints_encoded [OF this, of "[]"]
  have decode: "codepoints (?out @ suf) (length ?out) 0 = ?cps" for suf
    by simp
  consider (one) "fst sp = []" "snd (snd sp) = ?out"
    | (many) "fst sp \<noteq> []"
    using sp(2) by (cases "fst sp") (auto simp: scratch_bytes_def)
  then show ?thesis
  proof cases
    case one
    with assms sp decode [of "[]"] show ?thesis
      by (simp add: normalize_string_def Let_def)
  next
    case many
    show ?thesis
    proof (cases "length ?out > bufferLength")
      case True
      with many assms sp decode [of "[]"] show ?thesis
        by (simp add: normalize_string_def Let_def)
    next
      case False
      then have "wrs a 0 ?out = Some (?out @ drop (length ?out) a)"
        using assms wrs_in [of 0 ?out a] by simp
      with False many assms sp decode [of "drop (length ?out) a"] show ?thesis
        by (simp add: normalize_string_def Let_def)
    qed
  qed
qed


section \<open>Concrete inputs\<close>

definition plain_lib :: utf8proc where
  "plain_lib = \<lparr> decompose_char = (\<lambda>cp n. (1, [cp])), get_category = (\<lambda>cp. 0),
     has_casefold = (\<lambda>cp. False), cp_toupper = (\<lambda>cp. cp), cp_tolower = (\<lambda>cp. cp) \<rparr>"

theorem fetch_encoded_witness:
  "fetch_next_codepoint (''x'' @ [CHR 0xE2, CHR 0x82, CHR 0xAC] @ ''y'') 1 5 = Some (0x20AC, 4)"
proof -
  have e: "codepoint_to_bytes 0x20AC = [CHR 0xE2, CHR 0x82, CHR 0xAC]"
    by code_simp
  have "fetch_next_codepoint (''x'' @ codepoint_to_bytes 0x20AC @ ''y'') (length ''x'') 5
      = Some (0x20AC, length ''x'' + length (codepoint_to_bytes 0x20AC))"
    by (rule fetch_encoded [OF _ refl]) (simp_all add: e)
  then show ?thesis
    by (simp add: e)
qed

theorem fetch_safe_witness:
  "\<exists>cp p. fetch_next_codepoint [CHR 0xE2, CHR 0x82] 0 2 = Some (cp, p) \<and> 0 < p"
  using fetch_safe [of 2 "[CHR 0xE2, CHR 0x82]" 0] by auto


end
