(* ===== verification/Xf_Core.thy ===== *)
theory Xf_Core
  imports Objects
begin

text \<open>
  What the string transformers of \<open>src/PWTransformer.cpp\<close> share: \<open>runTransform\<close>, the tail that
  terminates a shortened string, the postcondition of a loop that outputs a buffer in place, and
  the contract of a transformer as a locale.

  A transformer is the lambda of the code: it gets the array, the length and \<open>readOnly\<close> and
  returns its answer with the array and the length it leaves.
\<close>

type_synonym xform = "buf \<Rightarrow> nat \<Rightarrow> bool \<Rightarrow> (bool \<times> buf \<times> nat) option"

definition runTransform :: "xform \<Rightarrow> ddwaf_object \<Rightarrow> bool \<Rightarrow> (bool \<times> ddwaf_object) option" where
  "runTransform transformer parameter readOnly =
     (case payload parameter of
        Str (Some array) n \<Rightarrow> do {
          (success, array', newLength) \<leftarrow> transformer array n readOnly;
          Some (success, Obj (parameterName parameter)
                  (Str (Some array') (if readOnly then n else newLength))) }
      | _ \<Rightarrow> Some (False, parameter))"

text \<open>\<open>if (write < length) { array[write] = 0; length = write; }\<close>\<close>

definition finish :: "nat \<Rightarrow> buf \<Rightarrow> nat \<Rightarrow> (buf \<times> nat) option" where
  "finish len a w = (if w < len then do { a' \<leftarrow> wr a w NUL; Some (a', w) } else Some (a, len))"

section \<open>Rewriting in place\<close>

text \<open>
  \<open>outputs res a w out\<close>: a loop started on \<open>a\<close> with the write head at \<open>w\<close> ends with \<open>out\<close>
  written from \<open>w\<close> on, inside the buffer; nothing is said of the bytes after it.
\<close>

definition outputs :: "(buf \<times> nat) option \<Rightarrow> buf \<Rightarrow> nat \<Rightarrow> char list \<Rightarrow> bool" where
  "outputs res a w out \<longleftrightarrow> w + length out \<le> length a \<and>
     (\<exists>a'. res = Some (a', w + length out) \<and> length a' = length a \<and>
        take (w + length out) a' = take w a @ out)"

lemma outputs_done: "w \<le> length a \<Longrightarrow> outputs (Some (a, w)) a w []"
  by (simp add: outputs_def)

lemma outputs_write:
  "w < length a \<Longrightarrow> outputs res (a[w := c]) (Suc w) out \<Longrightarrow> outputs res a w (c # out)"
  by (auto simp: outputs_def)

lemma outputs_writes:
  assumes "wrs a w cs = Some b" "outputs res b (w + length cs) out"
  shows "outputs res a w (cs @ out)"
  using assms take_wrs [OF assms(1)] by (auto simp: outputs_def add.assoc)

text \<open>The tail of the transformers after such a loop, and what it leaves.\<close>

definition finished :: "nat \<Rightarrow> (buf \<times> nat) option \<Rightarrow> (bool \<times> buf \<times> nat) option" where
  "finished len res = do { (a, w) \<leftarrow> res; (a', n) \<leftarrow> finish len a w; Some (True, a', n) }"

lemma finished_outputs:
  assumes "outputs res a w out" "w + length out \<le> n" "n \<le> length a"
  shows "\<exists>a'. finished n res = Some (True, a', w + length out) \<and> length a' = length a \<and>
    take (w + length out) a' = take w a @ out"
  using assms by (auto simp: outputs_def finished_def finish_def)

section \<open>The contract of a transformer\<close>

text \<open>
  The header \<open>PWTransformer.h\<close> states what the rest of the library relies on: a call with
  \<open>readOnly\<close> only answers whether the transformation has something to do. So: the mutable
  call is memory safe and leaves \<open>spec\<close> of the string; the read-only call is memory safe, leaves
  the buffer alone and answers \<open>needs\<close>; and when it answers false the transformation would not
  have changed the string.
\<close>

locale transformer =
  fixes T :: xform and spec :: "char list \<Rightarrow> char list" and needs :: "char list \<Rightarrow> bool"
  assumes mutate: "n \<le> length a \<Longrightarrow>
      \<exists>ok a' n'. T a n False = Some (ok, a', n') \<and> n' \<le> length a' \<and> take n' a' = spec (take n a)"
    and probe: "n \<le> length a \<Longrightarrow> T a n True = Some (needs (take n a), a, n)"
    and sound: "\<not> needs s \<Longrightarrow> spec s = s"

text \<open>What a string object holds; other objects hold no string.\<close>

definition contents :: "ddwaf_object \<Rightarrow> char list option" where
  "contents ob = (case payload ob of Str (Some a) n \<Rightarrow> Some (take n a) | _ \<Rightarrow> None)"

context transformer
begin

lemma run_mutate:
  assumes "wf_object ob"
  shows "\<exists>ok ob'. runTransform T ob False = Some (ok, ob') \<and> wf_object ob' \<and>
    contents ob' = map_option spec (contents ob) \<and> parameterName ob' = parameterName ob"
proof (cases "\<exists>a n. payload ob = Str (Some a) n")
  case True
  then obtain k a n where ob: "ob = Obj k (Str (Some a) n)"
    by (cases ob) auto
  with assms have "n \<le> length a"
    by (simp add: wf_string)
  from mutate [OF this] ob show ?thesis
    by (auto simp: runTransform_def contents_def wf_string)
next
  case False
  with assms show ?thesis
    by (auto simp: runTransform_def contents_def split: obj_value.splits option.splits)
qed

lemma run_probe:
  assumes "wf_object ob"
  shows "\<exists>b. runTransform T ob True = Some (b, ob) \<and>
    (\<not> b \<longrightarrow> map_option spec (contents ob) = contents ob)"
proof (cases "\<exists>a n. payload ob = Str (Some a) n")
  case True
  then obtain k a n where ob: "ob = Obj k (Str (Some a) n)"
    by (cases ob) auto
  with assms have "n \<le> length a"
    by (simp add: wf_string)
  from probe [OF this] sound [of "take n a"] ob show ?thesis
    by (auto simp: runTransform_def contents_def)
next
  case False
  then show ?thesis
    by (auto simp: runTransform_def contents_def split: obj_value.splits option.splits)
qed

end

text \<open>Most transformers work inside the allocation they are given and never lengthen the string.\<close>

locale in_place_transformer = transformer +
  assumes in_place: "n \<le> length a \<Longrightarrow> T a n False = Some (ok, a', n') \<Longrightarrow>
      n' \<le> n \<and> length a' = length a"
begin

lemma spec_length: "length (spec s) \<le> length s"
proof -
  obtain ok a' n' where "T s (length s) False = Some (ok, a', n')" "n' \<le> length a'"
    "take n' a' = spec (take (length s) s)"
    using mutate [of "length s" s] by auto
  with in_place [of "length s" s ok a' n'] show ?thesis
    by (metis length_take min.absorb2 order.refl take_all_iff)
qed

end

text \<open>How the laws are discharged: the result of a call, as one predicate.\<close>

definition leaves :: "(bool \<times> buf \<times> nat) option \<Rightarrow> buf \<Rightarrow> nat \<Rightarrow> char list \<Rightarrow> bool" where
  "leaves res a n s \<longleftrightarrow> (\<exists>ok a'. res = Some (ok, a', length s) \<and> length a' = length a \<and>
     length s \<le> n \<and> take (length s) a' = s)"

lemma leaves_contract:
  assumes "\<And>a n. n \<le> length a \<Longrightarrow> leaves (T a n False) a n (spec (take n a))"
    and "\<And>a n. n \<le> length a \<Longrightarrow> T a n True = Some (needs (take n a), a, n)"
    and "\<And>s. \<not> needs s \<Longrightarrow> spec s = s"
  shows "in_place_transformer T spec needs"
proof
  fix a :: buf and n
  assume n: "n \<le> length a"
  show "\<exists>ok a' n'. T a n False = Some (ok, a', n') \<and> n' \<le> length a' \<and> take n' a' = spec (take n a)"
    using assms(1) [OF n] n unfolding leaves_def by fastforce
  show "T a n True = Some (needs (take n a), a, n)"
    by (rule assms(2) [OF n])
next
  fix a a' :: buf and n n' ok
  assume "n \<le> length a" "T a n False = Some (ok, a', n')"
  with assms(1) show "n' \<le> n \<and> length a' = length a"
    by (fastforce simp: leaves_def)
qed (rule assms(3))

lemma finished_leaves:
  assumes "outputs res a w out" "s = take w a @ out" "length s \<le> n" "n \<le> length a"
  shows "leaves (finished n res) a n s"
proof -
  have "length s = w + length out"
    using assms(1,2) by (auto simp: outputs_def)
  with finished_outputs [OF assms(1), of n] assms(2-4) show ?thesis
    by (auto simp: leaves_def)
qed

text \<open>What the first loop of a transformer, looking for a character, finds.\<close>

lemma scan_start:
  fixes a :: buf
  assumes "n \<le> length a"
  obtains k where "scan stop a n 0 = Some k" "k \<le> n"
    "take k a = takeWhile (\<lambda>c. \<not> stop c) (take n a)"
    "unread a k n = dropWhile (\<lambda>c. \<not> stop c) (take n a)"
    "k \<noteq> n \<longleftrightarrow> (\<exists>c \<in> set (take n a). stop c)"
proof (rule that [of "length (takeWhile (\<lambda>c. \<not> stop c) (take n a))"])
  let ?t = "takeWhile (\<lambda>c. \<not> stop c) (take n a)"
  show k: "length ?t \<le> n"
    using length_takeWhile_le [of "\<lambda>c. \<not> stop c" "take n a"] assms by simp
  have "take (length ?t) (take n a) = ?t"
    by (simp only: takeWhile_eq_take [symmetric])
  with k show "take (length ?t) a = ?t"
    by (simp only: take_take min.absorb1)
  show "unread a (length ?t) n = dropWhile (\<lambda>c. \<not> stop c) (take n a)"
    by (simp add: unread_def dropWhile_eq_drop)
  show "length ?t \<noteq> n \<longleftrightarrow> (\<exists>c \<in> set (take n a). stop c)"
    using length_takeWhile_eq_iff [of "\<lambda>c. \<not> stop c" "take n a"] assms by auto
qed (use assms in \<open>simp add: scan_correct\<close>)

end
