(* ===== verification/Xf_Steps.thy ===== *)
theory Xf_Steps
  imports Xf_Core
begin

text \<open>
  The decoders of \<open>src/PWTransformer.cpp\<close> have one shape: a first loop finds the first escape
  sequence, which is also the answer of the read-only call; the main loop, while there is
  something to read, consumes a few bytes at the read head and stores a few at the write head.

  \<open>body_loop\<close> is that main loop; its \<open>body\<close>, defined for each decoder from the code, reads
  the buffer and says which bytes one iteration stores and how many it consumes. Two locales
  capture what the decoders have in common: a \<open>step\<close> on lists agrees with the body, and the
  whole effect on the string is \<open>decode step\<close>.

  A step also sees the distance between the two heads: \<open>write_codepoint\<close> is given that room
  and stores the replacement character only when it fits.
\<close>

type_synonym body = "buf \<Rightarrow> nat \<Rightarrow> nat \<Rightarrow> nat \<Rightarrow> (char list \<times> nat) option"

text \<open>An iteration that consumed nothing would not end; it has no value here.\<close>

partial_function (option) body_loop :: "body \<Rightarrow> buf \<Rightarrow> nat \<Rightarrow> nat \<Rightarrow> nat \<Rightarrow> (buf \<times> nat) option" where
  "body_loop body a len read write =
     (if read < len
      then do {
        (out, k) \<leftarrow> body a len read write;
        a' \<leftarrow> wrs a write out;
        body_loop body a' len (read + k) (write + length out) }
      else Some (a, write))"

declare body_loop.simps [code]

text \<open>\<open>for (; read < length && !stop; ++read) {}\<close> where the test looks ahead.\<close>

partial_function (option) scan_at :: "(buf \<Rightarrow> nat \<Rightarrow> nat \<Rightarrow> bool option) \<Rightarrow> buf \<Rightarrow> nat \<Rightarrow> nat \<Rightarrow> nat option" where
  "scan_at stop a len read =
     (if read < len
      then do { b \<leftarrow> stop a len read; if b then Some read else scan_at stop a len (Suc read) }
      else Some read)"

declare scan_at.simps [code]

lemma scan_at_stop:
  "r < n \<Longrightarrow> stop a n r = Some b \<Longrightarrow>
   scan_at stop a n r = (if b then Some r else scan_at stop a n (Suc r))"
  by (subst scan_at.simps) simp

lemma scan_at_end: "n \<le> r \<Longrightarrow> scan_at stop a n r = Some r"
  by (subst scan_at.simps) simp

type_synonym step = "nat \<Rightarrow> char list \<Rightarrow> char list \<times> nat"

function decode :: "step \<Rightarrow> nat \<Rightarrow> char list \<Rightarrow> char list" where
  "decode step room s =
     (if s = [] then []
      else case step room s of (out, k) \<Rightarrow>
        out @ (if k = 0 then [] else decode step (room + k - length out) (drop k s)))"
  by pat_completeness auto
termination
  by (relation "measure (\<lambda>(step, room, s). length s)") auto

declare decode.simps [simp del]

lemma decode_Nil [simp]: "decode step room [] = []"
  by (simp add: decode.simps)

text \<open>
  Decoding a sequence of encodings: \<open>R c e\<close> says that \<open>e\<close> encodes \<open>c\<close>, which the decoder
  turns into \<open>out c\<close> whatever follows.
\<close>

lemma decode_encodings:
  assumes "list_all2 R s es"
    and "\<And>c e room rest. R c e \<Longrightarrow> e \<noteq> [] \<and> step room (e @ rest) = (out c, length e)"
  shows "decode step room (concat es) = concat (map out s)"
  using assms(1)
proof (induction arbitrary: room rule: list_all2_induct)
  case (Cons c s e es)
  with assms(2) [of c e room "concat es"] show ?case
    by (subst decode.simps) auto
qed simp

locale stepper =
  fixes body :: body and step :: step
  assumes progress: "s \<noteq> [] \<Longrightarrow> 0 < snd (step room s)"
    and fits: "s \<noteq> [] \<Longrightarrow> length (fst (step room s)) \<le> room + min (snd (step room s)) (length s)"
    and body_step: "w \<le> r \<Longrightarrow> r < n \<Longrightarrow> n \<le> length a \<Longrightarrow> body a n r w = Some (step (r - w) (unread a r n))"
begin

lemma loop_outputs:
  "w \<le> r \<Longrightarrow> w \<le> length a \<Longrightarrow> n \<le> length a \<Longrightarrow>
   outputs (body_loop body a n r w) a w (decode step (r - w) (unread a r n))"
proof (induction "n - r" arbitrary: a r w rule: less_induct)
  case less
  show ?case
  proof (cases "r < n")
    case True
    let ?s = "unread a r n"
    obtain out k where st: "step (r - w) ?s = (out, k)"
      by (cases "step (r - w) ?s") auto
    have ne: "?s \<noteq> []"
      using True less.prems unread_Cons [of r n a] by simp
    have k: "0 < k" and len: "length out \<le> (r - w) + min k (n - r)"
      using progress [OF ne, of "r - w"] fits [OF ne, of "r - w"] st less.prems by auto
    then have "w + length out \<le> n"
      using less.prems True by linarith
    then obtain b where b: "wrs a w out = Some b" "length b = length a"
      "\<And>q. w + length out \<le> q \<Longrightarrow> unread b q n = unread a q n"
      using wrs_ex [of w out a] less.prems by (metis order.trans)
    have "outputs (body_loop body b n (r + k) (w + length out)) b (w + length out)
        (decode step (r + k - (w + length out)) (unread b (r + k) n))"
      using less.hyps [of "r + k" "w + length out" b] k True len less.prems b \<open>w + length out \<le> n\<close>
      by linarith
    moreover have "unread b (r + k) n = drop k ?s"
      using b(3) [of "r + k"] len less.prems by (simp add: unread_drop)
    moreover have "r + k - (w + length out) = r - w + k - length out"
      using less.prems by simp
    moreover have "decode step (r - w) ?s = out @ decode step (r - w + k - length out) (drop k ?s)"
      using ne st k by (subst decode.simps) simp
    ultimately show ?thesis
      using body_step [OF less.prems(1) True less.prems(3)] st b(1) True
      by (subst body_loop.simps) (simp add: outputs_writes)
  next
    case False
    with less.prems show ?thesis
      by (subst body_loop.simps) (simp add: outputs_done)
  qed
qed

lemma length_decode: "length (decode step room s) \<le> room + length s"
proof (induction "length s" arbitrary: room s rule: less_induct)
  case less
  show ?case
  proof (cases "s = []")
    case False
    obtain out k where st: "step room s = (out, k)"
      by (cases "step room s") auto
    with progress [OF False, of room] fits [OF False, of room]
    have k: "0 < k" "length out \<le> room + min k (length s)"
      by auto
    with False have "length (decode step (room + k - length out) (drop k s))
        \<le> room + k - length out + length (drop k s)"
      by (intro less.hyps) simp
    with k have "length out + length (decode step (room + k - length out) (drop k s)) \<le> room + length s"
      by (cases "k \<le> length s") auto
    with False st k(1) show ?thesis
      by (subst decode.simps) simp
  qed simp
qed

end

text \<open>The first loop stops at the first position where \<open>stop\<close> holds of the rest of the string.\<close>

fun first_stop :: "(char list \<Rightarrow> bool) \<Rightarrow> char list \<Rightarrow> nat" where
  "first_stop stop [] = 0"
| "first_stop stop (c # cs) = (if stop (c # cs) then 0 else Suc (first_stop stop cs))"

lemma first_stop_le: "first_stop stop s \<le> length s"
  by (induction s) auto

locale scanner =
  fixes scan_loop :: "buf \<Rightarrow> nat \<Rightarrow> nat \<Rightarrow> nat option" and stop :: "char list \<Rightarrow> bool"
  assumes scan_end: "n \<le> r \<Longrightarrow> scan_loop a n r = Some r"
    and scan_step: "r < n \<Longrightarrow> n \<le> length a \<Longrightarrow>
      scan_loop a n r = (if stop (unread a r n) then Some r else scan_loop a n (Suc r))"
begin

lemma scan_loop_first_stop:
  "r \<le> n \<Longrightarrow> n \<le> length a \<Longrightarrow> scan_loop a n r = Some (r + first_stop stop (unread a r n))"
proof (induction "n - r" arbitrary: r rule: less_induct)
  case less
  show ?case
  proof (cases "r < n")
    case True
    with less.hyps [of "Suc r"] less.prems scan_step [OF True] show ?thesis
      by (auto simp: unread_Cons)
  qed (use less.prems in \<open>simp add: scan_end\<close>)
qed

end

text \<open>
  A transformer that skips to the first stop and decodes from there. \<open>answer\<close> is what the
  read-only call computes from the two positions.
\<close>

definition forwarded :: "step \<Rightarrow> (char list \<Rightarrow> bool) \<Rightarrow> char list \<Rightarrow> char list" where
  "forwarded step stop s =
     (let k = first_stop stop s in take k s @ decode step 0 (drop k s))"

locale forward_transformer = stepper + scanner +
  fixes T :: xform and answer :: "nat \<Rightarrow> nat \<Rightarrow> bool"
  assumes T_eq: "T a n readOnly = do {
      r \<leftarrow> scan_loop a n 0;
      if readOnly then Some (answer r n, a, n) else finished n (body_loop body a n r r) }"
    and answer_sound: "\<not> answer (first_stop stop s) (length s) \<Longrightarrow> first_stop stop s < length s \<Longrightarrow>
      forwarded step stop s = s"

sublocale forward_transformer \<subseteq> in_place_transformer T "forwarded step stop"
  "\<lambda>s. answer (first_stop stop s) (length s)"
proof (rule leaves_contract)
  fix a :: buf and n
  assume n: "n \<le> length a"
  let ?k = "first_stop stop (take n a)"
  have scan: "scan_loop a n 0 = Some ?k"
    using scan_loop_first_stop [of 0 n a] n by simp
  then show "T a n True = Some (answer ?k (length (take n a)), a, n)"
    using n by (simp add: T_eq)
  have k: "?k \<le> n"
    using first_stop_le [of stop "take n a"] n by simp
  have "take ?k (take n a) = take ?k a" "drop ?k (take n a) = unread a ?k n"
    using k by (simp_all add: unread_def min_def)
  then have f: "forwarded step stop (take n a) = take ?k a @ decode step 0 (unread a ?k n)"
    by (simp add: forwarded_def Let_def)
  have "length (decode step 0 (unread a ?k n)) \<le> n - ?k"
    using length_decode [of 0 "unread a ?k n"] n by simp
  then have "length (forwarded step stop (take n a)) \<le> n"
    using k n unfolding f by simp
  moreover have "outputs (body_loop body a n ?k ?k) a ?k (decode step 0 (unread a ?k n))"
    using loop_outputs [of ?k ?k a n] k n by simp
  ultimately show "leaves (T a n False) a n (forwarded step stop (take n a))"
    using finished_leaves n scan f by (simp add: T_eq)
next
  fix s
  assume "\<not> answer (first_stop stop s) (length s)"
  with answer_sound [OF this] first_stop_le [of stop s] show "forwarded step stop s = s"
    by (cases "first_stop stop s = length s") (simp_all add: forwarded_def Let_def)
qed

text \<open>When the decoder copies what is skipped, skipping does not matter.\<close>

locale scanning_stepper = stepper + scanner +
  assumes copies: "\<not> stop (c # cs) \<Longrightarrow> step 0 (c # cs) = ([c], 1)"
begin

lemma decode_prefix:
  "decode step 0 s = take (first_stop stop s) s @ decode step 0 (drop (first_stop stop s) s)"
proof (induction s)
  case (Cons c cs)
  show ?case
  proof (cases "stop (c # cs)")
    case False
    with Cons show ?thesis
      by (subst decode.simps) (simp add: copies)
  qed simp
qed simp

lemma forwarded_decode: "forwarded step stop s = decode step 0 s"
  using decode_prefix [of s] by (simp add: forwarded_def Let_def)

end

locale scan_transformer = scanning_stepper +
  fixes T :: xform and answer :: "nat \<Rightarrow> nat \<Rightarrow> bool"
  assumes T_eq: "T a n readOnly = do {
      r \<leftarrow> scan_loop a n 0;
      if readOnly then Some (answer r n, a, n) else finished n (body_loop body a n r r) }"
    and answer_sound: "\<not> answer (first_stop stop s) (length s) \<Longrightarrow> first_stop stop s < length s \<Longrightarrow>
      decode step 0 s = s"

sublocale scan_transformer \<subseteq> forward: forward_transformer body step scan_loop stop T answer
  by unfold_locales (use T_eq answer_sound forwarded_decode in auto)

sublocale scan_transformer \<subseteq> in_place_transformer T "decode step 0"
  "\<lambda>s. answer (first_stop stop s) (length s)"
proof -
  have "forwarded step stop = decode step 0"
    by (rule ext) (rule forwarded_decode)
  then show "in_place_transformer T (decode step 0) (\<lambda>s. answer (first_stop stop s) (length s))"
    using forward.in_place_transformer_axioms by simp
qed

end
