(* ===== verification/Xf_Basic.thy ===== *)
theory Xf_Basic
  imports Xf_Core
begin

text \<open>
  The four simplest transformers of \<open>src/PWTransformer.cpp\<close>: lower case, removal of null
  characters, compression of runs of spaces, and the replacement of a string by its length.
  Each string transformer has a specification on lists and interprets the contract.
\<close>

section \<open>Lower case\<close>

definition lower :: "char \<Rightarrow> char" where
  "lower c = (if is_upper c then to_char (byte c + 0x20) else c)"

function lower_loop :: "buf \<Rightarrow> nat \<Rightarrow> nat \<Rightarrow> buf option" where
  "lower_loop a len pos =
     (if pos < len
      then do {
        c \<leftarrow> rd a pos;
        a' \<leftarrow> (if is_upper c then wr a pos (to_char (byte c + 0x20)) else Some a);
        lower_loop a' len (Suc pos) }
      else Some a)"
  by pat_completeness auto
termination
  by (relation "measure (\<lambda>(a, len, pos). len - pos)") auto

declare lower_loop.simps [simp del]

definition transformLowerCase :: xform where
  "transformLowerCase a len readOnly = do {
     pos \<leftarrow> scan is_upper a len 0;
     if readOnly then Some (pos \<noteq> len, a, len)
     else do { a' \<leftarrow> lower_loop a len pos; Some (True, a', len) } }"

lemma lower_loop_correct:
  "pos \<le> n \<Longrightarrow> n \<le> length a \<Longrightarrow> \<exists>a'. lower_loop a n pos = Some a' \<and> length a' = length a \<and>
     take n a' = take pos a @ map lower (unread a pos n)"
proof (induction "n - pos" arbitrary: a pos rule: less_induct)
  case less
  show ?case
  proof (cases "pos < n")
    case True
    let ?a = "a[pos := lower (a ! pos)]"
    have "lower_loop a n pos = lower_loop ?a n (Suc pos)"
      using True less.prems by (subst lower_loop.simps) (simp add: lower_def)
    with less.hyps [of "Suc pos" ?a] True less.prems show ?thesis
      by (simp add: unread_Cons)
  next
    case False
    with less.prems show ?thesis
      by (subst lower_loop.simps) simp
  qed
qed

section \<open>Removal of null characters\<close>

function noNull_loop :: "buf \<Rightarrow> nat \<Rightarrow> nat \<Rightarrow> nat \<Rightarrow> (buf \<times> nat) option" where
  "noNull_loop a len read write =
     (if read < len
      then do {
        c \<leftarrow> rd a read;
        if c = NUL then noNull_loop a len (Suc read) write
        else do { a' \<leftarrow> wr a write c; noNull_loop a' len (Suc read) (Suc write) } }
      else Some (a, write))"
  by pat_completeness auto
termination
  by (relation "measure (\<lambda>(a, len, read, write). len - read)") auto

declare noNull_loop.simps [simp del]

definition transformNoNull :: xform where
  "transformNoNull a len readOnly = do {
     read \<leftarrow> scan (eqc NUL) a len 0;
     if readOnly then Some (read \<noteq> len, a, len)
     else finished len (noNull_loop a len read read) }"

lemma noNull_loop_correct:
  "w \<le> r \<Longrightarrow> r \<le> n \<Longrightarrow> n \<le> length a \<Longrightarrow>
   outputs (noNull_loop a n r w) a w (filter (\<lambda>c. c \<noteq> NUL) (unread a r n))"
proof (induction "n - r" arbitrary: a r w rule: less_induct)
  case less
  show ?case
  proof (cases "r < n")
    case True
    let ?c = "a ! r"
    have "unread (a[w := ?c]) (Suc r) n = unread a (Suc r) n"
      using less.prems by simp
    with less.hyps [of "Suc r" w a] less.hyps [of "Suc r" "Suc w" "a[w := ?c]"] True less.prems
    show ?thesis
      by (subst noNull_loop.simps) (auto simp: unread_Cons intro!: outputs_write)
  next
    case False
    with less.prems show ?thesis
      by (subst noNull_loop.simps) (simp add: outputs_done)
  qed
qed

text \<open>Both leave a string alone that has nothing to change.\<close>

interpretation lowercase: in_place_transformer transformLowerCase "map lower"
  "\<lambda>s. \<exists>c \<in> set s. is_upper c"
proof (rule leaves_contract)
  fix a :: buf and n
  assume n: "n \<le> length a"
  obtain k where k: "scan is_upper a n 0 = Some k" "k \<le> n"
    "take k a = takeWhile (\<lambda>c. \<not> is_upper c) (take n a)"
    "unread a k n = dropWhile (\<lambda>c. \<not> is_upper c) (take n a)"
    "k \<noteq> n \<longleftrightarrow> (\<exists>c \<in> set (take n a). is_upper c)"
    using scan_start [OF n] .
  then show "transformLowerCase a n True = Some (\<exists>c \<in> set (take n a). is_upper c, a, n)"
    by (simp add: transformLowerCase_def)
  have low: "takeWhile (\<lambda>c. \<not> is_upper c) xs @ map lower (dropWhile (\<lambda>c. \<not> is_upper c) xs) = map lower xs" for xs
    by (induction xs) (auto simp: lower_def)
  obtain a' where "lower_loop a n k = Some a'" "length a' = length a" "take n a' = map lower (take n a)"
    using lower_loop_correct [OF k(2) n] k(3,4) low [of "take n a"] by auto
  with k(1) n show "leaves (transformLowerCase a n False) a n (map lower (take n a))"
    by (simp add: transformLowerCase_def leaves_def ex_bool_eq)
next
  show "map lower s = s" if "\<not> (\<exists>c \<in> set s. is_upper c)" for s
    using that by (induction s) (auto simp: lower_def)
qed

interpretation nonull: in_place_transformer transformNoNull "filter (\<lambda>c. c \<noteq> NUL)"
  "\<lambda>s. \<exists>c \<in> set s. c = NUL"
proof (rule leaves_contract)
  fix a :: buf and n
  assume n: "n \<le> length a"
  obtain k where k: "scan (eqc NUL) a n 0 = Some k" "k \<le> n"
    "take k a = takeWhile (\<lambda>c. c \<noteq> NUL) (take n a)"
    "unread a k n = dropWhile (\<lambda>c. c \<noteq> NUL) (take n a)"
    "k \<noteq> n \<longleftrightarrow> (\<exists>c \<in> set (take n a). c = NUL)"
    using scan_start [OF n] .
  then show "transformNoNull a n True = Some (\<exists>c \<in> set (take n a). c = NUL, a, n)"
    by (simp add: transformNoNull_def)
  have split: "filter (\<lambda>c. c \<noteq> NUL) xs = takeWhile (\<lambda>c. c \<noteq> NUL) xs
      @ filter (\<lambda>c. c \<noteq> NUL) (dropWhile (\<lambda>c. c \<noteq> NUL) xs)" for xs
    by (induction xs) auto
  have "length (filter (\<lambda>c. c \<noteq> NUL) (take n a)) \<le> n"
    using length_filter_le [of "\<lambda>c. c \<noteq> NUL" "take n a"] n by simp
  moreover have "filter (\<lambda>c. c \<noteq> NUL) (take n a)
      = take k a @ filter (\<lambda>c. c \<noteq> NUL) (unread a k n)"
    using k split [of "take n a"] by simp
  ultimately show "leaves (transformNoNull a n False) a n (filter (\<lambda>c. c \<noteq> NUL) (take n a))"
    using finished_leaves [OF noNull_loop_correct [OF order.refl k(2) n], of _ n] n k(1)
    by (simp add: transformNoNull_def)
next
  show "filter (\<lambda>c. c \<noteq> NUL) s = s" if "\<not> (\<exists>c \<in> set s. c = NUL)" for s
    using that by (induction s) auto
qed

section \<open>Compression of white space\<close>

function scan_pair :: "buf \<Rightarrow> nat \<Rightarrow> nat \<Rightarrow> nat option" where
  "scan_pair a len read =
     (if read < len
      then do {
        pair \<leftarrow> chk a [(read, eqc (CHR '' '')), (read - 1, eqc (CHR '' ''))];
        if pair then Some read else scan_pair a len (Suc read) }
      else Some read)"
  by pat_completeness auto
termination
  by (relation "measure (\<lambda>(a, len, read). len - read)") auto

function compressWhite_loop :: "buf \<Rightarrow> nat \<Rightarrow> nat \<Rightarrow> nat \<Rightarrow> (buf \<times> nat) option" where
  "compressWhite_loop a len read write =
     (if read < len
      then do {
        pair \<leftarrow> chk a [(read, eqc (CHR '' '')), (read - 1, eqc (CHR '' ''))];
        read' \<leftarrow> (if pair then scan (\<lambda>c. c \<noteq> CHR '' '') a len (Suc read) else Some read);
        if pair \<and> read' = len then Some (a, write)
        else do {
          c \<leftarrow> rd a read';
          a' \<leftarrow> wr a write c;
          compressWhite_loop a' len (Suc read') (Suc write) } }
      else Some (a, write))"
  by pat_completeness auto
termination
  by (relation "measure (\<lambda>(a, len, read, write). len - read)")
    (auto dest!: scan_ge split: if_splits)

declare scan_pair.simps [simp del] compressWhite_loop.simps [simp del]

definition transformCompressWhiteSpace :: xform where
  "transformCompressWhiteSpace a len readOnly = do {
     read \<leftarrow> scan_pair a len 1;
     if readOnly then Some (read < len, a, len)
     else finished len (compressWhite_loop a len read read) }"

text \<open>\<open>squeeze b\<close> drops every space that follows a space; \<open>b\<close> says whether one precedes.\<close>

fun squeeze :: "bool \<Rightarrow> char list \<Rightarrow> char list" where
  "squeeze b [] = []"
| "squeeze b (c # cs) =
     (if b \<and> c = CHR '' '' then squeeze True cs else c # squeeze (c = CHR '' '') cs)"

fun single_spaced :: "bool \<Rightarrow> char list \<Rightarrow> nat" where
  "single_spaced b [] = 0"
| "single_spaced b (c # cs) =
     (if b \<and> c = CHR '' '' then 0 else Suc (single_spaced (c = CHR '' '') cs))"

lemma single_spaced_le: "single_spaced b s \<le> length s"
  by (induction b s rule: single_spaced.induct) auto

text \<open>Whether a space precedes position \<open>k\<close>.\<close>

definition spaced_at :: "bool \<Rightarrow> char list \<Rightarrow> nat \<Rightarrow> bool" where
  "spaced_at b s k = (case k of 0 \<Rightarrow> b | Suc j \<Rightarrow> s ! j = CHR '' '')"

lemma squeeze_prefix:
  "take (single_spaced b s) s @ squeeze (spaced_at b s (single_spaced b s)) (drop (single_spaced b s) s)
     = squeeze b s"
proof (induction b s rule: single_spaced.induct)
  case (2 b c cs)
  have "spaced_at b (c # cs) (Suc k) = spaced_at (c = CHR '' '') cs k" for k
    by (cases k) (simp_all add: spaced_at_def)
  note shift = this
  show ?case
  proof (cases "b \<and> c = CHR '' ''")
    case False
    from "2" [OF False] show ?thesis
      by (simp only: False single_spaced.simps squeeze.simps shift if_False take_Suc_Cons
          drop_Suc_Cons append.simps)
  qed (simp add: spaced_at_def)
qed (simp add: spaced_at_def)

lemma squeeze_skip: "squeeze True s = squeeze True (dropWhile (\<lambda>c. c = CHR '' '') s)"
  by (induction s) auto

lemma length_squeeze: "length (squeeze b s) \<le> length s"
  by (induction b s rule: squeeze.induct) auto

lemma scan_pair_correct:
  "0 < r \<Longrightarrow> n \<le> length a \<Longrightarrow>
   scan_pair a n r = Some (r + single_spaced (a ! (r - 1) = CHR '' '') (unread a r n))"
proof (induction "n - r" arbitrary: r rule: less_induct)
  case less
  show ?case
  proof (cases "r < n")
    case True
    then have "chk a [(r, eqc (CHR '' '')), (r - 1, eqc (CHR '' ''))]
        = Some (a ! r = CHR '' '' \<and> a ! (r - 1) = CHR '' '')"
      using less.prems by simp
    with less.hyps [of "Suc r"] True less.prems show ?thesis
      by (subst scan_pair.simps) (simp add: unread_Cons)
  next
    case False
    then show ?thesis
      by (subst scan_pair.simps) simp
  qed
qed

lemma scan_spaces:
  "n \<le> length a \<Longrightarrow> r \<le> n \<Longrightarrow>
   \<exists>q. scan (\<lambda>c. c \<noteq> CHR '' '') a n r = Some q \<and> r \<le> q \<and> q \<le> n \<and>
     unread a q n = dropWhile (\<lambda>c. c = CHR '' '') (unread a r n)"
  using length_takeWhile_le [of "\<lambda>c. c = CHR '' ''" "unread a r n"]
  by (auto simp: scan_correct dropWhile_eq_drop unread_drop)

lemma compressWhite_loop_correct:
  "w \<le> r \<Longrightarrow> 0 < r \<Longrightarrow> r \<le> n \<Longrightarrow> n \<le> length a \<Longrightarrow>
   outputs (compressWhite_loop a n r w) a w (squeeze (a ! (r - 1) = CHR '' '') (unread a r n))"
proof (induction "n - r" arbitrary: a r w rule: less_induct)
  case less
  let ?sp = "CHR '' ''"
  have step: "outputs (do { c \<leftarrow> rd a q; a' \<leftarrow> wr a w c; compressWhite_loop a' n (Suc q) (Suc w) }) a w
      (a ! q # squeeze (a ! q = ?sp) (unread a (Suc q) n))"
    if "r \<le> q" "q < n" for q
  proof -
    have "a[w := a ! q] ! q = a ! q"
      using that less.prems by (cases "w = q") auto
    with less.hyps [of "Suc q" "Suc w" "a[w := a ! q]"] that less.prems show ?thesis
      by (auto intro!: outputs_write)
  qed
  show ?case
  proof (cases "r < n")
    case True
    let ?pair = "a ! r = ?sp \<and> a ! (r - 1) = ?sp"
    have pair: "chk a [(r, eqc ?sp), (r - 1, eqc ?sp)] = Some ?pair"
      using True less.prems by simp
    show ?thesis
    proof (cases ?pair)
      case False
      with step [of r] True less.prems pair show ?thesis
        by (subst compressWhite_loop.simps) (auto simp: unread_Cons)
    next
      case two: True
      obtain q where q: "scan (\<lambda>c. c \<noteq> ?sp) a n (Suc r) = Some q" "Suc r \<le> q" "q \<le> n"
        "unread a q n = dropWhile (\<lambda>c. c = ?sp) (unread a (Suc r) n)"
        using scan_spaces [of n a "Suc r"] True less.prems by auto
      have out: "squeeze (a ! (r - 1) = ?sp) (unread a r n) = squeeze True (unread a q n)"
        using two True less.prems q(4) squeeze_skip [of "unread a (Suc r) n"]
        by (simp add: unread_Cons)
      show ?thesis
      proof (cases "q = n")
        case True
        with pair two q out less.prems \<open>r < n\<close> show ?thesis
          by (subst compressWhite_loop.simps) (simp add: outputs_done)
      next
        case False
        then have "q < n"
          using q by simp
        moreover from this have "unread a q n = a ! q # unread a (Suc q) n"
          using less.prems unread_Cons by simp
        then have "a ! q \<noteq> ?sp"
          using hd_dropWhile [of "\<lambda>c. c = ?sp" "unread a (Suc r) n"] unfolding q(4) [symmetric] by simp
        ultimately have "outputs (do { c \<leftarrow> rd a q; a' \<leftarrow> wr a w c; compressWhite_loop a' n (Suc q) (Suc w) }) a w
            (squeeze True (unread a q n))"
          using step [of q] q(2) less.prems unread_Cons [of q n a] by simp
        moreover have "compressWhite_loop a n r w
            = do { c \<leftarrow> rd a q; a' \<leftarrow> wr a w c; compressWhite_loop a' n (Suc q) (Suc w) }"
          using \<open>r < n\<close> pair two q(1) False
          by (subst compressWhite_loop.simps) (simp only: if_True bind.bind_lunit simp_thms if_False)
        ultimately show ?thesis
          by (simp only: out)
      qed
    qed
  next
    case False
    with less.prems show ?thesis
      by (subst compressWhite_loop.simps) (simp add: outputs_done)
  qed
qed

lemma squeeze_scan:
  fixes a :: buf
  assumes n: "n \<le> length a"
  obtains r where "scan_pair a n 1 = Some r" "r < n \<longleftrightarrow> single_spaced False (take n a) < length (take n a)"
    "n = 0 \<and> r = 1 \<or> 0 < r \<and> r \<le> n"
    "squeeze False (take n a) = take r (take n a) @ squeeze (a ! (r - 1) = CHR '' '') (unread a r n)"
proof (cases "n = 0")
  case True
  have "scan_pair a n 1 = Some 1"
    using True by (subst scan_pair.simps) simp
  from that [OF this] True show ?thesis
    by simp
next
  case False
  let ?s = "take n a" and ?k = "single_spaced (a ! 0 = CHR '' '') (unread a 1 n)"
  have s: "?s = a ! 0 # unread a 1 n"
    using False n unread_Cons [of 0 n a] by simp
  then have k: "single_spaced False ?s = Suc ?k"
    by simp
  have "squeeze False ?s = take (Suc ?k) ?s @ squeeze (spaced_at False ?s (Suc ?k)) (drop (Suc ?k) ?s)"
    using squeeze_prefix [of False ?s, unfolded k] by (rule sym)
  moreover have le: "Suc ?k \<le> n"
    using single_spaced_le [of "a ! 0 = CHR '' ''" "unread a 1 n"] False n by simp
  then have "spaced_at False ?s (Suc ?k) \<longleftrightarrow> a ! ?k = CHR '' ''"
    by (simp add: spaced_at_def)
  ultimately have "squeeze False ?s
      = take (Suc ?k) ?s @ squeeze (a ! (Suc ?k - 1) = CHR '' '') (unread a (Suc ?k) n)"
    by (simp only: unread_def diff_Suc_1)
  moreover have "scan_pair a n 1 = Some (Suc ?k)"
    using scan_pair_correct [of 1 n a] n by simp
  moreover have "Suc ?k < n \<longleftrightarrow> single_spaced False ?s < length ?s"
    using k n by simp
  ultimately show ?thesis
    using that [of "Suc ?k"] le by blast
qed

interpretation compress: in_place_transformer transformCompressWhiteSpace "squeeze False"
  "\<lambda>s. single_spaced False s < length s"
proof (rule leaves_contract)
  fix a :: buf and n
  assume n: "n \<le> length a"
  obtain r where r: "scan_pair a n 1 = Some r" "r < n \<longleftrightarrow> single_spaced False (take n a) < length (take n a)"
    "n = 0 \<and> r = 1 \<or> 0 < r \<and> r \<le> n"
    "squeeze False (take n a) = take r (take n a) @ squeeze (a ! (r - 1) = CHR '' '') (unread a r n)"
    using squeeze_scan [OF n] .
  then show "transformCompressWhiteSpace a n True
      = Some (single_spaced False (take n a) < length (take n a), a, n)"
    by (simp add: transformCompressWhiteSpace_def)
  show "leaves (transformCompressWhiteSpace a n False) a n (squeeze False (take n a))"
  proof (cases "n = 0")
    case True
    with r show ?thesis
      by (simp add: transformCompressWhiteSpace_def compressWhite_loop.simps finished_def finish_def leaves_def ex_bool_eq)
  next
    case False
    with r have le: "0 < r" "r \<le> n"
      by auto
    have "length (squeeze False (take n a)) \<le> n"
      using length_squeeze [of False "take n a"] n by simp
    moreover have "squeeze False (take n a)
        = take r a @ squeeze (a ! (r - 1) = CHR '' '') (unread a r n)"
      using r(4) le(2) by (simp only: take_take min.absorb1)
    ultimately show ?thesis
      using finished_leaves [OF compressWhite_loop_correct [OF order.refl le n], of _ n] n r(1)
      by (simp add: transformCompressWhiteSpace_def)
  qed
next
  show "squeeze False s = s" if "\<not> single_spaced False s < length s" for s
    using squeeze_prefix [of False s] single_spaced_le [of False s] that by simp
qed

section \<open>Length\<close>

definition transformLength :: "ddwaf_object \<Rightarrow> bool \<Rightarrow> bool \<times> ddwaf_object" where
  "transformLength parameter readOnly =
     (if obj_type parameter \<noteq> OBJ_STRING then (False, parameter)
      else if readOnly then (True, parameter)
      else (True, the (ddwaf_object_unsigned_force (ddwaf_object_free (Some parameter))
                         (of_nat (nbEntries parameter)))))"

end
