(* ===== verification/Xf_Decode.thy ===== *)
theory Xf_Decode
  imports Xf_Steps Utf8
begin

text \<open>
  The URL, CSS and JavaScript decoders of \<open>src/PWTransformer.cpp\<close>. For each: the body of its
  main loop, its first loop, the transformer, the step on lists, and the interpretation of the
  contract; then what the decoder does to the encodings of a string.
\<close>

section \<open>Hexadecimal digits\<close>

definition fromHex :: "char \<Rightarrow> u8" where
  "fromHex c = (if isdigit c then byte c - 0x30 else (byte c OR 0x20) - 0x61 + 0xA)"

text \<open>Two and four digits, as the decoders assemble them.\<close>

definition hex2 :: "char \<Rightarrow> char \<Rightarrow> char" where
  "hex2 h l = to_char (push_bit 4 (fromHex h) OR fromHex l)"

definition hex4 :: "char \<Rightarrow> char \<Rightarrow> char \<Rightarrow> char \<Rightarrow> u16" where
  "hex4 a b c d = push_bit 12 (ucast (fromHex a)) OR push_bit 8 (ucast (fromHex b))
     OR push_bit 4 (ucast (fromHex c)) OR ucast (fromHex d)"

section \<open>URL\<close>

text \<open>The two escape sequences: the tests after the percent sign.\<close>

definition url_hex :: "buf \<Rightarrow> nat \<Rightarrow> nat \<Rightarrow> bool option" where
  "url_hex a len read =
     (if read + 2 < len then chk a [(read + 1, isxdigit), (read + 2, isxdigit)] else Some False)"

definition url_wide :: "bool \<Rightarrow> buf \<Rightarrow> nat \<Rightarrow> nat \<Rightarrow> bool option" where
  "url_wide readIIS a len read =
     (if readIIS \<and> read + 5 < len
      then chk a [(read + 1, \<lambda>c. or20 c = CHR ''u''), (read + 2, isxdigit), (read + 3, isxdigit),
                  (read + 4, isxdigit), (read + 5, isxdigit)]
      else Some False)"

definition url_stop :: "bool \<Rightarrow> buf \<Rightarrow> nat \<Rightarrow> nat \<Rightarrow> bool option" where
  "url_stop readIIS a len read = do {
     c \<leftarrow> rd a read;
     if c = CHR ''+'' then Some True
     else if c \<noteq> CHR ''%'' then Some False
     else do {
       hex \<leftarrow> url_hex a len read;
       if hex then Some True else url_wide readIIS a len read } }"

definition url_body :: "bool \<Rightarrow> body" where
  "url_body readIIS a len read write = do {
     c \<leftarrow> rd a read;
     if c = CHR ''+'' then Some ([CHR '' ''], 1)
     else if c = CHR ''%'' then do {
       hex \<leftarrow> url_hex a len read;
       if hex then do {
         h \<leftarrow> rd a (read + 1);
         l \<leftarrow> rd a (read + 2);
         Some ([hex2 h l], 3) }
       else do {
         wide \<leftarrow> url_wide readIIS a len read;
         if wide then do {
           c2 \<leftarrow> rd a (read + 2);
           c3 \<leftarrow> rd a (read + 3);
           c4 \<leftarrow> rd a (read + 4);
           c5 \<leftarrow> rd a (read + 5);
           let codepoint = hex4 c2 c3 c4 c5 in
           Some (if codepoint \<le> 0x7F then [to_char (ucast codepoint)]
                 else write_codepoint (ucast codepoint) (read + 6 - write), 6) }
         else Some ([c], 1) } }
     else Some ([c], 1) }"

definition transformDecodeURL_lambda :: "bool \<Rightarrow> xform" where
  "transformDecodeURL_lambda readIIS a len readOnly = do {
     read \<leftarrow> scan_at (url_stop readIIS) a len 0;
     if readOnly then Some (read \<noteq> len, a, len)
     else finished len (body_loop (url_body readIIS) a len read read) }"

text \<open>The step on lists.\<close>

definition wide_at :: "char list \<Rightarrow> bool" where
  "wide_at s \<longleftrightarrow> 5 < length s \<and> or20 (s ! 1) = CHR ''u'' \<and> isxdigit (s ! 2) \<and> isxdigit (s ! 3)
     \<and> isxdigit (s ! 4) \<and> isxdigit (s ! 5)"

definition url_escape :: "bool \<Rightarrow> char list \<Rightarrow> nat" where
  "url_escape iis s =
     (if s ! 0 = CHR ''+'' then 1
      else if s ! 0 \<noteq> CHR ''%'' then 0
      else if 2 < length s \<and> isxdigit (s ! 1) \<and> isxdigit (s ! 2) then 3
      else if iis \<and> wide_at s then 6
      else 0)"

definition url_step :: "bool \<Rightarrow> step" where
  "url_step iis room s =
     (let e = url_escape iis s in
      if e = 1 then ([CHR '' ''], 1)
      else if e = 3 then ([hex2 (s ! 1) (s ! 2)], 3)
      else if e = 6 then
        (let cp = hex4 (s ! 2) (s ! 3) (s ! 4) (s ! 5) in
         (if cp \<le> 0x7F then [to_char (ucast cp)] else write_codepoint (ucast cp) (room + 6), 6))
      else ([s ! 0], 1))"

lemma url_tests:
  assumes "r < n" "n \<le> length a"
  shows "url_hex a n r = Some (2 < length (unread a r n) \<and> isxdigit (unread a r n ! 1) \<and> isxdigit (unread a r n ! 2))"
    and "url_wide iis a n r = Some (iis \<and> wide_at (unread a r n))"
proof -
  have "url_hex a n r = Some (2 < n - r \<and> isxdigit (unread a r n ! 1) \<and> isxdigit (unread a r n ! 2))"
    using assms by (auto simp: url_hex_def unread_nth)
  then show "url_hex a n r = Some (2 < length (unread a r n) \<and> isxdigit (unread a r n ! 1) \<and> isxdigit (unread a r n ! 2))"
    using assms by simp
  show "url_wide iis a n r = Some (iis \<and> wide_at (unread a r n))"
    using assms by (auto simp: url_wide_def wide_at_def unread_nth)
qed

lemma url_body_step:
  assumes "w \<le> r" "r < n" "n \<le> length a"
  shows "url_body iis a n r w = Some (url_step iis (r - w) (unread a r n))"
proof -
  let ?s = "unread a r n"
  have nth: "i < length ?s \<Longrightarrow> rd a (r + i) = Some (?s ! i)" for i
    using assms by (simp add: unread_nth)
  have rd0: "rd a r = Some (?s ! 0)"
    using nth [of 0] assms by simp
  note tests = url_tests [OF assms(2,3)]
  consider (hex) "?s ! 0 = CHR ''%''" "2 < length ?s \<and> isxdigit (?s ! 1) \<and> isxdigit (?s ! 2)"
    | (wide) "?s ! 0 = CHR ''%''" "\<not> (2 < length ?s \<and> isxdigit (?s ! 1) \<and> isxdigit (?s ! 2))"
        "iis" "wide_at ?s"
    | (other) "url_escape iis ?s \<noteq> 3" "url_escape iis ?s \<noteq> 6"
    using url_escape_def [of iis ?s] by (auto split: if_splits)
  then show ?thesis
  proof cases
    case hex
    then have "url_body iis a n r w = Some ([hex2 (?s ! 1) (?s ! 2)], 3)"
      using rd0 nth [of 1] nth [of 2] by (simp add: url_body_def tests)
    then show ?thesis
      using hex by (simp add: url_step_def url_escape_def)
  next
    case wide
    have e: "url_escape iis ?s = 6"
      using wide(3,4) unfolding url_escape_def wide(1) if_not_P [OF wide(2)] by simp
    have len: "5 < length ?s"
      using wide(4) by (simp add: wide_at_def)
    have no: "\<not> isxdigit (?s ! 1)"
      using wide(2,4) by (simp add: wide_at_def)
    have room: "r + 6 - w = r - w + 6"
      using assms(1) by simp
    show ?thesis
      using wide(3,4) no rd0 len nth [of 2] nth [of 3] nth [of 4] nth [of 5]
      unfolding url_body_def tests url_step_def e Let_def room if_not_P [OF wide(2)]
      by (simp add: wide(1,2) del: length_unread)
  next
    case other
    then show ?thesis
      using rd0 by (auto simp: url_body_def url_step_def url_escape_def tests split: if_splits)
  qed
qed

lemma url_stop_step:
  assumes "r < n" "n \<le> length a"
  shows "url_stop iis a n r = Some (url_escape iis (unread a r n) \<noteq> 0)"
  using assms by (auto simp: url_stop_def url_escape_def url_tests unread_nth [of r 0, simplified])

interpretation url: scan_transformer "url_body iis" "url_step iis" "scan_at (url_stop iis)"
  "\<lambda>s. url_escape iis s \<noteq> 0" "transformDecodeURL_lambda iis" "\<lambda>r n. r \<noteq> n" for iis
proof
  fix s :: "char list" and room
  assume "s \<noteq> []"
  then show "0 < snd (url_step iis room s)"
    by (simp add: url_step_def Let_def)
  show "length (fst (url_step iis room s)) \<le> room + min (snd (url_step iis room s)) (length s)"
    using \<open>s \<noteq> []\<close> length_write_codepoint [of "ucast (hex4 (s ! 2) (s ! 3) (s ! 4) (s ! 5))" "room + 6"]
    by (auto simp: url_step_def url_escape_def wide_at_def Let_def Suc_le_eq)
next
  fix a :: buf and n r
  assume "r < n" "n \<le> length a"
  then show "scan_at (url_stop iis) a n r
      = (if url_escape iis (unread a r n) \<noteq> 0 then Some r else scan_at (url_stop iis) a n (Suc r))"
    by (simp only: scan_at_stop [OF _ url_stop_step])
next
  fix c cs
  show "\<not> url_escape iis (c # cs) \<noteq> 0 \<Longrightarrow> url_step iis 0 (c # cs) = ([c], 1)"
    by (simp add: url_step_def)
qed (simp_all add: url_body_step scan_at_end transformDecodeURL_lambda_def)

text \<open>Upper-case digits, and the encodings of a character.\<close>

definition hex_digit :: "u8 \<Rightarrow> char" where
  "hex_digit w = to_char (if w < 10 then w + 0x30 else w + 0x37)"

definition percent :: "char \<Rightarrow> char list" where
  "percent c = [CHR ''%'', hex_digit (drop_bit 4 (byte c)), hex_digit (take_bit 4 (byte c))]"

definition url_encoding :: "char \<Rightarrow> char list \<Rightarrow> bool" where
  "url_encoding c e \<longleftrightarrow> e = percent c \<or> (c = CHR '' '' \<and> e = ''+'')
     \<or> (c \<notin> {CHR ''%'', CHR ''+''} \<and> e = [c])"

lemma nibble_cases: "take_bit 4 w = w \<Longrightarrow> w \<in> set (map of_nat [0..<16])" for w :: u8
proof -
  assume "take_bit 4 w = w"
  then have "unat w = take_bit 4 (unat w)"
    by (metis unsigned_take_bit_eq)
  then have "unat w < 2 ^ 4"
    by (metis take_bit_nat_less_exp)
  then show "w \<in> set (map of_nat [0..<16])"
    by (auto intro!: image_eqI [of _ _ "unat w"])
qed

lemma hex_digit_nibble: "take_bit 4 w = w \<Longrightarrow> isxdigit (hex_digit w) \<and> fromHex (hex_digit w) = w"
proof -
  have "\<forall>w \<in> set (map of_nat [0..<16]). isxdigit (hex_digit w) \<and> fromHex (hex_digit w) = w"
    by code_simp
  then show "take_bit 4 w = w \<Longrightarrow> ?thesis"
    using nibble_cases by blast
qed

lemma nibbles:
  "take_bit 4 (drop_bit 4 w) = drop_bit 4 w" "push_bit 4 (drop_bit 4 w) OR take_bit 4 w = w" for w :: u8
  by (rule bit_word_eqI; auto simp: bit_simps dest: bit_imp_le_length)+

lemma hex2_digits:
  "isxdigit (hex_digit (drop_bit 4 (byte c))) \<and> isxdigit (hex_digit (take_bit 4 (byte c))) \<and>
   hex2 (hex_digit (drop_bit 4 (byte c))) (hex_digit (take_bit 4 (byte c))) = c"
  using hex_digit_nibble [of "drop_bit 4 (byte c)"] hex_digit_nibble [of "take_bit 4 (byte c)"]
  by (simp add: hex2_def nibbles)

lemma url_step_encoding: "url_encoding c e \<Longrightarrow> e \<noteq> [] \<and> url_step iis room (e @ rest) = ([c], length e)"
  using hex2_digits [of c]
  unfolding url_encoding_def percent_def url_step_def url_escape_def Let_def
  by (elim disjE) simp_all

text \<open>C23: URL decoding inverts percent encoding: whatever mixture of percent escapes, plus signs
  for spaces and plain characters encodes a string, the transformer rewrites the object's buffer
  in place, without leaving it, to exactly that string.\<close>

theorem url_decode_encodings:
  assumes "wf_object ob" "contents ob = Some (concat es)" "list_all2 url_encoding s es"
  shows "\<exists>ok ob'. runTransform (transformDecodeURL_lambda readIIS) ob False = Some (ok, ob')
    \<and> wf_object ob' \<and> contents ob' = Some s"
proof -
  have "decode (url_step readIIS) 0 (concat es) = concat (map (\<lambda>c. [c]) s)"
    by (rule decode_encodings [OF assms(3)]) (rule url_step_encoding)
  with url.run_mutate [OF assms(1), of readIIS] assms(2) show ?thesis
    by auto
qed

theorem url_decode_encodings_witness:
  "\<exists>ok ob'. runTransform (transformDecodeURL_lambda False)
      (Obj None (Str (Some ''a+%3C/'') 6)) False = Some (ok, ob') \<and> contents ob' = Some ''a </''"
proof -
  have "list_all2 url_encoding ''a </'' [''a'', ''+'', ''%3C'', ''/'']"
    by code_simp
  moreover have "contents (Obj None (Str (Some ''a+%3C/'') 6)) = Some (concat [''a'', ''+'', ''%3C'', ''/''])"
    by (simp add: contents_def)
  moreover have "wf_object (Obj None (Str (Some ''a+%3C/'') 6))"
    by (simp add: wf_string)
  ultimately show ?thesis
    using url_decode_encodings by blast
qed

section \<open>CSS\<close>

primrec count_hex :: "nat \<Rightarrow> buf \<Rightarrow> nat \<Rightarrow> nat \<Rightarrow> nat option" where
  "count_hex 0 a len pos = Some 0"
| "count_hex (Suc k) a len pos =
     (if pos < len
      then do {
        c \<leftarrow> rd a pos;
        if isxdigit c then do { m \<leftarrow> count_hex k a len (Suc pos); Some (Suc m) } else Some 0 }
      else Some 0)"

primrec assemble_hex :: "nat \<Rightarrow> buf \<Rightarrow> nat \<Rightarrow> u32 \<Rightarrow> u32 option" where
  "assemble_hex 0 a pos v = Some v"
| "assemble_hex (Suc k) a pos v = do {
     c \<leftarrow> rd a pos;
     assemble_hex k a (Suc pos) (push_bit 4 v OR ucast (fromHex c)) }"

definition css_body :: body where
  "css_body a len read write = do {
     c \<leftarrow> rd a read;
     if c \<noteq> CHR 0x5C then Some ([c], 1)
     else do {
       countHex \<leftarrow> count_hex 6 a len (read + 1);
       if countHex \<noteq> 0 then do {
         assembledValue \<leftarrow> assemble_hex countHex a (read + 1) 0;
         let next = read + 1 + countHex in do {
           swallow \<leftarrow> (if next < len then chk a [(next, isspace)] else Some False);
           Some (write_codepoint assembledValue (next - write),
                 1 + countHex + (if swallow then 1 else 0)) } }
       else if read + 1 < len then do {
         nextChar \<leftarrow> rd a (read + 1);
         Some (if nextChar \<noteq> CHR 0x0A then [nextChar] else [], 2) }
       else Some ([], 1) } }"

definition transformDecodeCSS_lambda :: xform where
  "transformDecodeCSS_lambda a len readOnly = do {
     read \<leftarrow> scan (eqc (CHR 0x5C)) a len 0;
     if readOnly then Some (read \<noteq> len, a, len)
     else finished len (body_loop css_body a len read read) }"

text \<open>The step on lists: at most six digits, their value, and the space that ends them.\<close>

definition hex_value :: "char list \<Rightarrow> u32" where
  "hex_value ds = foldl (\<lambda>v c. push_bit 4 v OR ucast (fromHex c)) 0 ds"

definition css_digits :: "char list \<Rightarrow> char list" where
  "css_digits s = takeWhile isxdigit (take 6 s)"

definition css_step :: step where
  "css_step room s =
     (if s ! 0 \<noteq> CHR 0x5C then ([s ! 0], 1)
      else let ds = css_digits (tl s); rest = drop (length ds) (tl s) in
        if ds \<noteq> [] then
          (write_codepoint (hex_value ds) (room + 1 + length ds),
           1 + length ds + (if rest \<noteq> [] \<and> isspace (hd rest) then 1 else 0))
        else (case tl s of [] \<Rightarrow> ([], 1) | c # _ \<Rightarrow> (if c \<noteq> CHR 0x0A then [c] else [], 2)))"

lemma count_hex_correct:
  "n \<le> length a \<Longrightarrow> count_hex k a n pos = Some (length (takeWhile isxdigit (take k (unread a pos n))))"
proof (induction k arbitrary: pos)
  case (Suc k)
  then show ?case
    by (cases "pos < n") (simp_all add: unread_Cons)
qed simp

lemma assemble_hex_correct:
  "pos + k \<le> n \<Longrightarrow> n \<le> length a \<Longrightarrow>
   assemble_hex k a pos v
     = Some (foldl (\<lambda>v c. push_bit 4 v OR ucast (fromHex c)) v (take k (unread a pos n)))"
proof (induction k arbitrary: pos v)
  case (Suc k)
  then have "unread a pos n = a ! pos # unread a (Suc pos) n" "rd a pos = Some (a ! pos)"
    by (simp_all add: unread_Cons)
  moreover have "Suc pos + k \<le> n"
    using Suc.prems by simp
  ultimately show ?case
    using Suc.IH [OF _ Suc.prems(2)]
    by (simp only: assemble_hex.simps bind.bind_lunit take_Suc_Cons foldl_Cons)
qed simp

lemma peek:
  "n \<le> length a \<Longrightarrow> (if p < n then chk a [(p, P)] else Some False)
     = Some (unread a p n \<noteq> [] \<and> P (hd (unread a p n)))"
  by (cases "p < n") (simp_all add: unread_Cons)

lemma css_digits_prefix:
  "take (length (css_digits s)) s = css_digits s" "length (css_digits s) \<le> length s"
  "length (css_digits s) \<le> 6"
proof -
  have "length (css_digits s) \<le> length (take 6 s)"
    unfolding css_digits_def by (rule length_takeWhile_le)
  then show "length (css_digits s) \<le> length s" "length (css_digits s) \<le> 6"
    by simp_all
  moreover have "take (length (css_digits s)) (take 6 s) = css_digits s"
    unfolding css_digits_def by (simp only: takeWhile_eq_take [symmetric])
  ultimately show "take (length (css_digits s)) s = css_digits s"
    by (simp only: take_take min.absorb1)
qed

lemma css_body_step:
  assumes "w \<le> r" "r < n" "n \<le> length a"
  shows "css_body a n r w = Some (css_step (r - w) (unread a r n))"
proof -
  let ?s = "unread a r n" and ?t = "unread a (r + 1) n"
  let ?ds = "css_digits ?t"
  have s: "?s = a ! r # ?t"
    using assms by (simp add: unread_Cons)
  have count: "count_hex 6 a n (r + 1) = Some (length ?ds)"
    using count_hex_correct [OF assms(3)] by (simp add: css_digits_def)
  have len: "r + 1 + length ?ds \<le> n"
    using css_digits_prefix(2) [of ?t] assms by simp
  have ds: "take (length ?ds) ?t = ?ds"
    by (rule css_digits_prefix)
  have val: "assemble_hex (length ?ds) a (r + 1) 0 = Some (hex_value ?ds)"
    using assemble_hex_correct [OF len assms(3), of 0] ds by (simp add: hex_value_def)
  let ?rest = "drop (length ?ds) ?t"
  have rest: "?rest = unread a (r + 1 + length ?ds) n"
    by (simp add: unread_drop)
  have swallow: "(if r + 1 + length ?ds < n then chk a [(r + 1 + length ?ds, isspace)] else Some False)
      = Some (?rest \<noteq> [] \<and> isspace (hd ?rest))"
    unfolding rest by (rule peek [OF assms(3)])
  have nxt: "(if r + 1 < n then do { c \<leftarrow> rd a (r + 1); Some (if c \<noteq> CHR 0x0A then [c] else [], 2 :: nat) }
      else Some ([], 1)) = Some (case ?t of [] \<Rightarrow> ([], 1) | c # _ \<Rightarrow> (if c \<noteq> CHR 0x0A then [c] else [], 2))"
    using assms by (auto simp: unread_Cons)
  have room: "r + 1 + length ?ds - w = r - w + 1 + length ?ds"
    using assms by simp
  show ?thesis
    using assms
    unfolding css_body_def count bind.bind_lunit val Let_def swallow nxt room
    by (simp add: css_step_def s Let_def)
qed

lemma hex_value_snoc: "hex_value (ds @ [c]) = push_bit 4 (hex_value ds) OR ucast (fromHex c)"
  by (simp add: hex_value_def)

lemma fromHex_fits: "isxdigit c \<Longrightarrow> take_bit 4 (fromHex c) = fromHex c"
proof -
  have "\<forall>c. isxdigit c \<longrightarrow> take_bit 4 (fromHex c) = fromHex c"
    by code_simp
  then show "isxdigit c \<Longrightarrow> ?thesis"
    by blast
qed

lemma append_nibble: "take_bit k v = v \<Longrightarrow> take_bit 4 w = w \<Longrightarrow>
   take_bit (k + 4) (push_bit 4 v OR ucast w) = push_bit 4 v OR ucast w" for v :: u32 and w :: u8
proof -
  have "take_bit (k + 4) (push_bit 4 (take_bit k v) OR ucast (take_bit 4 w))
      = (push_bit 4 (take_bit k v) OR ucast (take_bit 4 w) :: u32)"
    by (rule bit_word_eqI) (auto simp: bit_simps)
  then show "take_bit k v = v \<Longrightarrow> take_bit 4 w = w \<Longrightarrow> ?thesis"
    by simp
qed

lemma hex_value_fits: "list_all isxdigit ds \<Longrightarrow> take_bit (4 * length ds) (hex_value ds) = hex_value ds"
proof (induction ds rule: rev_induct)
  case (snoc c ds)
  with append_nibble [of "4 * length ds" "hex_value ds" "fromHex c"] fromHex_fits [of c]
  show ?case
    by (simp add: hex_value_snoc add.commute)
qed (simp add: hex_value_def)

lemma take_bit_lt: "take_bit k x = x \<Longrightarrow> k < 32 \<Longrightarrow> unat x < 2 ^ k" for x :: u32
  by (metis take_bit_nat_less_exp unsigned_take_bit_eq)

lemma write_codepoint_fits:
  assumes "take_bit (4 * m) cp = cp" "0 < m" "m < left"
  shows "length (write_codepoint cp left) \<le> left"
proof -
  show ?thesis
  proof (cases "m \<ge> 3")
    case True
    then show ?thesis
      using length_write_codepoint [of cp left] assms(3) by simp
  next
    case False
    then have "unat cp < 2 ^ (4 * m)" "4 * m \<le> 8"
      using take_bit_lt [OF assms(1)] by simp_all
    then have "unat cp < 256"
      using power_increasing [of "4 * m" 8 "2 :: nat"] by simp
    then have "\<not> cp > 0xFFFF" "\<not> cp > 0x7FF"
      by (simp_all add: word_less_nat_alt)
    then have "length (codepoint_to_bytes cp) \<le> 2"
      by (simp add: codepoint_to_bytes_def)
    then show ?thesis
      using assms(2,3) unfolding write_codepoint_def replacement_bytes_def by simp
  qed
qed

lemma css_digits_hex: "list_all isxdigit (css_digits s)"
  by (auto simp: css_digits_def list_all_iff dest: set_takeWhileD)

interpretation css: scan_transformer css_body css_step "scan (eqc (CHR 0x5C))"
  "\<lambda>s. s ! 0 = CHR 0x5C" transformDecodeCSS_lambda "\<lambda>r n. r \<noteq> n"
proof
  fix s :: "char list" and room
  assume "s \<noteq> []"
  then show "0 < snd (css_step room s)"
    by (simp add: css_step_def Let_def split: list.split)
  let ?ds = "css_digits (tl s)"
  show "length (fst (css_step room s)) \<le> room + min (snd (css_step room s)) (length s)"
  proof (cases "s ! 0 = CHR 0x5C \<and> ?ds \<noteq> []")
    case True
    have len: "1 + length ?ds \<le> length s"
      using css_digits_prefix(2) [of "tl s"] \<open>s \<noteq> []\<close> by (cases s) simp_all
    have "length (write_codepoint (hex_value ?ds) (room + 1 + length ?ds)) \<le> room + 1 + length ?ds"
      using write_codepoint_fits [OF hex_value_fits [OF css_digits_hex], of "tl s"] True by simp
    with True len show ?thesis
      by (auto simp: css_step_def Let_def)
  next
    case False
    with \<open>s \<noteq> []\<close> show ?thesis
      by (auto simp: css_step_def Let_def split: list.split) (cases s; auto)+
  qed
next
  fix a :: buf and n r
  assume "r < n" "n \<le> length a"
  then show "scan (eqc (CHR 0x5C)) a n r
      = (if unread a r n ! 0 = CHR 0x5C then Some r else scan (eqc (CHR 0x5C)) a n (Suc r))"
    by (subst scan.simps) (simp add: unread_Cons)
next
  fix a :: buf and n r
  show "n \<le> r \<Longrightarrow> scan (eqc (CHR 0x5C)) a n r = Some r"
    by (subst scan.simps) simp
qed (simp_all add: css_body_step css_step_def transformDecodeCSS_lambda_def)

text \<open>A code point as an escape of six digits ended by a space, or as it stands.\<close>

definition nibble :: "nat \<Rightarrow> u32 \<Rightarrow> u8" where
  "nibble k x = take_bit 4 (ucast (drop_bit k x))"

definition css_escape :: "u32 \<Rightarrow> char list" where
  "css_escape cp = CHR 0x5C # map (\<lambda>k. hex_digit (nibble k cp)) [20, 16, 12, 8, 4, 0] @ '' ''"

definition css_encoding :: "u32 \<Rightarrow> char list \<Rightarrow> bool" where
  "css_encoding cp e \<longleftrightarrow> (storable cp = cp \<and> e = css_escape cp)
     \<or> (cp \<le> 0x7F \<and> cp \<noteq> 0x5C \<and> e = [char32 cp])"

lemma nibble_append:
  "push_bit 4 (take_bit m (drop_bit (k + 4) x)) OR ucast (nibble k x) = take_bit (m + 4) (drop_bit k x)"
  for x :: u32
  unfolding nibble_def by (rule bit_word_eqI) (auto simp: bit_simps)

lemma fromHex_nibble: "fromHex (hex_digit (nibble k x)) = nibble k x \<and> isxdigit (hex_digit (nibble k x))"
  using hex_digit_nibble [of "nibble k x"] by (simp add: nibble_def)

lemma hex_value_nibbles:
  "hex_value (map (\<lambda>k. hex_digit (nibble k x)) [20, 16, 12, 8, 4, 0]) = take_bit 24 x"
proof -
  have "hex_value (map (\<lambda>k. hex_digit (nibble k x)) [20, 16, 12, 8, 4, 0])
      = push_bit 4 (push_bit 4 (push_bit 4 (push_bit 4 (push_bit 4 (push_bit 4 (take_bit 0 (drop_bit (20 + 4) x))
          OR ucast (nibble 20 x)) OR ucast (nibble 16 x)) OR ucast (nibble 12 x)) OR ucast (nibble 8 x))
          OR ucast (nibble 4 x)) OR ucast (nibble 0 x)"
    by (simp add: hex_value_def fromHex_nibble)
  also have "\<dots> = take_bit 24 x"
    using nibble_append [of 0 20 x] nibble_append [of 4 16 x] nibble_append [of 8 12 x]
      nibble_append [of 12 8 x] nibble_append [of 16 4 x] nibble_append [of 20 0 x]
    by simp
  finally show ?thesis .
qed

lemma plain_not_escape: "cp \<le> 0x7F \<Longrightarrow> cp \<noteq> 0x5C \<Longrightarrow> char32 cp \<noteq> CHR 0x5C"
proof
  assume "cp \<le> 0x7F" "cp \<noteq> 0x5C" "char32 cp = CHR 0x5C"
  moreover from this have "ucast (byte (char32 cp)) = (0x5C :: u32)"
    by (simp add: byte_def)
  ultimately show False
    using ascii_byte [of cp] by simp
qed

lemma css_step_encoding:
  assumes "css_encoding cp e"
  shows "e \<noteq> [] \<and> css_step room (e @ rest) = (codepoint_to_bytes cp, length e)"
proof -
  consider (escape) "storable cp = cp" "e = css_escape cp"
    | (plain) "cp \<le> 0x7F" "cp \<noteq> 0x5C" "e = [char32 cp]"
    using assms by (auto simp: css_encoding_def)
  then show ?thesis
  proof cases
    case escape
    let ?ds = "map (\<lambda>k. hex_digit (nibble k cp)) [20, 16, 12, 8, 4, 0]"
    have ds: "css_digits (?ds @ CHR '' '' # rest) = ?ds"
      by (simp add: css_digits_def fromHex_nibble)
    have "cp \<le> UTF8_MAX_CODEPOINT"
      using storable_le [of cp] escape(1) by simp
    then have "cp < 2 ^ 24"
      by (simp add: word_le_nat_alt word_less_nat_alt)
    then have val: "hex_value ?ds = cp"
      unfolding hex_value_nibbles by (rule small_word)
    have "css_step room (CHR 0x5C # ?ds @ CHR '' '' # rest)
        = (write_codepoint cp (room + 1 + length ?ds), 1 + length ?ds + 1)"
      unfolding css_step_def list.sel ds Let_def val by (simp add: isspace_def)
    with escape show ?thesis
      by (simp add: css_escape_def write_codepoint_storable)
  next
    case plain
    have "char32 cp \<noteq> CHR 0x5C"
      by (rule plain_not_escape) (use plain in simp_all)
    with plain show ?thesis
      by (simp add: css_step_def codepoint_to_bytes_def)
  qed
qed



end
