(* ===== verification/Xf_Js.thy ===== *)
theory Xf_Js
  imports Xf_Decode
begin

text \<open>
  The JavaScript decoder of \<open>src/PWTransformer.cpp\<close>: hexadecimal, UTF-16 and one-character
  escapes. The body of its loop, the step on lists, and the interpretation of the contract.
\<close>

definition unescape :: "char \<Rightarrow> char" where
  "unescape c =
     (if c = CHR ''a'' then CHR 0x07 else if c = CHR ''b'' then CHR 0x08
      else if c = CHR ''f'' then CHR 0x0C else if c = CHR ''n'' then CHR 0x0A
      else if c = CHR ''r'' then CHR 0x0D else if c = CHR ''t'' then CHR 0x09
      else if c = CHR ''v'' then CHR 0x0B else c)"

text \<open>Four hexadecimal digits at a position, as a UTF-16 word when they are there.\<close>

definition js_word :: "buf \<Rightarrow> nat \<Rightarrow> nat \<Rightarrow> u16 option option" where
  "js_word a len pos =
     (if pos + 3 < len then do {
        hex \<leftarrow> chk a [(pos, isxdigit), (pos + 1, isxdigit), (pos + 2, isxdigit), (pos + 3, isxdigit)];
        if hex then do {
          c0 \<leftarrow> rd a pos;
          c1 \<leftarrow> rd a (pos + 1);
          c2 \<leftarrow> rd a (pos + 2);
          c3 \<leftarrow> rd a (pos + 3);
          Some (Some (hex4 c0 c1 c2 c3)) }
        else Some None }
      else Some None)"

text \<open>The second half of a surrogate pair: another escaped word.\<close>

definition js_low :: "buf \<Rightarrow> nat \<Rightarrow> nat \<Rightarrow> u16 option option" where
  "js_low a len pos =
     (if pos + 5 < len then do {
        esc \<leftarrow> chk a [(pos, eqc (CHR 0x5C)), (pos + 1, eqc (CHR ''u''))];
        if esc then js_word a len (pos + 2) else Some None }
      else Some None)"

definition surrogate_pair :: "u16 \<Rightarrow> u16 \<Rightarrow> u32" where
  "surrogate_pair high low = 0x10000 + push_bit 10 (ucast high - 0xD800) + (ucast low - 0xDC00)"

definition js_body :: body where
  "js_body a len read write = do {
     c \<leftarrow> rd a read;
     if c \<noteq> CHR 0x5C then Some ([c], 1)
     else if read + 1 = len then Some ([CHR 0x5C], 1)
     else do {
       escapeControl \<leftarrow> rd a (read + 1);
       if escapeControl = CHR ''x'' then
         (if read + 3 < len then do {
            hex \<leftarrow> chk a [(read + 2, isxdigit), (read + 3, isxdigit)];
            if hex then do {
              h \<leftarrow> rd a (read + 2);
              l \<leftarrow> rd a (read + 3);
              Some ([hex2 h l], 4) }
            else Some ([], 2) }
          else Some ([], 2))
       else if escapeControl = CHR ''u'' then do {
         w \<leftarrow> js_word a len (read + 2);
         case w of
           None \<Rightarrow> Some ([], 2)
         | Some word \<Rightarrow>
             if word < 0xD800 \<or> word > 0xDBFF then Some (codepoint_to_bytes (ucast word), 6)
             else do {
               w' \<leftarrow> js_low a len (read + 6);
               case w' of
                 Some low \<Rightarrow>
                   if low \<ge> 0xDC00 \<and> low \<le> 0xDFFF
                   then Some (codepoint_to_bytes (surrogate_pair word low), 12)
                   else Some ([], 6)
               | None \<Rightarrow> Some (write_codepoint (ucast word) (read + 6 - write), 6) } }
       else Some ([unescape escapeControl], 2) } }"

definition transformDecodeJS_lambda :: xform where
  "transformDecodeJS_lambda a len readOnly = do {
     read \<leftarrow> scan (eqc (CHR 0x5C)) a len 0;
     if readOnly then Some (read + 1 < len, a, len)
     else finished len (body_loop js_body a len read read) }"

text \<open>The step on lists.\<close>

fun word_at :: "char list \<Rightarrow> u16 option" where
  "word_at (a # b # c # d # s) =
     (if isxdigit a \<and> isxdigit b \<and> isxdigit c \<and> isxdigit d then Some (hex4 a b c d) else None)"
| "word_at _ = None"

fun low_at :: "char list \<Rightarrow> u16 option" where
  "low_at (a # b # s) = (if a = CHR 0x5C \<and> b = CHR ''u'' then word_at s else None)"
| "low_at _ = None"

definition js_unicode :: step where
  "js_unicode room s =
     (case word_at s of
        None \<Rightarrow> ([], 2)
      | Some word \<Rightarrow>
          if word < 0xD800 \<or> word > 0xDBFF then (codepoint_to_bytes (ucast word), 6)
          else (case low_at (drop 4 s) of
                  Some low \<Rightarrow>
                    if low \<ge> 0xDC00 \<and> low \<le> 0xDFFF
                    then (codepoint_to_bytes (surrogate_pair word low), 12)
                    else ([], 6)
                | None \<Rightarrow> (write_codepoint (ucast word) (room + 6), 6)))"

definition js_hex :: "char list \<Rightarrow> char list \<times> nat" where
  "js_hex s =
     (case s of h # l # _ \<Rightarrow> if isxdigit h \<and> isxdigit l then ([hex2 h l], 4) else ([], 2) | _ \<Rightarrow> ([], 2))"

fun js_step :: step where
  "js_step room [] = ([], 1)"
| "js_step room [c] = ([c], 1)"
| "js_step room (c # e # s) =
     (if c \<noteq> CHR 0x5C then ([c], 1)
      else if e = CHR ''x'' then js_hex s
      else if e = CHR ''u'' then js_unicode room s
      else ([unescape e], 2))"

text \<open>The first characters of what is left to read.\<close>

lemma unread_cases:
  assumes "n \<le> length a"
  obtains "n \<le> p" "unread a p n = []" | "p < n" "rd a p = Some (a ! p)" "unread a p n = a ! p # unread a (p + 1) n"
  using assms by (cases "p < n") (auto simp: unread_Cons)

lemma js_word_at:
  assumes "n \<le> length a"
  shows "js_word a n p = Some (word_at (unread a p n))"
proof (cases "p + 3 < n")
  case True
  then have "unread a p n = a ! p # a ! (p + 1) # a ! (p + 2) # a ! (p + 3) # unread a (p + 4) n"
    using assms by (simp add: unread_Cons numeral_eq_Suc)
  with True assms show ?thesis
    by (simp add: js_word_def)
next
  case False
  have "word_at s = None" if "length s < 4" for s
    using that by (cases s rule: word_at.cases) auto
  with False assms show ?thesis
    by (simp add: js_word_def)
qed

lemma js_low_at:
  assumes "n \<le> length a"
  shows "js_low a n p = Some (low_at (unread a p n))"
proof (cases "p + 5 < n")
  case True
  then have "unread a p n = a ! p # a ! (p + 1) # unread a (p + 2) n"
    using assms by (simp add: unread_Cons numeral_eq_Suc)
  with True assms show ?thesis
    by (simp add: js_low_def js_word_at)
next
  case False
  have short: "word_at s = None" if "length s < 4" for s
    using that by (cases s rule: word_at.cases) auto
  have "low_at s = None" if "length s < 6" for s
    using that short by (cases s rule: low_at.cases) auto
  with False assms show ?thesis
    by (simp add: js_low_def)
qed

lemma js_body_step:
  assumes "w \<le> r" "r < n" "n \<le> length a"
  shows "js_body a n r w = Some (js_step (r - w) (unread a r n))"
proof -
  let ?t = "unread a (r + 2) n"
  have c: "rd a r = Some (a ! r)"
    using assms by simp
  have room: "r + 6 - w = r - w + 6"
    using assms by simp
  show ?thesis
  proof (cases "r + 1 = n")
    case True
    then have "unread a r n = [a ! r]"
      using assms by (simp add: unread_Cons)
    with True c show ?thesis
      by (simp add: js_body_def)
  next
    case False
    then have s: "unread a r n = a ! r # a ! (r + 1) # ?t" and e: "rd a (r + 1) = Some (a ! (r + 1))"
      using assms by (simp_all add: unread_Cons)
    have hex: "(if r + 3 < n then do {
            hex \<leftarrow> chk a [(r + 2, isxdigit), (r + 3, isxdigit)];
            if hex then do { h \<leftarrow> rd a (r + 2); l \<leftarrow> rd a (r + 3); Some ([hex2 h l], 4 :: nat) }
            else Some ([], 2) }
          else Some ([], 2)) = Some (js_hex ?t)"
    proof (cases "r + 3 < n")
      case True
      then have "?t = a ! (r + 2) # a ! (r + 3) # unread a (r + 4) n"
        using assms by (simp add: unread_Cons numeral_eq_Suc)
      with True assms show ?thesis
        by (simp add: js_hex_def)
    next
      case False
      then have "length ?t < 2"
        using assms by simp
      then have "js_hex ?t = ([], 2)"
        by (auto simp: js_hex_def split: list.splits)
      with False show ?thesis
        by simp
    qed
    have low: "js_low a n (r + 6) = Some (low_at (drop 4 ?t))"
      using js_low_at [OF assms(3), of "r + 6"] by (simp add: unread_drop add.commute)
    have uni: "(do {
         w' \<leftarrow> js_word a n (r + 2);
         case w' of
           None \<Rightarrow> Some ([], 2)
         | Some word \<Rightarrow>
             if word < 0xD800 \<or> word > 0xDBFF then Some (codepoint_to_bytes (ucast word), 6)
             else do {
               w' \<leftarrow> js_low a n (r + 6);
               case w' of
                 Some low \<Rightarrow>
                   if low \<ge> 0xDC00 \<and> low \<le> 0xDFFF
                   then Some (codepoint_to_bytes (surrogate_pair word low), 12)
                   else Some ([], 6)
               | None \<Rightarrow> Some (write_codepoint (ucast word) (r + 6 - w), 6) } }) = Some (js_unicode (r - w) ?t)"
      unfolding js_word_at [OF assms(3)] low js_unicode_def room
      by (auto split: option.splits)
    show ?thesis
      unfolding js_body_def c e bind.bind_lunit hex uni s js_step.simps using False by simp
  qed
qed

lemma word_at_length: "word_at s = Some w \<Longrightarrow> 4 \<le> length s"
  by (cases s rule: word_at.cases) auto

lemma low_at_length: "low_at s = Some w \<Longrightarrow> 6 \<le> length s"
  by (cases s rule: low_at.cases) (auto dest: word_at_length split: if_splits)

lemma length_codepoint_bytes: "length (codepoint_to_bytes cp) \<le> 4"
  by (simp add: codepoint_to_bytes_def)

lemma js_unicode_fits:
  "0 < snd (js_unicode room s) \<and>
   length (fst (js_unicode room s)) \<le> room + min (snd (js_unicode room s)) (Suc (Suc (length s)))"
proof (cases "word_at s")
  case (Some word)
  then have s: "4 \<le> length s"
    by (rule word_at_length)
  show ?thesis
  proof (cases "low_at (drop 4 s)")
    case None
    with Some s show ?thesis
      using length_codepoint_bytes [of "ucast word"] length_write_codepoint [of "ucast word" "room + 6"]
      by (simp add: js_unicode_def)
  next
    case (Some low)
    with low_at_length [OF Some] s \<open>word_at s = Some word\<close> show ?thesis
      using length_codepoint_bytes [of "ucast word"] length_codepoint_bytes [of "surrogate_pair word low"]
      by (simp add: js_unicode_def)
  qed
qed (simp add: js_unicode_def)

lemma js_step_fits:
  "s \<noteq> [] \<Longrightarrow> 0 < snd (js_step room s) \<and>
     length (fst (js_step room s)) \<le> room + min (snd (js_step room s)) (length s)"
proof (induction room s rule: js_step.induct)
  case (3 room c e s)
  have "0 < snd (js_hex s) \<and> length (fst (js_hex s)) \<le> room + min (snd (js_hex s)) (Suc (Suc (length s)))"
    by (auto simp: js_hex_def split: list.splits)
  with js_unicode_fits [of room s] show ?case
    by simp
qed simp_all

interpretation js_scan: scanning_stepper js_body js_step "scan (eqc (CHR 0x5C))" "\<lambda>s. s ! 0 = CHR 0x5C"
proof
  fix c cs
  show "(c # cs) ! 0 \<noteq> CHR 0x5C \<Longrightarrow> js_step 0 (c # cs) = ([c], 1)"
    by (cases cs) simp_all
qed (use js_step_fits js_body_step in \<open>auto\<close>)

text \<open>A backslash at the very end is kept, so the read-only call rightly ignores it.\<close>

interpretation js: scan_transformer js_body js_step "scan (eqc (CHR 0x5C))" "\<lambda>s. s ! 0 = CHR 0x5C"
  transformDecodeJS_lambda "\<lambda>r n. r + 1 < n"
proof
  fix s :: "char list"
  let ?k = "first_stop (\<lambda>s. s ! 0 = CHR 0x5C) s"
  assume "\<not> ?k + 1 < length s" "?k < length s"
  then have "drop ?k s = [s ! ?k]"
    using Cons_nth_drop_Suc [of ?k s] by simp
  then have "decode js_step 0 (drop ?k s) = drop ?k s"
    by (subst decode.simps) simp
  with js_scan.decode_prefix [of s] show "decode js_step 0 s = s"
    by simp
qed (simp add: transformDecodeJS_lambda_def)

text \<open>
  UTF-16 escapes of a code point, a surrogate pair above the basic plane; hexadecimal escapes
  and one-character escapes of an ASCII character; and a plain ASCII character.
\<close>

definition utf16_escape :: "u16 \<Rightarrow> char list" where
  "utf16_escape w = CHR 0x5C # CHR ''u''
     # map (\<lambda>k. hex_digit (take_bit 4 (ucast (drop_bit k w)))) [12, 8, 4, 0]"

definition utf16_escapes :: "u32 \<Rightarrow> char list" where
  "utf16_escapes cp =
     (if cp < 0x10000 then utf16_escape (ucast cp)
      else utf16_escape (0xD800 + ucast (drop_bit 10 (cp - 0x10000)))
           @ utf16_escape (0xDC00 + ucast (take_bit 10 (cp - 0x10000))))"

definition js_encoding :: "u32 \<Rightarrow> char list \<Rightarrow> bool" where
  "js_encoding cp e \<longleftrightarrow>
     (cp \<le> UTF8_MAX_CODEPOINT \<and> \<not> (0xD800 \<le> cp \<and> cp \<le> 0xDFFF) \<and> e = utf16_escapes cp)
     \<or> (cp \<le> 0x7F \<and> e = CHR 0x5C # CHR ''x'' # tl (percent (char32 cp)))
     \<or> (\<exists>c \<in> set ''abfnrtv''. e = [CHR 0x5C, c] \<and> cp = ucast (byte (unescape c)))
     \<or> (cp \<le> 0x7F \<and> cp \<noteq> 0x5C \<and> e = [char32 cp])"

lemma hex4_escape:
  "word_at (drop 2 (utf16_escape w) @ rest) = Some w"
proof -
  let ?d = "\<lambda>k. take_bit 4 (ucast (drop_bit k w)) :: u8"
  have "isxdigit (hex_digit (?d k)) \<and> fromHex (hex_digit (?d k)) = ?d k" for k
    by (rule hex_digit_nibble) simp
  note this [of 0, simplified] this
  moreover have "push_bit 12 (ucast (?d 12)) OR push_bit 8 (ucast (?d 8)) OR push_bit 4 (ucast (?d 4))
      OR ucast (?d 0) = w" (is "?lhs = w")
  proof (rule bit_word_eqI)
    show "bit ?lhs i = bit w i" if "i < LENGTH(16)" for i
      using that by (cases "i < 4"; cases "i < 8"; cases "i < 12") (auto simp: bit_simps)
  qed
  ultimately show ?thesis
    by (simp add: utf16_escape_def hex4_def)
qed

lemma utf16_escape_shape:
  "utf16_escape w = CHR 0x5C # CHR ''u'' # drop 2 (utf16_escape w)" "length (utf16_escape w) = 6"
  by (simp_all add: utf16_escape_def)

lemma ucast_add16:
  fixes a b :: u16
  assumes "unat a + unat b < 2 ^ 16"
  shows "(ucast (a + b) :: u32) = ucast a + ucast b"
proof -
  have "unat (a + b) = unat a + unat b"
    using assms by (simp add: unat_word_ariths)
  then show ?thesis
    by (metis of_nat_add of_nat_unat)
qed

lemma ucast_small:
  fixes x :: u32
  assumes "unat x < 65536"
  shows "unat (ucast x :: u16) = unat x" "(ucast (ucast x :: u16) :: u32) = x"
proof -
  show *: "unat (ucast x :: u16) = unat x"
    using assms by (simp add: unsigned_ucast_eq take_bit_nat_eq_self)
  show "(ucast (ucast x :: u16) :: u32) = x"
    using * by (simp add: word_unat_eq_iff unsigned_ucast_eq unsigned_take_bit_eq)
qed

lemma surrogates:
  fixes cp :: u32
  assumes "0x10000 \<le> cp" "cp \<le> 0x10FFFF"
  defines "high \<equiv> 0xD800 + ucast (drop_bit 10 (cp - 0x10000)) :: u16"
    and "low \<equiv> 0xDC00 + ucast (take_bit 10 (cp - 0x10000)) :: u16"
  shows "0xD800 \<le> high \<and> high \<le> 0xDBFF" "0xDC00 \<le> low \<and> low \<le> 0xDFFF" "surrogate_pair high low = cp"
proof -
  let ?d = "cp - 0x10000"
  let ?h = "drop_bit 10 ?d" and ?l = "take_bit 10 ?d"
  have "unat ?d = unat cp - 0x10000"
    using assms(1) by (simp add: unat_sub)
  then have "unat ?d < 1024 * 1024"
    using assms(1,2) by (simp add: word_le_nat_alt)
  then have h: "unat ?h < 1024"
    by (subst unat_drop_bit_eq) (simp add: drop_bit_eq_div less_mult_imp_div_less)
  have l: "unat ?l < 1024"
    by (subst unsigned_take_bit_eq) (simp add: take_bit_eq_mod)
  note up = ucast_small [of ?h] ucast_small [of ?l]
  show "0xD800 \<le> high \<and> high \<le> 0xDBFF"
    using h up(1) by (simp add: high_def word_le_nat_alt unat_word_ariths)
  show "0xDC00 \<le> low \<and> low \<le> 0xDFFF"
    using l up(3) by (simp add: low_def word_le_nat_alt unat_word_ariths)
  have "(ucast high :: u32) = 0xD800 + ?h" "(ucast low :: u32) = 0xDC00 + ?l"
    unfolding high_def low_def using h l up by (simp_all add: ucast_add16)
  moreover have "push_bit 10 ?h + ?l = ?d"
    by (rule bits_ident)
  ultimately show "surrogate_pair high low = cp"
    by (simp add: surrogate_pair_def add.assoc)
qed

lemma unescape_ascii: "c \<in> set ''abfnrtv'' \<Longrightarrow>
    ucast (byte (unescape c)) \<le> (0x7F :: u32) \<and> char32 (ucast (byte (unescape c))) = unescape c"
proof -
  have "\<forall>c \<in> set ''abfnrtv''.
      ucast (byte (unescape c)) \<le> (0x7F :: u32) \<and> char32 (ucast (byte (unescape c))) = unescape c"
    by code_simp
  then show "c \<in> set ''abfnrtv'' \<Longrightarrow> ?thesis"
    by blast
qed

lemma js_step_encoding:
  assumes "js_encoding cp e"
  shows "e \<noteq> [] \<and> js_step room (e @ rest) = (codepoint_to_bytes cp, length e)"
proof -
  consider (basic) "cp < 0x10000" "\<not> (0xD800 \<le> cp \<and> cp \<le> 0xDFFF)" "e = utf16_escape (ucast cp)"
    | (pair) high low where "0x10000 \<le> cp" "cp \<le> UTF8_MAX_CODEPOINT" "e = utf16_escape high @ utf16_escape low"
        "0xD800 \<le> high \<and> high \<le> 0xDBFF" "0xDC00 \<le> low \<and> low \<le> 0xDFFF" "surrogate_pair high low = cp"
    | (hex) "cp \<le> 0x7F" "e = CHR 0x5C # CHR ''x'' # tl (percent (char32 cp))"
    | (char) c where "c \<in> set ''abfnrtv''" "e = [CHR 0x5C, c]" "cp = ucast (byte (unescape c))"
    | (plain) "cp \<le> 0x7F" "cp \<noteq> 0x5C" "e = [char32 cp]"
  proof (use assms in \<open>unfold js_encoding_def, elim disjE conjE bexE\<close>)
    assume cp: "cp \<le> UTF8_MAX_CODEPOINT" "\<not> (0xD800 \<le> cp \<and> cp \<le> 0xDFFF)" "e = utf16_escapes cp"
    show thesis
    proof (cases "cp < 0x10000")
      case True
      then have "e = utf16_escape (ucast cp)"
        using cp(3) by (simp only: utf16_escapes_def if_True)
      from basic [OF True cp(2) this] show thesis .
    next
      case False
      then have "0x10000 \<le> cp"
        by (simp only: not_less)
      from pair [OF this cp(1) _ surrogates [OF this cp(1)]] False cp(3) show thesis
        by (simp only: utf16_escapes_def if_False simp_thms)
    qed
  qed (use hex char plain in blast)+
  then show ?thesis
  proof cases
    case basic
    then have "unat cp < 65536"
      by (simp add: word_less_nat_alt)
    note small = ucast_small [OF this]
    have word: "word_at (drop 2 e @ rest) = Some (ucast cp)"
      unfolding basic(3) by (rule hex4_escape)
    have "(ucast cp :: u16) < 0xD800 \<or> (ucast cp :: u16) > 0xDBFF"
      using basic(2) small(1) by (auto simp: word_less_nat_alt word_le_nat_alt)
    then have "js_unicode room (drop 2 e @ rest) = (codepoint_to_bytes cp, 6)"
      by (simp add: js_unicode_def word small(2))
    moreover have e: "e @ rest = CHR 0x5C # CHR ''u'' # drop 2 e @ rest"
      unfolding basic(3) by (metis utf16_escape_shape(1) append_Cons)
    moreover have "js_step room (e @ rest) = js_unicode room (drop 2 e @ rest)"
      by (subst e) simp
    moreover have "length e = 6"
      using utf16_escape_shape(2) basic(3) by simp
    moreover from this have "e \<noteq> []"
      by auto
    ultimately show ?thesis
      by simp
  next
    case pair
    let ?t = "drop 2 (utf16_escape high) @ utf16_escape low @ rest"
    have word: "word_at ?t = Some high"
      by (rule hex4_escape)
    have l: "utf16_escape low @ rest = CHR 0x5C # CHR ''u'' # drop 2 (utf16_escape low) @ rest"
      by (metis utf16_escape_shape(1) append_Cons)
    have "low_at (utf16_escape low @ rest) = Some low"
      by (subst l) (simp only: low_at.simps simp_thms if_True hex4_escape)
    moreover have "drop 4 ?t = utf16_escape low @ rest"
      using utf16_escape_shape(2) [of high] by simp
    ultimately have "js_unicode room ?t = (codepoint_to_bytes cp, 12)"
      using pair(4-6) by (auto simp: js_unicode_def word)
    moreover have "e @ rest = CHR 0x5C # CHR ''u'' # ?t"
      unfolding pair(3) by (metis utf16_escape_shape(1) append_Cons append_assoc)
    moreover have "length e = 12"
      using utf16_escape_shape(2) pair(3) by simp
    moreover from this have "e \<noteq> []"
      by auto
    ultimately show ?thesis
      by simp
  next
    case hex
    with hex2_digits [of "char32 cp"] show ?thesis
      by (simp add: js_hex_def percent_def codepoint_to_bytes_def)
  next
    case char
    with unescape_ascii [OF char(1)] have "codepoint_to_bytes cp = [unescape c]"
      by (simp add: codepoint_to_bytes_def)
    with char show ?thesis
      by auto
  next
    case plain
    with plain_not_escape [of cp] show ?thesis
      by (cases rest) (simp_all add: codepoint_to_bytes_def)
  qed
qed


text \<open>A clef, U+1D11E, as a surrogate pair, and a new line.\<close>

definition clef :: "char list" where
  "clef = CHR 0x5C # ''uD834'' @ CHR 0x5C # ''uDD1E''"


end
