(* ===== verification/Xf_Html.thy ===== *)
theory Xf_Html
  imports Xf_Decode
begin

text \<open>
  The HTML decoder of \<open>src/PWTransformer.cpp\<close>: numeric and a few named character references.
  Its read-only call first sweeps for numeric references, then runs the main loop and stops at
  the first named reference.
\<close>

section \<open>The code\<close>

text \<open>
  The digits of a numeric reference, with the base's digit test, and the value; once the value is
  out of range the remaining digits are skipped.
\<close>

definition skip_while :: "(char \<Rightarrow> bool) \<Rightarrow> buf \<Rightarrow> nat \<Rightarrow> nat \<Rightarrow> nat option" where
  "skip_while digit = scan (\<lambda>c. \<not> digit c)"

partial_function (option) reference_loop ::
    "(char \<Rightarrow> bool) \<Rightarrow> (u32 \<Rightarrow> char \<Rightarrow> u32) \<Rightarrow> buf \<Rightarrow> nat \<Rightarrow> nat \<Rightarrow> u32 \<Rightarrow> (u32 \<times> nat) option" where
  "reference_loop digit grow a len read codePoint =
     (if read < len
      then do {
        c \<leftarrow> rd a read;
        if digit c then
          (let codePoint' = grow codePoint c in
           if codePoint' > 0x10FFFF
           then do { read' \<leftarrow> skip_while digit a len (read + 1); Some (codePoint', read') }
           else reference_loop digit grow a len (read + 1) codePoint')
        else Some (codePoint, read) }
      else Some (codePoint, read))"

declare reference_loop.simps [code]

definition more_hex :: "u32 \<Rightarrow> char \<Rightarrow> u32" where
  "more_hex v c = push_bit 4 v OR ucast (fromHex c)"

definition more_dec :: "u32 \<Rightarrow> char \<Rightarrow> u32" where
  "more_dec v c = v * 10 + (ucast (byte c) - 0x30)"

text \<open>\<open>replaceIfMatch\<close>: whether the token stands at the read head, in any case.\<close>

definition matches_token :: "buf \<Rightarrow> nat \<Rightarrow> nat \<Rightarrow> string \<Rightarrow> bool option" where
  "matches_token a len read token =
     (if len - read < length token then Some False
      else chk a (map (\<lambda>(i, t). (read + i, \<lambda>c. or20 c = t)) (enumerate 0 token)))"

primrec replace_first ::
    "buf \<Rightarrow> nat \<Rightarrow> nat \<Rightarrow> (string \<times> char) list \<Rightarrow> (char \<times> nat) option option" where
  "replace_first a len read [] = Some None"
| "replace_first a len read (t # ts) = do {
     m \<leftarrow> matches_token a len read (fst t);
     if m then Some (Some (snd t, length (fst t))) else replace_first a len read ts }"

definition html_names :: "(string \<times> char) list" where
  "html_names = [(''lt;'', CHR ''<''), (''gt;'', CHR ''>''), (''amp;'', CHR ''&''),
                 (''quot;'', CHR 0x22), (''nbsp;'', CHR 0xA0)]"

text \<open>The known name that stands after an ampersand, when a letter or a digit does.\<close>

definition html_named :: "buf \<Rightarrow> nat \<Rightarrow> nat \<Rightarrow> (char \<times> nat) option option" where
  "html_named a len read = do {
     c \<leftarrow> rd a read;
     if isalnum c then replace_first a len read html_names else Some None }"

text \<open>The numeric reference after \<open>&#\<close>: its value and where it ends, or none.\<close>

definition html_numeric :: "buf \<Rightarrow> nat \<Rightarrow> nat \<Rightarrow> (u32 \<times> nat) option option" where
  "html_numeric a len read = do {
     hex \<leftarrow> (if read < len - 1
             then chk a [(read, \<lambda>c. c = CHR ''x'' \<or> c = CHR ''X''), (read + 1, isxdigit)]
             else Some False);
     if hex then map_option Some (reference_loop isxdigit more_hex a len (read + 1) 0)
     else do {
       dec \<leftarrow> (if read < len then chk a [(read, isdigit)] else Some False);
       if dec then map_option Some (reference_loop isdigit more_dec a len read 0) else Some None } }"

definition html_body :: body where
  "html_body a len read write = do {
     c \<leftarrow> rd a read;
     if c \<noteq> CHR ''&'' \<or> read = len - 1 then Some ([c], 1)
     else do {
       d \<leftarrow> rd a (read + 1);
       if d = CHR ''#'' then do {
         ref \<leftarrow> html_numeric a len (read + 2);
         case ref of
           None \<Rightarrow> Some (''&#'', 2)
         | Some (codePoint, pos) \<Rightarrow> do {
             semi \<leftarrow> (if pos < len then chk a [(pos, eqc (CHR '';''))] else Some False);
             Some (write_codepoint codePoint (pos - write),
                   pos - read + (if semi then 1 else 0)) } }
       else do {
         name \<leftarrow> html_named a len (read + 1);
         case name of
           None \<Rightarrow> Some (''&'', 1)
         | Some (ch, k) \<Rightarrow> Some ([ch], 1 + k) } } }"

text \<open>The sweep of the read-only call; \<open>len\<close> is at least 3.\<close>

function html_sweep :: "buf \<Rightarrow> nat \<Rightarrow> nat \<Rightarrow> bool option" where
  "html_sweep a len read =
     (if read < len - 2
      then do {
        ref \<leftarrow> chk a [(read, eqc (CHR ''&'')), (read + 1, eqc (CHR ''#''))];
        if \<not> ref then html_sweep a len (read + 1)
        else do {
          c \<leftarrow> rd a (read + 2);
          if c = CHR ''x'' \<or> c = CHR ''X'' then do {
            hex \<leftarrow> (if read + 3 < len then chk a [(read + 3, isxdigit)] else Some False);
            if hex then Some True else html_sweep a len (read + 4) }
          else if isdigit c then Some True
          else html_sweep a len (read + 3) } }
      else Some False)"
  by pat_completeness auto
termination
  by (relation "measure (\<lambda>(a, len, read). len - read)") auto

declare html_sweep.simps [simp del]

text \<open>
  The main loop of the read-only call: it stores what it copies, and answers at the first named
  reference, whose replacement it takes back.
\<close>

partial_function (option) html_probe :: "buf \<Rightarrow> nat \<Rightarrow> nat \<Rightarrow> nat \<Rightarrow> (bool \<times> buf) option" where
  "html_probe a len read write =
     (if read < len
      then do {
        amp \<leftarrow> (if read \<noteq> len - 1 then chk a [(read, eqc (CHR ''&''))] else Some False);
        name \<leftarrow> (if amp then html_named a len (read + 1) else Some None);
        if name \<noteq> None then Some (True, a)
        else do {
          (out, k) \<leftarrow> html_body a len read write;
          a' \<leftarrow> wrs a write out;
          html_probe a' len (read + k) (write + length out) } }
      else Some (False, a))"

declare html_probe.simps [code]

definition transformDecodeHTML_lambda :: xform where
  "transformDecodeHTML_lambda a len readOnly =
     (if len < 3 then Some (if readOnly then False else len \<noteq> 0, a, len)
      else do {
        swept \<leftarrow> (if readOnly then html_sweep a len 0 else Some False);
        if swept then Some (True, a, len)
        else do {
          read \<leftarrow> scan (eqc (CHR ''&'')) a len 0;
          if readOnly
          then do { (b, a') \<leftarrow> html_probe a len read read; Some (b, a', len) }
          else finished len (body_loop html_body a len read read) } })"

section \<open>The step on lists\<close>

text \<open>The value of a run of digits; it stops growing when it is out of range.\<close>

primrec saturating :: "(u32 \<Rightarrow> char \<Rightarrow> u32) \<Rightarrow> u32 \<Rightarrow> char list \<Rightarrow> u32" where
  "saturating grow v [] = v"
| "saturating grow v (c # cs) =
     (let v' = grow v c in if v' > 0x10FFFF then v' else saturating grow v' cs)"

definition number_at :: "char list \<Rightarrow> (u32 \<times> nat) option" where
  "number_at s =
     (if 1 < length s \<and> (s ! 0 = CHR ''x'' \<or> s ! 0 = CHR ''X'') \<and> isxdigit (s ! 1)
      then (let ds = takeWhile isxdigit (tl s) in Some (saturating more_hex 0 ds, 1 + length ds))
      else if s \<noteq> [] \<and> isdigit (s ! 0)
      then (let ds = takeWhile isdigit s in Some (saturating more_dec 0 ds, length ds))
      else None)"

definition token_at :: "char list \<Rightarrow> string \<Rightarrow> bool" where
  "token_at s token \<longleftrightarrow> map or20 (take (length token) s) = token"

primrec first_token :: "char list \<Rightarrow> (string \<times> char) list \<Rightarrow> (char \<times> nat) option" where
  "first_token s [] = None"
| "first_token s (t # ts) = (if token_at s (fst t) then Some (snd t, length (fst t)) else first_token s ts)"

definition name_at :: "char list \<Rightarrow> (char \<times> nat) option" where
  "name_at s = (if s \<noteq> [] \<and> isalnum (hd s) then first_token s html_names else None)"

fun html_step :: step where
  "html_step room [] = ([], 1)"
| "html_step room [c] = ([c], 1)"
| "html_step room (c # d # s) =
     (if c \<noteq> CHR ''&'' then ([c], 1)
      else if d = CHR ''#'' then
        (case number_at s of
           None \<Rightarrow> (''&#'', 2)
         | Some (v, k) \<Rightarrow>
             (write_codepoint v (room + 2 + k),
              2 + k + (if k < length s \<and> s ! k = CHR '';'' then 1 else 0)))
      else
        (case name_at (d # s) of
           None \<Rightarrow> (''&'', 1)
         | Some (ch, k) \<Rightarrow> ([ch], 1 + k)))"

section \<open>The body of the loop is the step\<close>

lemma takeWhile_unread: "n \<le> length a \<Longrightarrow> p < n \<Longrightarrow>
   takeWhile P (unread a p n) = (if P (a ! p) then a ! p # takeWhile P (unread a (p + 1) n) else [])"
  by (simp add: unread_Cons)

lemma reference_loop_correct:
  assumes "n \<le> length a" "p \<le> n" "v \<le> 0x10FFFF"
  shows "reference_loop digit grow a n p v
    = Some (saturating grow v (takeWhile digit (unread a p n)), p + length (takeWhile digit (unread a p n)))"
  using assms
proof (induction "n - p" arbitrary: p v rule: less_induct)
  case less
  show ?case
  proof (cases "p < n \<and> digit (a ! p)")
    case True
    then have tw: "takeWhile digit (unread a p n) = a ! p # takeWhile digit (unread a (p + 1) n)"
      using less.prems by (simp add: takeWhile_unread)
    show ?thesis
    proof (cases "grow v (a ! p) > 0x10FFFF")
      case big: True
      have "skip_while digit a n (p + 1) = Some (p + 1 + length (takeWhile digit (unread a (p + 1) n)))"
        using True less.prems by (simp add: skip_while_def scan_correct)
      with True big tw less.prems show ?thesis
        by (subst reference_loop.simps) (simp add: Let_def)
    next
      case False
      have lt: "n - (p + 1) < n - p" and le: "p + 1 \<le> n"
        using True by linarith+
      have "reference_loop digit grow a n (p + 1) (grow v (a ! p))
          = Some (saturating grow (grow v (a ! p)) (takeWhile digit (unread a (p + 1) n)),
                  p + 1 + length (takeWhile digit (unread a (p + 1) n)))"
        using False by (intro less.hyps [OF lt less.prems(1) le]) (simp only: not_less)
      with True False tw less.prems show ?thesis
        by (subst reference_loop.simps) (simp add: Let_def)
    qed
  next
    case False
    with less.prems show ?thesis
      by (cases "p < n") (subst reference_loop.simps, simp add: takeWhile_unread)+
  qed
qed

lemma html_numeric_correct:
  assumes n: "n \<le> length a" and p: "p \<le> n" "1 \<le> n"
  shows "html_numeric a n p = Some (map_option (\<lambda>(v, k). (v, p + k)) (number_at (unread a p n)))"
proof -
  let ?s = "unread a p n"
  have hex: "(if p < n - 1 then chk a [(p, \<lambda>c. c = CHR ''x'' \<or> c = CHR ''X''), (p + 1, isxdigit)]
      else Some False)
    = Some (1 < length ?s \<and> (?s ! 0 = CHR ''x'' \<or> ?s ! 0 = CHR ''X'') \<and> isxdigit (?s ! 1))"
    using n p by (auto simp: unread_nth [of p 0, simplified] unread_nth [of p 1, simplified])
  have dec: "(if p < n then chk a [(p, isdigit)] else Some False) = Some (?s \<noteq> [] \<and> isdigit (?s ! 0))"
    using n by (cases "p < n") (auto simp: unread_Cons)
  have tl: "1 < length ?s \<Longrightarrow> tl ?s = unread a (p + 1) n"
    using n by (simp add: unread_Cons)
  show ?thesis
    unfolding html_numeric_def hex dec number_at_def
    using n p tl by (auto simp: reference_loop_correct Let_def)
qed

lemma chk_shift:
  "p + length ts \<le> length a \<Longrightarrow>
   chk a (map (\<lambda>(i, t). (p + i, \<lambda>c. or20 c = t)) (enumerate k ts))
     = Some (map or20 (take (length ts) (drop (p + k) a)) = ts)" if "p + k + length ts \<le> length a"
  using that
proof (induction ts arbitrary: k)
  case (Cons t ts)
  then have "drop (p + k) a = a ! (p + k) # drop (p + Suc k) a"
    by (simp add: Cons_nth_drop_Suc)
  with Cons show ?case
    by simp
qed simp

lemma matches_token_correct:
  assumes "n \<le> length a" "p \<le> n"
  shows "matches_token a n p token = Some (token_at (unread a p n) token)"
proof (cases "n - p < length token")
  case True
  then have "length (map or20 (take (length token) (unread a p n))) \<noteq> length token"
    using assms by simp
  with True show ?thesis
    unfolding matches_token_def token_at_def by metis
next
  case False
  then have "take (length token) (unread a p n) = take (length token) (drop p a)"
    using assms by (simp add: unread_def drop_take min_def)
  with False assms chk_shift [of p 0 token a] show ?thesis
    by (simp add: matches_token_def token_at_def)
qed

lemma html_named_correct:
  assumes "n \<le> length a" "p < n"
  shows "html_named a n p = Some (name_at (unread a p n))"
proof -
  have "replace_first a n p ts = Some (first_token (unread a p n) ts)" for ts
    using assms by (induction ts) (auto simp: matches_token_correct)
  with assms show ?thesis
    by (simp add: html_named_def name_at_def unread_Cons)
qed

lemma html_body_step:
  assumes "w \<le> r" "r < n" "n \<le> length a"
  shows "html_body a n r w = Some (html_step (r - w) (unread a r n))"
proof (cases "r = n - 1")
  case True
  then have "unread a r n = [a ! r]"
    using assms by (simp add: unread_Cons)
  with True assms show ?thesis
    by (simp add: html_body_def)
next
  case False
  let ?t = "unread a (r + 2) n"
  have s: "unread a r n = a ! r # a ! (r + 1) # ?t" and s1: "unread a (r + 1) n = a ! (r + 1) # ?t"
    using False assms by (simp_all add: unread_Cons)
  have c: "rd a r = Some (a ! r)" and d: "rd a (r + 1) = Some (a ! (r + 1))"
    using False assms by simp_all
  have numeric: "html_numeric a n (r + 2) = Some (map_option (\<lambda>(v, k). (v, r + 2 + k)) (number_at ?t))"
    using html_numeric_correct [of n a "r + 2"] False assms by simp
  have named: "html_named a n (r + 1) = Some (name_at (a ! (r + 1) # ?t))"
    using html_named_correct [of n a "r + 1"] False assms unfolding s1 by simp
  have semi: "(if r + 2 + k < n then chk a [(r + 2 + k, eqc (CHR '';''))] else Some False)
      = Some (k < length ?t \<and> ?t ! k = CHR '';'')" for k
    using assms by (auto simp: unread_nth)
  have room: "r + 2 + k - w = r - w + 2 + k" "r + 2 + k - r = 2 + k" for k
    using assms by simp_all
  show ?thesis
  proof (cases "a ! r = CHR ''&'' \<and> a ! (r + 1) = CHR ''#''")
    case True
    show ?thesis
    proof (cases "number_at ?t")
      case None
      with True False c d numeric show ?thesis
        unfolding s by (simp add: html_body_def)
    next
      case (Some ref)
      obtain v k where ref: "ref = (v, k)"
        by (cases ref)
      have num: "html_numeric a n (r + 2) = Some (Some (v, r + 2 + k))"
        unfolding numeric Some ref by simp
      show ?thesis
        unfolding html_body_def c d bind.bind_lunit num s html_step.simps Some ref
        using True False by (simp only: option.case prod.case semi bind.bind_lunit room simp_thms if_True if_False)
    qed
  next
    case no: False
    show ?thesis
      using no False c d named unfolding s
      by (cases "name_at (a ! (r + 1) # ?t)") (auto simp: html_body_def)
  qed
qed

section \<open>The mutable call\<close>

lemma number_fits:
  assumes "number_at s = Some (v, k)"
  shows "0 < k \<and> k \<le> length s \<and> length (write_codepoint v (room + 2 + k)) \<le> room + 2 + k"
proof -
  consider (hex) "1 < length s" "isxdigit (s ! 1)" "k = 1 + length (takeWhile isxdigit (tl s))"
    | (dec) c cs where "s = c # cs" "isdigit c" "k = Suc (length (takeWhile isdigit cs))"
        "v = saturating more_dec 0 (c # takeWhile isdigit cs)"
    using assms by (cases s) (auto simp: number_at_def Let_def split: if_splits)
  then show ?thesis
  proof cases
    case hex
    then have "takeWhile isxdigit (tl s) \<noteq> []"
      by (cases s; cases "tl s") auto
    then have "2 \<le> k"
      using hex(3) by (cases "takeWhile isxdigit (tl s)") auto
    moreover have "k \<le> length s"
      using hex length_takeWhile_le [of isxdigit "tl s"] by simp
    ultimately show ?thesis
      using length_write_codepoint [of v "room + 2 + k"] by linarith
  next
    case dec
    have k: "0 < k" "k \<le> length s"
      using dec length_takeWhile_le [of isdigit cs] by simp_all
    show ?thesis
    proof (cases "k = 1")
      case True
      have "\<forall>c. isdigit c \<longrightarrow> \<not> more_dec 0 c > 0x10FFFF \<and> take_bit 4 (more_dec 0 c) = more_dec 0 c"
        by code_simp
      with dec True have "take_bit (4 * 1) v = v"
        by (simp add: Let_def)
      from write_codepoint_fits [OF this, of "room + 2 + k"] k show ?thesis
        by simp
    next
      case False
      then have "2 \<le> k"
        using k by simp
      with k length_write_codepoint [of v "room + 2 + k"] show ?thesis
        by linarith
    qed
  qed
qed

lemma html_step_fits:
  "s \<noteq> [] \<Longrightarrow> 0 < snd (html_step room s) \<and>
     length (fst (html_step room s)) \<le> room + min (snd (html_step room s)) (length s)"
proof (induction room s rule: html_step.induct)
  case (3 room c d s)
  show ?case
  proof (cases "number_at s")
    case (Some ref)
    obtain v k where "ref = (v, k)"
      by (cases ref)
    with number_fits [of s v k room] Some show ?thesis
      by (auto split: option.splits)
  qed (auto split: option.splits)
qed simp_all

lemma html_body_loop_short: "length s < 3 \<Longrightarrow> decode html_step 0 s = s"
proof -
  have "first_token [d] html_names = None" for d
    by (simp add: html_names_def token_at_def)
  then have name: "name_at [d] = None" for d
    by (simp add: name_at_def)
  have one: "decode html_step room [d] = [d]" for room d
    by (subst decode.simps) simp
  assume "length s < 3"
  then consider (none) "s = []" | (one) c where "s = [c]" | (two) c d where "s = [c, d]"
    by (cases s; cases "tl s"; cases "tl (tl s)") auto
  then show ?thesis
  proof cases
    case (two c d)
    then show ?thesis
      by (subst decode.simps) (simp add: one name number_at_def)
  qed (simp_all add: one)
qed

text \<open>The main part of the mutable call, as a transformer of the usual shape.\<close>

definition html_core :: xform where
  "html_core a len readOnly = do {
     read \<leftarrow> scan (eqc (CHR ''&'')) a len 0;
     if readOnly then Some (read \<noteq> len, a, len)
     else finished len (body_loop html_body a len read read) }"

interpretation html_core: scan_transformer html_body html_step "scan (eqc (CHR ''&''))"
  "\<lambda>s. s ! 0 = CHR ''&''" html_core "\<lambda>r n. r \<noteq> n"
proof
  fix a :: buf and n r
  assume "r < n" "n \<le> length a"
  then show "scan (eqc (CHR ''&'')) a n r
      = (if unread a r n ! 0 = CHR ''&'' then Some r else scan (eqc (CHR ''&'')) a n (Suc r))"
    by (subst scan.simps) (simp add: unread_Cons)
next
  fix a :: buf and n r
  show "n \<le> r \<Longrightarrow> scan (eqc (CHR ''&'')) a n r = Some r"
    by (subst scan.simps) simp
next
  fix c cs
  show "(c # cs) ! 0 \<noteq> CHR ''&'' \<Longrightarrow> html_step 0 (c # cs) = ([c], 1)"
    by (cases cs) simp_all
qed (use html_step_fits html_body_step html_core_def in \<open>auto\<close>)

lemma html_mutate:
  assumes "n \<le> length a"
  shows "\<exists>ok a' n'. transformDecodeHTML_lambda a n False = Some (ok, a', n') \<and> n' \<le> n \<and>
    length a' = length a \<and> take n' a' = decode html_step 0 (take n a)"
proof (cases "n < 3")
  case True
  then show ?thesis
    using assms by (auto simp: transformDecodeHTML_lambda_def html_body_loop_short)
next
  case False
  then have "transformDecodeHTML_lambda a n False = html_core a n False"
    by (simp add: transformDecodeHTML_lambda_def html_core_def)
  with html_core.mutate [OF assms] html_core.in_place [OF assms] show ?thesis
    by metis
qed

text \<open>
  A code point as a decimal reference, and any character but the ampersand as it stands.
\<close>

definition html_encoding :: "u32 \<Rightarrow> char list \<Rightarrow> bool" where
  "html_encoding cp e \<longleftrightarrow>
     (storable cp = cp \<and> e = ''&#'' @ dec_nat (unat cp) @ '';'')
     \<or> (cp \<le> 0x7F \<and> cp \<noteq> 0x26 \<and> e = [char32 cp])
     \<or> (cp, e) \<in> {(0x3C, ''&lt;''), (0x3E, ''&gt;''), (0x26, ''&amp;''), (0x22, ''&quot;'')}"

lemma saturating_snoc:
  "saturating grow v cs \<le> 0x10FFFF \<Longrightarrow> saturating grow v (cs @ [c]) = grow (saturating grow v cs) c"
  by (induction cs arbitrary: v) (auto simp: Let_def split: if_splits)

lemma dec_char: "d < 10 \<Longrightarrow> isdigit (char_of (48 + d)) \<and>
   more_dec (of_nat m) (char_of (48 + d)) = of_nat (10 * m + d)" for d m :: nat
proof -
  have "\<forall>d \<in> set [0..<10]. isdigit (char_of (48 + d)) \<and> ucast (byte (char_of (48 + d))) - 0x30 = (of_nat d :: u32)"
    by code_simp
  then show "d < 10 \<Longrightarrow> ?thesis"
    by (simp add: more_dec_def mult.commute)
qed

lemma dec_nat_value:
  "n \<le> 0x10FFFF \<Longrightarrow> list_all isdigit (dec_nat n) \<and> dec_nat n \<noteq> [] \<and> saturating more_dec 0 (dec_nat n) = of_nat n"
proof (induction n rule: dec_nat.induct)
  case (1 n)
  have le: "(of_nat k :: u32) \<le> 0x10FFFF" if "k \<le> 0x10FFFF" for k
    using that by (simp add: word_le_nat_alt unsigned_of_nat take_bit_nat_eq_self)
  show ?case
  proof (cases "n < 10")
    case True
    have "n \<le> 0x10FFFF"
      using "1.prems" .
    from dec_char [OF True, of 0] le [OF this] True show ?thesis
      by (subst (1 2 3) dec_nat.simps) (simp add: Let_def)
  next
    case False
    have m: "n mod 10 < 10"
      by simp
    have "n div 10 \<le> 0x10FFFF"
      using "1.prems" div_le_dividend [of n 10] by linarith
    from "1.IH" [OF False this] have IH: "list_all isdigit (dec_nat (n div 10))"
      "saturating more_dec 0 (dec_nat (n div 10)) = of_nat (n div 10)"
      by simp_all
    moreover have "10 * (n div 10) + n mod 10 = n"
      by simp
    moreover have "saturating more_dec 0 (dec_nat (n div 10)) \<le> 0x10FFFF"
      unfolding IH(2) by (rule le) fact
    ultimately have "saturating more_dec 0 (dec_nat (n div 10) @ [char_of (48 + n mod 10)]) = of_nat n"
      using dec_char [OF m, of "n div 10"] by (simp only: saturating_snoc)
    with False IH(1) dec_char [OF m] show ?thesis
      by (subst (1 2 3) dec_nat.simps) simp
  qed
qed

lemma html_step_encoding:
  assumes "html_encoding cp e"
  shows "e \<noteq> [] \<and> html_step room (e @ rest) = (codepoint_to_bytes cp, length e)"
proof -
  consider (ref) "storable cp = cp" "e = ''&#'' @ dec_nat (unat cp) @ '';''"
    | (plain) "cp \<le> 0x7F" "cp \<noteq> 0x26" "e = [char32 cp]"
    | (name) "(cp, e) \<in> {(0x3C, ''&lt;''), (0x3E, ''&gt;''), (0x26, ''&amp;''), (0x22, ''&quot;'')}"
    using assms by (auto simp: html_encoding_def)
  then show ?thesis
  proof cases
    case ref
    let ?ds = "dec_nat (unat cp)"
    have "unat cp \<le> 0x10FFFF"
      using storable_le [of cp] ref(1) by (simp add: word_le_nat_alt)
    from dec_nat_value [OF this] have ds: "list_all isdigit ?ds" "?ds \<noteq> []" "saturating more_dec 0 ?ds = cp"
      by simp_all
    have "takeWhile isdigit (?ds @ CHR '';'' # rest) = ?ds"
      using ds(1) by (simp add: takeWhile_append2 list_all_iff isdigit_def)
    moreover obtain c cs where "?ds = c # cs" "isdigit c"
      using ds(1,2) by (cases ?ds) auto
    moreover from this have "c \<noteq> CHR ''x''" "c \<noteq> CHR ''X''"
      by (auto simp: isdigit_def)
    ultimately have "number_at (?ds @ CHR '';'' # rest) = Some (cp, length ?ds)"
      using ds(3) by (simp add: number_at_def Let_def)
    moreover have "2 < room + 2 + length ?ds"
      using ds(2) by simp
    ultimately show ?thesis
      using ref by (simp add: write_codepoint_storable)
  next
    case plain
    have "char32 cp \<noteq> CHR ''&''"
    proof
      assume "char32 cp = CHR ''&''"
      then have "ucast (byte (char32 cp)) = (0x26 :: u32)"
        by (simp add: byte_def)
      with ascii_byte [OF plain(1)] plain(2) show False
        by simp
    qed
    with plain show ?thesis
      by (cases rest) (simp_all add: codepoint_to_bytes_def)
  next
    case name
    have "map or20 ''lt;'' = ''lt;''" "map or20 ''gt;'' = ''gt;''" "map or20 ''amp;'' = ''amp;''"
      "map or20 ''quot;'' = ''quot;''" "codepoint_to_bytes 0x3C = ''<''" "codepoint_to_bytes 0x3E = ''>''"
      "codepoint_to_bytes 0x26 = ''&''" "codepoint_to_bytes 0x22 = [CHR 0x22]"
      "list_all isalnum ''lgaq''"
      by code_simp+
    with name show ?thesis
      by (auto simp: name_at_def token_at_def html_names_def)
  qed
qed



section \<open>The read-only call\<close>

text \<open>
  The sweep skips one character too many after \<open>&#\<close> and \<open>&#x\<close> that no digit follows: a
  numeric reference that starts right there is missed, and the main loop then takes it for
  nothing to report. The read-only call answers false on a string that the transformation
  changes, and has already stored the decoded character in the caller's buffer.
\<close>

theorem html_probe_misses:
  "transformDecodeHTML_lambda ''&#&#65;'' 7 True = Some (False, ''&#A#65;'', 7)
     \<and> decode html_step 0 ''&#&#65;'' = ''&#A''"
  by code_simp

end
