(* ===== verification/Xf_Base64.thy ===== *)
theory Xf_Base64
  imports Xf_Decode
begin

text \<open>
  The base64 transformers of \<open>src/PWTransformer.cpp\<close>: the two decoders, which share
  \<open>decodeBase64\<close> and differ in their read-only call, and the encoder, which allocates a new
  string.
\<close>

section \<open>Decoding\<close>

text \<open>The table \<open>b64Reverse\<close>; the entries -1 are \<open>0xFF\<close>.\<close>

definition b64Reverse :: "char \<Rightarrow> u8" where
  "b64Reverse c =
     (if is_upper c then byte c - 0x41
      else if is_lower c then byte c - 0x61 + 26
      else if isdigit c then byte c - 0x30 + 52
      else if c = CHR ''+'' then 62
      else if c = CHR ''/'' then 63
      else if c = CHR ''='' then 64
      else 0xFF)"

definition b64_valid :: "char \<Rightarrow> bool" where
  "b64_valid c \<longleftrightarrow> b64Reverse c AND 0x40 = 0"

text \<open>The next valid characters, at most four in all, and where reading stopped.\<close>

function b64_gather :: "buf \<Rightarrow> nat \<Rightarrow> nat \<Rightarrow> u8 list \<Rightarrow> (u8 list \<times> nat) option" where
  "b64_gather a len read quartet =
     (if length quartet < 4 \<and> read < len
      then do {
        c \<leftarrow> rd a read;
        b64_gather a len (Suc read) (if b64_valid c then quartet @ [b64Reverse c] else quartet) }
      else Some (quartet, read))"
  by pat_completeness auto
termination
  by (relation "measure (\<lambda>(a, len, read, quartet). len - read)") auto

declare b64_gather.simps [simp del]

text \<open>The bytes stored for the sextets read; missing sextets are zero.\<close>

definition coalesce :: "u8 list \<Rightarrow> u32" where
  "coalesce quartet = (let q = quartet @ replicate 4 0 in
     push_bit 18 (ucast (q ! 0)) OR push_bit 12 (ucast (q ! 1)) OR push_bit 6 (ucast (q ! 2)) OR ucast (q ! 3))"

definition b64_bytes :: "u8 list \<Rightarrow> char list" where
  "b64_bytes quartet =
     (let v = coalesce quartet; pos = length quartet;
          b0 = ucast (drop_bit 16 v) :: u8;
          b1 = ucast (drop_bit 8 v AND 0xFF) :: u8;
          b2 = ucast (v AND 0xFF) :: u8 in
      if pos = 4 then [to_char b0, to_char b1, to_char b2]
      else if pos \<noteq> 0 then
        [to_char b0]
        @ (if pos > 1 \<and> (b1 \<noteq> 0 \<or> b2 \<noteq> 0) then [to_char b1] else [])
        @ (if pos > 2 \<and> b2 \<noteq> 0 then [to_char b2] else [])
      else [])"

definition b64_body :: body where
  "b64_body a len read write = do {
     (quartet, read') \<leftarrow> b64_gather a len read [];
     Some (b64_bytes quartet, read' - read) }"

definition decodeBase64 :: "buf \<Rightarrow> nat \<Rightarrow> (bool \<times> buf \<times> nat) option" where
  "decodeBase64 a len = finished len (body_loop b64_body a len 0 0)"

text \<open>The read-only calls.\<close>

definition b64_char :: "char \<Rightarrow> bool" where
  "b64_char c \<longleftrightarrow> isalnum c \<or> c = CHR ''+'' \<or> c = CHR ''/''"

function rfc4648_check :: "buf \<Rightarrow> nat \<Rightarrow> nat \<Rightarrow> bool option" where
  "rfc4648_check a len pos =
     (if pos < len
      then do {
        c \<leftarrow> rd a pos;
        if b64_char c then rfc4648_check a len (Suc pos)
        else if c = CHR ''='' then do {
          end \<leftarrow> scan (\<lambda>c. c \<noteq> CHR ''='') a len pos;
          let equalCount = end - pos; maxPaddingNeeded = 4 - pos mod 4 in
          if end = len \<and> equalCount \<le> 3 \<and> equalCount \<le> maxPaddingNeeded
          then rfc4648_check a len (Suc pos)
          else Some False }
        else Some False }
      else Some True)"
  by pat_completeness auto
termination
  by (relation "measure (\<lambda>(a, len, pos). len - pos)") auto

function rfc2045_count :: "buf \<Rightarrow> nat \<Rightarrow> nat \<Rightarrow> nat \<Rightarrow> nat option" where
  "rfc2045_count a len pos validChars =
     (if pos < len
      then do {
        c \<leftarrow> rd a pos;
        if b64_char c then rfc2045_count a len (Suc pos) (Suc validChars)
        else if c = CHR ''='' then do {
          end \<leftarrow> scan (\<lambda>c. c \<noteq> CHR ''='') a len (Suc pos);
          let equalCount = end - pos; minPaddingNeeded = 4 - validChars mod 4 in
          if end = len
          then Some (if minPaddingNeeded = 4 \<or> minPaddingNeeded \<le> equalCount
                     then validChars + equalCount else validChars)
          else rfc2045_count a len end validChars }
        else rfc2045_count a len (Suc pos) validChars }
      else Some validChars)"
  by pat_completeness auto
termination
  by (relation "measure (\<lambda>(a, len, pos, validChars). len - pos)") (auto dest!: scan_ge)

declare rfc4648_check.simps [simp del] rfc2045_count.simps [simp del]

definition transformDecodeBase64RFC4648_lambda :: xform where
  "transformDecodeBase64RFC4648_lambda a len readOnly =
     (if \<not> readOnly then decodeBase64 a len
      else do { ok \<leftarrow> rfc4648_check a len 0; Some (ok, a, len) })"

definition transformDecodeBase64RFC2045_lambda :: xform where
  "transformDecodeBase64RFC2045_lambda a len readOnly =
     (if \<not> readOnly then decodeBase64 a len
      else do { validChars \<leftarrow> rfc2045_count a len 0 0; Some (validChars \<noteq> 0 \<and> validChars mod 4 = 0, a, len) })"

section \<open>Encoding\<close>

definition b64Encoding :: string where
  "b64Encoding = ''ABCDEFGHIJKLMNOPQRSTUVWXYZabcdefghijklmnopqrstuvwxyz0123456789+-''"

definition b64_code :: "u8 \<Rightarrow> char" where
  "b64_code w = b64Encoding ! unat w"

definition quartet_of :: "u8 \<Rightarrow> u8 \<Rightarrow> u8 \<Rightarrow> u8 list" where
  "quartet_of x y z =
     [drop_bit 2 x, push_bit 4 (x AND 0x3) OR drop_bit 4 y, push_bit 2 (y AND 0xF) OR drop_bit 6 z, z AND 0x3F]"

function b64_encode_loop :: "buf \<Rightarrow> nat \<Rightarrow> nat \<Rightarrow> buf \<Rightarrow> nat \<Rightarrow> (nat \<times> buf \<times> nat) option" where
  "b64_encode_loop old originalLength read new write =
     (if read + 2 < originalLength
      then do {
        x \<leftarrow> rd old read;
        y \<leftarrow> rd old (read + 1);
        z \<leftarrow> rd old (read + 2);
        new' \<leftarrow> wrs new write (map b64_code (quartet_of (byte x) (byte y) (byte z)));
        b64_encode_loop old originalLength (read + 3) new' (write + 4) }
      else Some (read, new, write))"
  by pat_completeness auto
termination
  by (relation "measure (\<lambda>(old, originalLength, read, new, write). originalLength - read)") auto

declare b64_encode_loop.simps [simp del]

abbreviation UINT64_MAX :: nat where "UINT64_MAX \<equiv> 18446744073709551615"

text \<open>The bytes left over, one or two of them, padded.\<close>

definition b64_encode_rest :: "buf \<Rightarrow> nat \<Rightarrow> nat \<Rightarrow> buf \<Rightarrow> nat \<Rightarrow> (buf \<times> nat) option" where
  "b64_encode_rest old originalLength read new write =
     (if read \<noteq> originalLength
      then do {
        x \<leftarrow> rd old read;
        y \<leftarrow> (if read + 1 = originalLength then Some NUL else rd old (read + 1));
        let q = quartet_of (byte x) (byte y) 0 in do {
          new' \<leftarrow> wrs new write
                 [b64_code (q ! 0), b64_code (q ! 1),
                  (if read + 1 \<noteq> originalLength then b64_code (q ! 2) else CHR ''=''), CHR ''=''];
          Some (new', write + 4) } }
      else Some (new, write))"

definition transformEncodeBase64 ::
    "(nat \<Rightarrow> bool) \<Rightarrow> ddwaf_object \<Rightarrow> bool \<Rightarrow> (bool \<times> ddwaf_object) option" where
  "transformEncodeBase64 alloc parameter readOnly =
     (case payload parameter of
        Str (Some old) originalLength \<Rightarrow>
          if originalLength = 0 \<or> originalLength \<ge> UINT64_MAX div 4 * 3 then Some (False, parameter)
          else if readOnly then Some (True, parameter)
          else (let encodedLength = (originalLength + 2) div 3 * 4 in
            if \<not> alloc (encodedLength + 1) then Some (False, parameter)
            else do {
              (read, new, write) \<leftarrow>
                b64_encode_loop old originalLength 0 (replicate (encodedLength + 1) NUL) 0;
              (new', write') \<leftarrow> b64_encode_rest old originalLength read new write;
              new'' \<leftarrow> wr new' write' NUL;
              Some (True, Obj (parameterName parameter) (Str (Some new'') write')) })
      | _ \<Rightarrow> Some (False, parameter))"

section \<open>Decoding on lists\<close>

fun b64_take :: "u8 list \<Rightarrow> char list \<Rightarrow> u8 list \<times> nat" where
  "b64_take q [] = (q, 0)"
| "b64_take q (c # cs) =
     (if length q < 4
      then (let (q', k) = b64_take (if b64_valid c then q @ [b64Reverse c] else q) cs in (q', Suc k))
      else (q, 0))"

definition b64_step :: step where
  "b64_step room s = (let (q, k) = b64_take [] s in (b64_bytes q, k))"

lemma b64_gather_correct:
  "n \<le> length a \<Longrightarrow> b64_gather a n r q
     = Some (case b64_take q (unread a r n) of (q', k) \<Rightarrow> (q', r + k))"
proof (induction "n - r" arbitrary: r q rule: less_induct)
  case less
  show ?case
  proof (cases "r < n")
    case True
    then show ?thesis
      using less.hyps [of "Suc r"] less.prems
      by (subst b64_gather.simps) (auto simp: unread_Cons split: prod.splits)
  next
    case False
    then show ?thesis
      by (subst b64_gather.simps) simp
  qed
qed

lemma b64_take_bounds:
  "b64_take q s = (q', k) \<Longrightarrow> k \<le> length s \<and> length q' \<le> length q + k \<and>
     (s \<noteq> [] \<and> length q < 4 \<longrightarrow> 0 < k)"
  by (induction q s arbitrary: q' k rule: b64_take.induct) (fastforce split: prod.splits if_splits)+

lemma length_b64_bytes: "length (b64_bytes q) \<le> length q"
proof -
  have "length (b64_bytes q) \<le> 3"
    by (simp add: b64_bytes_def Let_def)
  moreover have "length (b64_bytes q) \<le> length q" if "length q < 3"
    using that by (cases q; cases "tl q") (auto simp: b64_bytes_def Let_def)
  ultimately show ?thesis
    by linarith
qed

interpretation b64: stepper b64_body b64_step
proof
  fix s :: "char list" and room
  assume "s \<noteq> []"
  moreover obtain q k where q: "b64_take [] s = (q, k)"
    by (cases "b64_take [] s")
  ultimately show "0 < snd (b64_step room s)"
    "length (fst (b64_step room s)) \<le> room + min (snd (b64_step room s)) (length s)"
    using b64_take_bounds [OF q] length_b64_bytes [of q] by (simp_all add: b64_step_def)
next
  fix a :: buf and n r w
  assume "w \<le> r" "r < n" "n \<le> length a"
  then show "b64_body a n r w = Some (b64_step (r - w) (unread a r n))"
    by (simp add: b64_body_def b64_step_def b64_gather_correct split: prod.splits)
qed

lemma decodeBase64_leaves:
  assumes "n \<le> length a"
  shows "leaves (decodeBase64 a n) a n (decode b64_step 0 (take n a))"
  unfolding decodeBase64_def
proof (rule finished_leaves)
  show "outputs (body_loop b64_body a n 0 0) a 0 (decode b64_step 0 (take n a))"
    using b64.loop_outputs [of 0 0 a n] assms by simp
  show "length (decode b64_step 0 (take n a)) \<le> n"
    using b64.length_decode [of 0 "take n a"] assms by simp
qed (use assms in simp_all)

lemma rfc4648_safe: "n \<le> length a \<Longrightarrow> p \<le> n \<Longrightarrow> \<exists>b. rfc4648_check a n p = Some b"
proof (induction "n - p" arbitrary: p rule: less_induct)
  case less
  show ?case
  proof (cases "p < n")
    case True
    then have "n - Suc p < n - p" "Suc p \<le> n"
      by simp_all
    then obtain b where "rfc4648_check a n (Suc p) = Some b"
      using less.hyps less.prems(1) by blast
    with True less.prems show ?thesis
      by (subst rfc4648_check.simps) (simp add: scan_correct Let_def ex_bool_eq)
  next
    case False
    then show ?thesis
      by (subst rfc4648_check.simps) (simp add: ex_bool_eq)
  qed
qed

lemma rfc2045_safe: "n \<le> length a \<Longrightarrow> p \<le> n \<Longrightarrow> \<exists>b. rfc2045_count a n p v = Some b"
proof (induction "n - p" arbitrary: p v rule: less_induct)
  case less
  show ?case
  proof (cases "p < n")
    case True
    have IH: "\<exists>b. rfc2045_count a n q v = Some b" if "p < q" "q \<le> n" for q v
      using less.hyps [of q] that less.prems by auto
    obtain e where e: "scan (\<lambda>c. c \<noteq> CHR ''='') a n (Suc p) = Some e" "Suc p \<le> e" "e \<le> n"
      using length_takeWhile_le [of "\<lambda>c. c = CHR ''=''" "unread a (Suc p) n"] True less.prems
      by (auto simp: scan_correct)
    with True less.prems IH [of "Suc p"] IH [of e] show ?thesis
      by (subst rfc2045_count.simps) (auto simp: Let_def)
  next
    case False
    then show ?thesis
      by (subst rfc2045_count.simps) simp
  qed
qed

section \<open>Encoding on lists\<close>

fun b64_encode :: "char list \<Rightarrow> char list" where
  "b64_encode [] = []"
| "b64_encode [x] = (let q = quartet_of (byte x) 0 0 in [b64_code (q ! 0), b64_code (q ! 1), CHR ''='', CHR ''=''])"
| "b64_encode [x, y] =
     (let q = quartet_of (byte x) (byte y) 0 in
      [b64_code (q ! 0), b64_code (q ! 1), b64_code (q ! 2), CHR ''=''])"
| "b64_encode (x # y # z # s) = map b64_code (quartet_of (byte x) (byte y) (byte z)) @ b64_encode s"

lemma length_b64_encode: "length (b64_encode s) = (length s + 2) div 3 * 4"
proof (induction s rule: b64_encode.induct)
  case (4 x y z s)
  have "(length s + 2 + 3) div 3 = (length s + 2) div 3 + 1"
    by (rule div_add_self2) simp
  with 4 show ?case
    by (simp add: quartet_of_def)
qed (simp_all add: Let_def)

lemma byte_NUL [simp]: "byte NUL = 0"
  by (simp add: byte_def)

text \<open>The loop and the rest together store the encoding of what is left to read.\<close>

lemma b64_encode_correct:
  assumes "n \<le> length a" "r \<le> n" "w + length (b64_encode (unread a r n)) < length new"
  shows "\<exists>new'. do { (r', new1, w1) \<leftarrow> b64_encode_loop a n r new w; b64_encode_rest a n r' new1 w1 }
      = Some (new', w + length (b64_encode (unread a r n))) \<and> length new' = length new \<and>
    take (w + length (b64_encode (unread a r n))) new' = take w new @ b64_encode (unread a r n)"
  using assms
proof (induction "n - r" arbitrary: r w new rule: less_induct)
  case less
  show ?case
  proof (cases "r + 2 < n")
    case True
    let ?q = "map b64_code (quartet_of (byte (a ! r)) (byte (a ! (r + 1))) (byte (a ! (r + 2))))"
    have u: "unread a r n = a ! r # a ! (r + 1) # a ! (r + 2) # unread a (r + 3) n"
      using True less.prems by (simp add: unread_Cons numeral_eq_Suc)
    have q: "length ?q = 4"
      by (simp add: quartet_of_def)
    have "w + length ?q \<le> length new"
      using less.prems(3) unfolding u by simp
    then obtain new1 where new1: "wrs new w ?q = Some new1" "length new1 = length new"
      "take (w + length ?q) new1 = take w new @ ?q"
      by (rule wrs_ex)
    note new1 = new1(1,2) new1(3) [unfolded q]
    have rd: "rd a r = Some (a ! r)" "rd a (r + 1) = Some (a ! (r + 1))" "rd a (r + 2) = Some (a ! (r + 2))"
      using True less.prems by simp_all
    have step: "b64_encode_loop a n r new w = b64_encode_loop a n (r + 3) new1 (w + 4)"
      using True rd new1(1) by (subst b64_encode_loop.simps) simp
    have len: "length (b64_encode (unread a r n)) = 4 + length (b64_encode (unread a (r + 3) n))"
      unfolding u using q by simp
    have "n - (r + 3) < n - r" "r + 3 \<le> n" "w + 4 + length (b64_encode (unread a (r + 3) n)) < length new1"
      using True less.prems len new1(2) by simp_all
    then obtain new' where "do { (r', new1, w1) \<leftarrow> b64_encode_loop a n (r + 3) new1 (w + 4); b64_encode_rest a n r' new1 w1 }
        = Some (new', w + 4 + length (b64_encode (unread a (r + 3) n)))" "length new' = length new1"
      "take (w + 4 + length (b64_encode (unread a (r + 3) n))) new'
        = take (w + 4) new1 @ b64_encode (unread a (r + 3) n)"
      using less.hyps less.prems(1) by blast
    then show ?thesis
      unfolding step len using new1 u by (simp add: add.assoc)
  next
    case False
    then have loop: "b64_encode_loop a n r new w = Some (r, new, w)"
      by (subst b64_encode_loop.simps) simp
    have store: "\<exists>new'. wrs new w cs = Some new' \<and> length new' = length new \<and> take (w + length cs) new' = take w new @ cs"
      if "w + length cs < length new" for cs
      using wrs_ex [of w cs new] that by (metis order.strict_implies_order)
    consider "r = n" | "r + 1 = n" | "r + 2 = n"
      using False less.prems by linarith
    then show ?thesis
    proof cases
      case 1
      with loop show ?thesis
        by (simp add: b64_encode_rest_def)
    next
      case 2
      then have u: "unread a r n = [a ! r]"
        using less.prems by (simp add: unread_Cons)
      with 2 loop less.prems store [of "b64_encode [a ! r]"] show ?thesis
        by (auto simp: b64_encode_rest_def Let_def)
    next
      case 3
      then have u: "unread a r n = [a ! r, a ! (r + 1)]"
        using less.prems by (simp add: unread_Cons)
      with 3 loop less.prems store [of "b64_encode [a ! r, a ! (r + 1)]"] show ?thesis
        by (auto simp: b64_encode_rest_def Let_def)
    qed
  qed
qed

section \<open>Decoding what was encoded\<close>

lemma b64_code_valid:
  "unat w < 63 \<Longrightarrow> b64_valid (b64_code w) \<and> b64Reverse (b64_code w) = w \<and> b64_code w \<noteq> CHR ''-''"
  "unat w = 63 \<Longrightarrow> b64_code w = CHR ''-''"
proof -
  have all: "\<forall>w \<in> set (map of_nat [0..<63]).
      b64_valid (b64_code w) \<and> b64Reverse (b64_code w) = w \<and> b64_code w \<noteq> CHR ''-''"
    by code_simp
  then show "unat w < 63 \<Longrightarrow> b64_valid (b64_code w) \<and> b64Reverse (b64_code w) = w \<and> b64_code w \<noteq> CHR ''-''"
  proof -
    assume "unat w < 63"
    then have "w \<in> set (map of_nat [0..<63])"
      by (auto intro!: image_eqI [of _ _ "unat w"])
    with all show ?thesis
      by blast
  qed
  assume "unat w = 63"
  then show "b64_code w = CHR ''-''"
    by (simp add: b64_code_def b64Encoding_def)
qed

lemma six_bits_lt: "take_bit 6 w = w \<Longrightarrow> unat w < 64" for w :: u8
proof -
  assume "take_bit 6 w = w"
  then have "unat w = take_bit 6 (unat w)"
    by (metis unsigned_take_bit_eq)
  then have "unat w < 2 ^ 6"
    by (metis take_bit_nat_less_exp)
  then show ?thesis
    by simp
qed

lemma masks_u8: "w AND 0x3 = take_bit 2 w" "w AND 0xF = take_bit 4 w" "w AND 0x3F = take_bit 6 w" for w :: u8
  by (simp_all add: take_bit_eq_mask mask_eq_exp_minus_1)

lemma quartet_small: "v \<in> set (quartet_of x y z) \<Longrightarrow> unat v < 64"
proof -
  have "take_bit 6 (drop_bit 2 x) = drop_bit 2 x"
    "take_bit 6 (push_bit 4 (take_bit 2 x) OR drop_bit 4 y) = push_bit 4 (take_bit 2 x) OR drop_bit 4 y"
    "take_bit 6 (push_bit 2 (take_bit 4 y) OR drop_bit 6 z) = push_bit 2 (take_bit 4 y) OR drop_bit 6 z"
    "take_bit 6 (take_bit 6 z) = take_bit 6 z"
    by (rule bit_word_eqI; auto simp: bit_simps dest: bit_imp_le_length)+
  then show "v \<in> set (quartet_of x y z) \<Longrightarrow> unat v < 64"
    by (auto simp: quartet_of_def masks_u8 intro: six_bits_lt)
qed

lemma quartet_code:
  assumes "v \<in> set (quartet_of x y z)" "b64_code v \<noteq> CHR ''-''"
  shows "b64_valid (b64_code v)" "b64Reverse (b64_code v) = v"
proof -
  have "unat v < 63"
    using quartet_small [OF assms(1)] b64_code_valid(2) [of v] assms(2) by force
  then show "b64_valid (b64_code v)" "b64Reverse (b64_code v) = v"
    using b64_code_valid(1) by blast+
qed

lemma quartet_nth: "i < 4 \<Longrightarrow> quartet_of x y z ! i \<in> set (quartet_of x y z)"
  by (rule nth_mem) (simp add: quartet_of_def)

lemma coalesce_quartet:
  fixes x y z :: u8
  defines "v \<equiv> coalesce (quartet_of x y z)"
  shows "ucast (drop_bit 16 v) = x" "ucast (drop_bit 8 v AND 0xFF) = y" "ucast (v AND 0xFF) = z"
proof -
  have v: "v = push_bit 18 (ucast (drop_bit 2 x)) OR push_bit 12 (ucast (push_bit 4 (take_bit 2 x) OR drop_bit 4 y))
      OR push_bit 6 (ucast (push_bit 2 (take_bit 4 y) OR drop_bit 6 z)) OR ucast (take_bit 6 z)"
    by (simp add: v_def coalesce_def quartet_of_def masks_u8)
  have i2: "\<not> i < 2 \<Longrightarrow> Suc (Suc (i - 2)) = i" for i :: nat
    by simp
  have ff: "w AND 0xFF = take_bit 8 w" for w :: u32
    by (simp add: take_bit_eq_mask mask_eq_exp_minus_1)
  have "bit (ucast (drop_bit 16 v) :: u8) i = bit x i" if "i < LENGTH(8)" for i
    using that unfolding v by (cases "i < 2") (auto simp: bit_simps i2 dest: bit_imp_le_length)
  then show "ucast (drop_bit 16 v) = x"
    by (rule bit_word_eqI)
  have "bit (ucast (take_bit 8 (drop_bit 8 v)) :: u8) i = bit y i" if "i < LENGTH(8)" for i
    using that unfolding v by (cases "i < 4") (auto simp: bit_simps i2 dest: bit_imp_le_length)
  then show "ucast (drop_bit 8 v AND 0xFF) = y"
    unfolding ff by (rule bit_word_eqI)
  have "bit (ucast (take_bit 8 v) :: u8) i = bit z i" if "i < LENGTH(8)" for i
    using that unfolding v by (cases "i < 6") (auto simp: bit_simps i2 dest: bit_imp_le_length)
  then show "ucast (v AND 0xFF) = z"
    unfolding ff by (rule bit_word_eqI)
qed

lemma b64_take_full: "length q = 4 \<Longrightarrow> b64_take q s = (q, 0)"
  by (cases s) simp_all

lemma b64_take_codes:
  assumes "\<forall>v \<in> set vs. b64_valid (b64_code v) \<and> b64Reverse (b64_code v) = v" "length q + length vs \<le> 4"
  shows "b64_take q (map b64_code vs @ rest) = (case b64_take (q @ vs) rest of (q', k) \<Rightarrow> (q', length vs + k))"
  using assms
proof (induction vs arbitrary: q)
  case (Cons v vs)
  then have "b64_valid (b64_code v)" "b64Reverse (b64_code v) = v" "length q < 4"
    "b64_take (q @ [v]) (map b64_code vs @ rest)
       = (case b64_take (q @ v # vs) rest of (q', k) \<Rightarrow> (q', length vs + k))"
    using Cons.IH [of "q @ [v]"] by simp_all
  then show ?case
    by (cases "b64_take (q @ v # vs) rest") simp
qed simp

text \<open>What decoding the encoding of a string gives: a final null byte is lost after two bytes.\<close>

definition b64_kept :: "char list \<Rightarrow> char list" where
  "b64_kept s = (if length s mod 3 = 2 \<and> last s = NUL then butlast s else s)"

lemma equals_invalid: "\<not> b64_valid (CHR ''='')"
  by code_simp

lemma b64_kept_Cons3: "b64_kept (x # y # z # s) = x # y # z # b64_kept s"
proof -
  have len: "length (x # y # z # s) = length s + 3"
    by simp
  show ?thesis
    unfolding b64_kept_def len mod_add_self2 by (cases "s = []") simp_all
qed

lemma decode_b64_encode:
  "CHR ''-'' \<notin> set (b64_encode s) \<Longrightarrow> decode b64_step room (b64_encode s) = b64_kept s"
proof (induction s arbitrary: room rule: b64_encode.induct)
  case 1
  then show ?case by (simp add: b64_kept_def)
next
  case (2 x)
  let ?q = "quartet_of (byte x) 0 0"
  have shape: "?q = [?q ! 0, ?q ! 1, 0, 0]"
    by (simp add: quartet_of_def)
  have enc: "b64_encode [x] = [b64_code (?q ! 0), b64_code (?q ! 1), CHR ''='', CHR ''='']"
    by (simp only: b64_encode.simps Let_def)
  have "\<forall>v \<in> set [?q ! 0, ?q ! 1]. b64_code v \<noteq> CHR ''-''"
    using 2 unfolding enc by auto
  then have "\<forall>v \<in> set [?q ! 0, ?q ! 1]. b64_valid (b64_code v) \<and> b64Reverse (b64_code v) = v"
    using quartet_code [OF quartet_nth [of 0]] quartet_code [OF quartet_nth [of 1]] by simp
  from b64_take_codes [OF this, of "[]" "''==''"] have take:
    "b64_take [] (b64_encode [x]) = ([?q ! 0, ?q ! 1], 4)"
    by (simp add: Let_def equals_invalid)
  have "coalesce [?q ! 0, ?q ! 1] = coalesce ?q"
    by (subst (3) shape) (simp add: coalesce_def)
  then have "b64_bytes [?q ! 0, ?q ! 1] = [x]"
    by (simp add: b64_bytes_def coalesce_quartet Let_def)
  with take have "b64_step room (b64_encode [x]) = ([x], 4)" for room
    by (simp add: b64_step_def)
  then show ?case
    by (subst decode.simps) (simp add: Let_def b64_kept_def)
next
  case (3 x y)
  let ?q = "quartet_of (byte x) (byte y) 0"
  have shape: "?q = [?q ! 0, ?q ! 1, ?q ! 2, 0]"
    by (simp add: quartet_of_def)
  have enc: "b64_encode [x, y] = [b64_code (?q ! 0), b64_code (?q ! 1), b64_code (?q ! 2), CHR ''='']"
    by (simp only: b64_encode.simps Let_def)
  have "\<forall>v \<in> set [?q ! 0, ?q ! 1, ?q ! 2]. b64_code v \<noteq> CHR ''-''"
    using 3 unfolding enc by auto
  then have "\<forall>v \<in> set [?q ! 0, ?q ! 1, ?q ! 2]. b64_valid (b64_code v) \<and> b64Reverse (b64_code v) = v"
    using quartet_code [OF quartet_nth [of 0]] quartet_code [OF quartet_nth [of 1]]
      quartet_code [OF quartet_nth [of 2]] by simp
  from b64_take_codes [OF this, of "[]" "''=''"] have take:
    "b64_take [] (b64_encode [x, y]) = ([?q ! 0, ?q ! 1, ?q ! 2], 4)"
    by (simp add: Let_def equals_invalid)
  have "coalesce [?q ! 0, ?q ! 1, ?q ! 2] = coalesce ?q"
    by (subst (4) shape) (simp add: coalesce_def)
  then have "b64_bytes [?q ! 0, ?q ! 1, ?q ! 2] = (if y = NUL then [x] else [x, y])"
    using byte_inject [of y NUL] by (simp add: b64_bytes_def coalesce_quartet Let_def)
  with take have "b64_step room (b64_encode [x, y]) = (if y = NUL then [x] else [x, y], 4)" for room
    by (simp add: b64_step_def)
  then show ?case
    by (subst decode.simps) (simp add: Let_def b64_kept_def)
next
  case (4 x y z s)
  let ?q = "quartet_of (byte x) (byte y) (byte z)"
  have len: "length ?q = 4"
    by (simp add: quartet_of_def)
  have "\<forall>v \<in> set ?q. b64_valid (b64_code v) \<and> b64Reverse (b64_code v) = v"
    using "4.prems" quartet_code [of _ "byte x" "byte y" "byte z"]
    by (metis UnCI b64_encode.simps(4) image_eqI list.set_map set_append)
  from b64_take_codes [OF this, of "[]" "b64_encode s"] len have
    "b64_take [] (b64_encode (x # y # z # s)) = (?q, 4)"
    by (simp add: b64_take_full)
  moreover have "b64_bytes ?q = [x, y, z]"
    using len by (simp add: b64_bytes_def coalesce_quartet Let_def)
  ultimately have "b64_step room (b64_encode (x # y # z # s)) = ([x, y, z], 4)" for room
    by (simp add: b64_step_def)
  moreover have "b64_encode (x # y # z # s) \<noteq> []"
    using len by auto
  moreover have "drop 4 (b64_encode (x # y # z # s)) = b64_encode s"
    using len by simp
  ultimately show ?case
    using "4.IH" "4.prems" by (subst decode.simps) (simp del: b64_encode.simps add: b64_kept_Cons3, simp)
qed

lemma encode_object:
  assumes "n \<le> length a" "0 < n" "n < UINT64_MAX div 4 * 3" "\<forall>k. alloc k"
  shows "\<exists>b. transformEncodeBase64 alloc (Obj key (Str (Some a) n)) False
      = Some (True, Obj key (Str (Some b) (length (b64_encode (take n a)))))
    \<and> length (b64_encode (take n a)) \<le> length b \<and>
    take (length (b64_encode (take n a))) b = b64_encode (take n a)"
proof -
  let ?e = "b64_encode (take n a)" and ?size = "(n + 2) div 3 * 4 + 1"
  have len: "length ?e = (n + 2) div 3 * 4"
    using length_b64_encode [of "take n a"] assms(1) by simp
  obtain b where b: "do { (r', new1, w1) \<leftarrow> b64_encode_loop a n 0 (replicate ?size NUL) 0;
      b64_encode_rest a n r' new1 w1 } = Some (b, length ?e)" "length b = ?size" "take (length ?e) b = ?e"
    using b64_encode_correct [of n a 0 0 "replicate ?size NUL"] assms(1) len by auto
  let ?b = "b[length ?e := NUL]"
  have wr: "wr b (length ?e) NUL = Some ?b"
    using b(2) len by simp
  have guard: "\<not> (n = 0 \<or> n \<ge> UINT64_MAX div 4 * 3)"
    using assms(2,3) by linarith
  obtain r new w where loop: "b64_encode_loop a n 0 (replicate ?size NUL) 0 = Some (r, new, w)"
    and rest: "b64_encode_rest a n r new w = Some (b, length ?e)"
    using b(1) by (auto simp: bind_eq_Some_conv)
  have "transformEncodeBase64 alloc (Obj key (Str (Some a) n)) False
      = Some (True, Obj key (Str (Some ?b) (length ?e)))"
    unfolding transformEncodeBase64_def ddwaf_object.sel obj_value.case option.case if_not_P [OF guard] Let_def
      loop bind.bind_lunit prod.case rest wr
    using assms(4) by simp
  then show ?thesis
    using b(2,3) len by auto
qed



text \<open>The alphabets of the two directions differ in their last character.\<close>

theorem base64_alphabet_mismatch:
  "b64_encode [CHR 0xFF, CHR 0xFF, CHR 0xFF] = ''----'' \<and> decode b64_step 0 ''----'' = []"
  by code_simp

text \<open>C27: The read-only calls of both base64 decoders read only the string, whatever it holds, and
  leave it alone.\<close>

theorem base64_probe_safe:
  assumes "n \<le> length a"
  shows "(\<exists>b. transformDecodeBase64RFC4648_lambda a n True = Some (b, a, n))
    \<and> (\<exists>b. transformDecodeBase64RFC2045_lambda a n True = Some (b, a, n))"
proof -
  obtain b v where "rfc4648_check a n 0 = Some b" "rfc2045_count a n 0 0 = Some v"
    using rfc4648_safe [OF assms, of 0] rfc2045_safe [OF assms, of 0 0] by auto
  then show ?thesis
    by (simp add: transformDecodeBase64RFC4648_lambda_def transformDecodeBase64RFC2045_lambda_def)
qed

theorem base64_probe_safe_witness:
  "\<exists>b. transformDecodeBase64RFC4648_lambda ''QUI='' 4 True = Some (b, ''QUI='', 4)"
  using base64_probe_safe [of 4 "''QUI=''"] by simp

end
