(* ===== verification/Xf_Command.thy ===== *)
theory Xf_Command
  imports Xf_Steps
begin

text \<open>
  The transformers for command lines and for comments of \<open>src/PWTransformer.cpp\<close>.
\<close>

section \<open>Command lines\<close>

text \<open>The character tests: what is removed, what counts as a space, and what ends a space.\<close>

definition cmd_removed :: "char \<Rightarrow> bool" where
  "cmd_removed c \<longleftrightarrow> c = CHR 0x5C \<or> c = CHR 0x22 \<or> c = CHR 0x27 \<or> c = CHR ''^''"

definition cmd_space :: "char \<Rightarrow> bool" where
  "cmd_space c \<longleftrightarrow> isspace c \<or> c = CHR '','' \<or> c = CHR '';''"

definition cmd_next_space :: "char \<Rightarrow> bool" where
  "cmd_next_space c \<longleftrightarrow> isspace c \<or> c = CHR '','' \<or> c = CHR '';'' \<or> c = CHR ''('' \<or> c = CHR ''/''"

text \<open>The first loop; the read-only call answers true exactly where it breaks.\<close>

definition cmd_stop :: "buf \<Rightarrow> nat \<Rightarrow> nat \<Rightarrow> bool option" where
  "cmd_stop a len read = do {
     c \<leftarrow> rd a read;
     multi \<leftarrow> (if read + 1 < len
               then do {
                 nextC \<leftarrow> rd a (read + 1);
                 Some (c = CHR '','' \<or> c = CHR '';'' \<or> (isspace c \<and> cmd_next_space nextC)) }
               else Some False);
     Some (multi \<or> cmd_removed c \<or> is_upper c) }"

definition cmd_body :: body where
  "cmd_body a len read write = do {
     c \<leftarrow> rd a read;
     if cmd_removed c then Some ([], 1)
     else if cmd_space c then do {
       isNextSpace \<leftarrow> (if read + 1 < len then chk a [(read + 1, cmd_next_space)] else Some False);
       Some (if isNextSpace then [] else [CHR '' ''], 1) }
     else if is_upper c then Some ([or20 c], 1)
     else Some ([c], 1) }"

definition transformCmdLine_lambda :: xform where
  "transformCmdLine_lambda a len readOnly = do {
     read \<leftarrow> scan_at cmd_stop a len 0;
     if readOnly then Some (read \<noteq> len, a, len)
     else finished len (body_loop cmd_body a len read read) }"

fun cmd_step :: step where
  "cmd_step room [] = ([], 1)"
| "cmd_step room (c # cs) =
     (if cmd_removed c then []
      else if cmd_space c then (if cs \<noteq> [] \<and> cmd_next_space (hd cs) then [] else [CHR '' ''])
      else if is_upper c then [or20 c] else [c], 1)"

fun cmd_stops :: "char list \<Rightarrow> bool" where
  "cmd_stops [] = False"
| "cmd_stops (c # cs) \<longleftrightarrow>
     (cs \<noteq> [] \<and> (c = CHR '','' \<or> c = CHR '';'' \<or> (isspace c \<and> cmd_next_space (hd cs))))
     \<or> cmd_removed c \<or> is_upper c"

interpretation cmdline: forward_transformer cmd_body cmd_step "scan_at cmd_stop" cmd_stops
  transformCmdLine_lambda "\<lambda>r n. r \<noteq> n"
proof
  fix s :: "char list" and room
  assume "s \<noteq> []"
  then show "0 < snd (cmd_step room s)"
    "length (fst (cmd_step room s)) \<le> room + min (snd (cmd_step room s)) (length s)"
    by (cases s; simp)+
next
  fix a :: buf and n r w
  assume *: "r < n" "n \<le> length a"
  then show "cmd_body a n r w = Some (cmd_step (r - w) (unread a r n))"
    by (cases "r + 1 < n") (auto simp: cmd_body_def unread_Cons)
  have "cmd_stop a n r = Some (cmd_stops (unread a r n))"
    using * by (cases "r + 1 < n") (auto simp: cmd_stop_def unread_Cons)
  with * show "scan_at cmd_stop a n r
      = (if cmd_stops (unread a r n) then Some r else scan_at cmd_stop a n (Suc r))"
    by (simp add: scan_at_stop)
qed (simp_all add: scan_at_end transformCmdLine_lambda_def)

text \<open>
  A tab alone between words is not compressed when nothing before it stops the first loop, but
  it is when something does.
\<close>

lemma cmdline_lone_tab:
  "transformCmdLine_lambda (''ls'' @ CHR 0x09 # ''B'') 4 False = Some (True, ''ls'' @ CHR 0x09 # ''b'', 4)"
  "transformCmdLine_lambda (''LS'' @ CHR 0x09 # ''B'') 4 False = Some (True, ''ls b'', 4)"
  by code_simp+

section \<open>Comments\<close>

datatype comment_type = COMMENT_UNKNOWN | COMMENT_HTML | COMMENT_SHELL | COMMENT_SQL | COMMENT_C

text \<open>
  The first inner loop: copy up to the start of a comment. In the read-only call nothing is
  stored. The test for a SQL comment looks at the same character twice.
\<close>

function comment_start ::
    "buf \<Rightarrow> nat \<Rightarrow> bool \<Rightarrow> nat \<Rightarrow> nat \<Rightarrow> (comment_type \<times> buf \<times> nat \<times> nat) option" where
  "comment_start a len readOnly read write =
     (if read < len
      then do {
        c \<leftarrow> rd a read;
        html \<leftarrow> (if c = CHR ''<'' \<and> read + 3 < len
                 then chk a [(read + 1, eqc (CHR ''!'')), (read + 2, eqc (CHR ''-'')), (read + 3, eqc (CHR ''-''))]
                 else Some False);
        star \<leftarrow> (if c = CHR ''/'' \<and> read + 1 < len then chk a [(read + 1, eqc (CHR ''*''))] else Some False);
        if html then Some (COMMENT_HTML, a, read + 4, write)
        else if c = CHR ''-'' \<and> read + 1 < len \<and> c = CHR ''-'' then Some (COMMENT_SQL, a, read, write)
        else if c = CHR ''#'' then Some (COMMENT_SHELL, a, read, write)
        else if star then Some (COMMENT_C, a, read + 2, write)
        else if readOnly then comment_start a len readOnly (read + 1) write
        else do { a' \<leftarrow> wr a write c; comment_start a' len readOnly (read + 1) (write + 1) } }
      else Some (COMMENT_UNKNOWN, a, read, write))"
  by pat_completeness auto
termination
  by (relation "measure (\<lambda>(a, len, readOnly, read, write). len - read)") auto

text \<open>The second inner loop: find the terminator; \<open>memchr\<close> is \<open>scan\<close>.\<close>

function comment_end :: "buf \<Rightarrow> nat \<Rightarrow> comment_type \<Rightarrow> nat \<Rightarrow> nat option" where
  "comment_end a len type read =
     (if read < len
      then if type = COMMENT_HTML then do {
        token \<leftarrow> scan (eqc (CHR ''-'')) a len read;
        if token = len then Some len
        else do {
          fin \<leftarrow> (if token + 2 < len then chk a [(token + 1, eqc (CHR ''-'')), (token + 2, eqc (CHR ''>''))]
                 else Some False);
          if fin then Some (token + 3) else comment_end a len type (token + 1) } }
      else if type = COMMENT_C then do {
        token \<leftarrow> scan (eqc (CHR ''*'')) a len read;
        if token = len then Some len
        else do {
          fin \<leftarrow> (if token + 1 < len then chk a [(token + 1, eqc (CHR ''/''))] else Some False);
          if fin then Some (token + 2) else comment_end a len type (token + 1) } }
      else Some len
      else Some read)"
  by pat_completeness auto
termination
  by (relation "measure (\<lambda>(a, len, type, read). len - read)") (auto dest!: scan_ge)

declare comment_start.simps [simp del] comment_end.simps [simp del]

text \<open>The outer loop; an iteration that did not move the read head would not end.\<close>

partial_function (option) comment_loop :: "buf \<Rightarrow> nat \<Rightarrow> nat \<Rightarrow> nat \<Rightarrow> (buf \<times> nat) option" where
  "comment_loop a len read write =
     (if read < len
      then do {
        (type, a', read', write') \<leftarrow> comment_start a len False read write;
        if type = COMMENT_SHELL \<or> type = COMMENT_SQL then Some (a', write')
        else do {
          read'' \<leftarrow> comment_end a' len type read';
          comment_loop a' len read'' write' } }
      else Some (a, write))"

declare comment_loop.simps [code]

definition transformRemoveComments_lambda :: xform where
  "transformRemoveComments_lambda a len readOnly =
     (if readOnly then
        (if len = 0 then Some (False, a, len)
         else do {
           (type, a', read, write) \<leftarrow> comment_start a len True 0 0;
           Some (type \<noteq> COMMENT_UNKNOWN, a', len) })
      else finished len (comment_loop a len 0 0))"

text \<open>What is kept before the first comment, its kind, and what follows its opening.\<close>

fun comment_split :: "char list \<Rightarrow> char list \<times> comment_type \<times> char list" where
  "comment_split [] = ([], COMMENT_UNKNOWN, [])"
| "comment_split (c # cs) =
     (if take 4 (c # cs) = ''<!--'' then ([], COMMENT_HTML, drop 3 cs)
      else if c = CHR ''-'' \<and> cs \<noteq> [] then ([], COMMENT_SQL, c # cs)
      else if c = CHR ''#'' then ([], COMMENT_SHELL, c # cs)
      else if take 2 (c # cs) = ''/*'' then ([], COMMENT_C, tl cs)
      else (case comment_split cs of (kept, t, rest) \<Rightarrow> (c # kept, t, rest)))"

text \<open>What follows the first terminator.\<close>

fun after_first :: "char list \<Rightarrow> char list \<Rightarrow> char list" where
  "after_first t [] = []"
| "after_first t (c # cs) = (if take (length t) (c # cs) = t then drop (length t) (c # cs) else after_first t cs)"

definition after_comment :: "comment_type \<Rightarrow> char list \<Rightarrow> char list" where
  "after_comment type s =
     (if type = COMMENT_HTML then after_first ''-->'' s
      else if type = COMMENT_C then after_first ''*/'' s else [])"

lemma length_comment_split: "comment_split s = (kept, t, rest) \<Longrightarrow> length kept + length rest \<le> length s \<and>
    (t = COMMENT_HTML \<or> t = COMMENT_C \<longrightarrow> length rest < length s)"
proof (induction s arbitrary: kept t rest)
  case (Cons c cs)
  then show ?case
    by (auto split: if_splits prod.splits)
qed simp

lemma length_after_first: "length (after_first t s) \<le> length s"
  by (induction t s rule: after_first.induct) auto

lemma length_after_comment: "length (after_comment t s) \<le> length s"
  by (simp add: after_comment_def length_after_first)

function strip_comments :: "char list \<Rightarrow> char list" where
  "strip_comments s =
     (case comment_split s of (kept, t, rest) \<Rightarrow>
        if t = COMMENT_HTML \<or> t = COMMENT_C then kept @ strip_comments (after_comment t rest) else kept)"
  by pat_completeness auto
termination
proof (relation "measure length")
  fix s kept x t rest
  assume "(kept, x) = comment_split s" "(t, rest) = x" "t = COMMENT_HTML \<or> t = COMMENT_C"
  then have "length rest < length s"
    using length_comment_split [of s kept t rest] by auto
  then show "(after_comment t rest, s) \<in> measure length"
    using length_after_comment [of t rest] by simp
qed simp

declare strip_comments.simps [simp del]

section \<open>The loops are the list functions\<close>

lemma unread_take:
  assumes "n \<le> length a" "r < n"
  shows "take 2 (unread a r n) = [c, d] \<longleftrightarrow> r + 1 < n \<and> a ! r = c \<and> a ! (r + 1) = d"
    and "take 3 (unread a r n) = [c, d, e] \<longleftrightarrow> r + 2 < n \<and> a ! r = c \<and> a ! (r + 1) = d \<and> a ! (r + 2) = e"
    and "take 4 (unread a r n) = [c, d, e, f] \<longleftrightarrow>
      r + 3 < n \<and> a ! r = c \<and> a ! (r + 1) = d \<and> a ! (r + 2) = e \<and> a ! (r + 3) = f"
  using assms by (cases "r + 1 < n"; cases "r + 2 < n"; cases "r + 3 < n"; auto simp: unread_Cons numeral_eq_Suc)+

lemma comment_tests:
  assumes "n \<le> length a" "r < n"
  shows "(if a ! r = CHR ''<'' \<and> r + 3 < n
      then chk a [(r + 1, eqc (CHR ''!'')), (r + 2, eqc (CHR ''-'')), (r + 3, eqc (CHR ''-''))]
      else Some False) = Some (take 4 (unread a r n) = ''<!--'')"
    and "(if a ! r = CHR ''/'' \<and> r + 1 < n then chk a [(r + 1, eqc (CHR ''*''))] else Some False)
      = Some (take 2 (unread a r n) = ''/*'')"
    and "(if r + 2 < n then chk a [(r + 1, eqc (CHR ''-'')), (r + 2, eqc (CHR ''>''))] else Some False)
      = Some (r + 2 < n \<and> a ! (r + 1) = CHR ''-'' \<and> a ! (r + 2) = CHR ''>'')"
    and "(if r + 1 < n then chk a [(r + 1, eqc (CHR ''/''))] else Some False)
      = Some (r + 1 < n \<and> a ! (r + 1) = CHR ''/'')"
  unfolding unread_take [OF assms] using assms by auto

lemma comment_start_correct:
  assumes "w \<le> r" "r \<le> n" "n \<le> length a" "comment_split (unread a r n) = (kept, t, rest)"
  shows "\<exists>a' r'. comment_start a n False r w = Some (t, a', r', w + length kept) \<and> length a' = length a \<and>
    take (w + length kept) a' = take w a @ kept \<and> unread a' r' n = rest \<and> r + length kept \<le> r' \<and> r' \<le> n"
  using assms
proof (induction "n - r" arbitrary: a r w kept rest rule: less_induct)
  case less
  let ?s = "unread a r n"
  show ?case
  proof (cases "r < n")
    case False
    with less.prems show ?thesis
      by (subst comment_start.simps) auto
  next
    case True
    note tests = comment_tests [OF less.prems(3) True]
    have s: "?s = a ! r # unread a (Suc r) n"
      using True less.prems by (simp add: unread_Cons)
    have rd: "rd a r = Some (a ! r)" and ne: "unread a (Suc r) n \<noteq> [] \<longleftrightarrow> r + 1 < n"
      using True less.prems by (cases "Suc r < n"; simp add: unread_Cons)+
    have unf: "comment_start a n False r w =
       (if take 4 ?s = ''<!--'' then Some (COMMENT_HTML, a, r + 4, w)
        else if a ! r = CHR ''-'' \<and> r + 1 < n \<and> a ! r = CHR ''-'' then Some (COMMENT_SQL, a, r, w)
        else if a ! r = CHR ''#'' then Some (COMMENT_SHELL, a, r, w)
        else if take 2 ?s = ''/*'' then Some (COMMENT_C, a, r + 2, w)
        else do { a' \<leftarrow> wr a w (a ! r); comment_start a' n False (r + 1) (w + 1) })"
      using True by (subst comment_start.simps) (simp only: rd bind.bind_lunit tests if_True if_False)
    consider (html) "take 4 ?s = ''<!--''"
      | (sql) "take 4 ?s \<noteq> ''<!--''" "a ! r = CHR ''-''" "r + 1 < n"
      | (shell) "take 4 ?s \<noteq> ''<!--''" "a ! r = CHR ''#''"
      | (c) "take 4 ?s \<noteq> ''<!--''" "a ! r \<noteq> CHR ''#''" "a ! r \<noteq> CHR ''-''" "take 2 ?s = ''/*''"
      | (copy) "take 4 ?s \<noteq> ''<!--''" "\<not> (a ! r = CHR ''-'' \<and> r + 1 < n)" "a ! r \<noteq> CHR ''#''" "take 2 ?s \<noteq> ''/*''"
      using unread_take(1) [OF less.prems(3) True] by auto
    then show ?thesis
    proof cases
      case html
      then have r: "r + 3 < n"
        by (simp add: unread_take [OF less.prems(3) True])
      have "comment_start a n False r w = Some (COMMENT_HTML, a, r + 4, w)"
        using html by (simp add: unf)
      moreover have "kept = []" "t = COMMENT_HTML" "rest = drop 4 ?s"
        using less.prems(4) html unfolding s by simp_all
      ultimately show ?thesis
        using r by (simp add: unread_drop)
    next
      case sql
      have "comment_start a n False r w = Some (COMMENT_SQL, a, r, w)"
        using sql by (simp add: unf)
      moreover have "kept = []" "t = COMMENT_SQL" "rest = ?s"
        using less.prems(4) sql ne unfolding s by (simp_all split: if_splits)
      ultimately show ?thesis
        using True by simp
    next
      case shell
      then have "a ! r \<noteq> CHR ''-''"
        by simp
      then have "comment_start a n False r w = Some (COMMENT_SHELL, a, r, w)"
        using shell by (simp add: unf)
      moreover have "kept = []" "t = COMMENT_SHELL" "rest = ?s"
        using less.prems(4) shell unfolding s by (simp_all split: if_splits)
      ultimately show ?thesis
        using True by simp
    next
      case c
      then have r: "r + 1 < n"
        by (simp add: unread_take [OF less.prems(3) True])
      have "comment_start a n False r w = Some (COMMENT_C, a, r + 2, w)"
        using c by (simp add: unf)
      moreover have "kept = []" "t = COMMENT_C" "rest = drop 2 ?s"
        using less.prems(4) c unfolding s by (simp_all split: if_splits add: drop_Suc)
      ultimately show ?thesis
        using r by (simp add: unread_drop)
    next
      case copy
      let ?a = "a[w := a ! r]"
      have "comment_start a n False r w = comment_start ?a n False (r + 1) (w + 1)"
        using True copy less.prems unfolding unf by auto
      moreover obtain kept' where kept': "kept = a ! r # kept'" "comment_split (unread a (Suc r) n) = (kept', t, rest)"
        using less.prems(4) copy ne unfolding s by (auto split: prod.splits if_splits)
      moreover have "unread ?a (Suc r) n = unread a (Suc r) n"
        using less.prems by simp
      moreover have "n - (r + 1) < n - r"
        using True by simp
      ultimately show ?thesis
        using less.hyps [of "r + 1" "w + 1" ?a kept' rest] True less.prems(1-3) by auto
    qed
  qed
qed

lemma after_first_skip:
  assumes "t = c # t'"
  shows "after_first t s = after_first t (dropWhile (\<lambda>d. d \<noteq> c) s)"
  by (induction s) (auto simp: assms)

lemma after_first_unread:
  assumes "q < n" "n \<le> length a" "length t = m"
  shows "after_first t (unread a q n) =
    (if take m (unread a q n) = t then unread a (q + m) n else after_first t (unread a (q + 1) n))"
proof -
  have u: "unread a q n = a ! q # unread a (q + 1) n"
    using assms by (simp add: unread_Cons)
  have "after_first t (a ! q # cs) =
      (if take m (a ! q # cs) = t then drop m (a ! q # cs) else after_first t cs)" for cs
    by (simp only: after_first.simps assms(3))
  from this [of "unread a (q + 1) n", folded u] show ?thesis
    by (simp only: unread_drop)
qed

text \<open>Both terminators are found the same way.\<close>

lemma scan_to:
  assumes "n \<le> length a" "r \<le> n"
  obtains q where "scan (eqc c) a n r = Some q" "r \<le> q" "q \<le> n" "q < n \<longrightarrow> a ! q = c"
    "after_first (c # t) (unread a r n) = after_first (c # t) (unread a q n)"
proof -
  let ?t = "takeWhile (\<lambda>d. d \<noteq> c) (unread a r n)"
  define q where "q = r + length ?t"
  have q: "q \<le> n"
    using length_takeWhile_le [of "\<lambda>d. d \<noteq> c" "unread a r n"] assms by (simp add: q_def)
  have u: "unread a q n = dropWhile (\<lambda>d. d \<noteq> c) (unread a r n)"
    by (simp add: q_def dropWhile_eq_drop unread_drop)
  have "a ! q = c" if "q < n"
  proof -
    have "unread a q n = a ! q # unread a (Suc q) n"
      using that assms by (simp add: unread_Cons)
    then show ?thesis
      using hd_dropWhile [of "\<lambda>d. d \<noteq> c" "unread a r n"] unfolding u [symmetric] by simp
  qed
  moreover have "scan (eqc c) a n r = Some q"
    using assms by (simp add: scan_correct q_def)
  ultimately show ?thesis
    using that [of q] q after_first_skip [of "c # t" c t "unread a r n"] by (simp add: q_def u [unfolded q_def])
qed

lemma comment_end_correct:
  assumes "r \<le> n" "n \<le> length a" "t = COMMENT_HTML \<or> t = COMMENT_C"
  shows "\<exists>r'. comment_end a n t r = Some r' \<and> r \<le> r' \<and> r' \<le> n \<and> unread a r' n = after_comment t (unread a r n)"
  using assms
proof (induction "n - r" arbitrary: r rule: less_induct)
  case less
  show ?case
  proof (cases "r < n")
    case False
    with less.prems show ?thesis
      by (subst comment_end.simps) (auto simp: after_comment_def)
  next
    case True
    have IH: "\<exists>r'. comment_end a n t q = Some r' \<and> q \<le> r' \<and> r' \<le> n \<and> unread a r' n = after_comment t (unread a q n)"
      if "r < q" "q \<le> n" for q
      using less.hyps [of q] that less.prems by auto
    show ?thesis
    proof (cases "t = COMMENT_HTML")
      case html: True
      obtain q where q: "scan (eqc (CHR ''-'')) a n r = Some q" "r \<le> q" "q \<le> n" "q < n \<longrightarrow> a ! q = CHR ''-''"
        "after_first ''-->'' (unread a r n) = after_first ''-->'' (unread a q n)"
        using scan_to [OF less.prems(2,1)] .
      show ?thesis
      proof (cases "q < n")
        case False
        with q True html show ?thesis
          by (subst comment_end.simps) (simp add: after_comment_def)
      next
        case qn: True
        let ?fin = "q + 2 < n \<and> a ! (q + 1) = CHR ''-'' \<and> a ! (q + 2) = CHR ''>''"
        have fin: "take 3 (unread a q n) = ''-->'' \<longleftrightarrow> ?fin"
          using unread_take(2) [OF less.prems(2) qn] q(4) qn by auto
        have step: "comment_end a n t r = (if ?fin then Some (q + 3) else comment_end a n t (q + 1))"
          using True html q(1) qn comment_tests(3) [OF less.prems(2) qn]
          by (subst comment_end.simps) (simp del: chk.simps)
        have af: "after_first ''-->'' (unread a q n)
            = (if ?fin then unread a (q + 3) n else after_first ''-->'' (unread a (q + 1) n))"
          using after_first_unread [OF qn less.prems(2), of "''-->''" 3] by (simp only: fin) simp
        show ?thesis
        proof (cases ?fin)
          case True
          with step af q html show ?thesis
            by (simp add: after_comment_def)
        next
          case False
          with IH [of "q + 1"] step af q html qn show ?thesis
            by (auto simp: after_comment_def)
        qed
      qed
    next
      case False
      then have c: "t = COMMENT_C"
        using less.prems(3) by simp
      obtain q where q: "scan (eqc (CHR ''*'')) a n r = Some q" "r \<le> q" "q \<le> n" "q < n \<longrightarrow> a ! q = CHR ''*''"
        "after_first ''*/'' (unread a r n) = after_first ''*/'' (unread a q n)"
        using scan_to [OF less.prems(2,1)] .
      show ?thesis
      proof (cases "q < n")
        case False
        with q True c show ?thesis
          by (subst comment_end.simps) (simp add: after_comment_def)
      next
        case qn: True
        let ?fin = "q + 1 < n \<and> a ! (q + 1) = CHR ''/''"
        have fin: "take 2 (unread a q n) = ''*/'' \<longleftrightarrow> ?fin"
          using unread_take(1) [OF less.prems(2) qn] q(4) qn by auto
        have step: "comment_end a n t r = (if ?fin then Some (q + 2) else comment_end a n t (q + 1))"
          using True c q(1) qn comment_tests(4) [OF less.prems(2) qn]
          by (subst comment_end.simps) (simp del: chk.simps)
        have af: "after_first ''*/'' (unread a q n)
            = (if ?fin then unread a (q + 2) n else after_first ''*/'' (unread a (q + 1) n))"
          using after_first_unread [OF qn less.prems(2), of "''*/''" 2] by (simp only: fin) simp
        show ?thesis
        proof (cases ?fin)
          case True
          with step af q c show ?thesis
            by (simp add: after_comment_def)
        next
          case False
          with IH [of "q + 1"] step af q c qn show ?thesis
            by (auto simp: after_comment_def)
        qed
      qed
    qed
  qed
qed

lemma outputs_after:
  assumes "outputs res b (w + length kept) out" "length b = length a" "take (w + length kept) b = take w a @ kept"
  shows "outputs res a w (kept @ out)"
  using assms by (auto simp: outputs_def add.assoc)

lemma split_unknown: "comment_split s = (kept, COMMENT_UNKNOWN, rest) \<Longrightarrow> kept = s \<and> rest = []"
  by (induction s arbitrary: kept rest) (auto split: if_splits prod.splits)

lemma comment_loop_correct:
  "w \<le> r \<Longrightarrow> r \<le> n \<Longrightarrow> n \<le> length a \<Longrightarrow>
   outputs (comment_loop a n r w) a w (strip_comments (unread a r n))"
proof (induction "n - r" arbitrary: a r w rule: less_induct)
  case less
  obtain kept t rest where sp: "comment_split (unread a r n) = (kept, t, rest)"
    by (cases "comment_split (unread a r n)")
  show ?case
  proof (cases "r < n")
    case False
    then have "strip_comments (unread a r n) = []"
      by (subst strip_comments.simps) simp
    with False less.prems show ?thesis
      by (subst comment_loop.simps) (simp add: outputs_done)
  next
    case True
    obtain b q where b: "comment_start a n False r w = Some (t, b, q, w + length kept)" "length b = length a"
      "take (w + length kept) b = take w a @ kept" "unread b q n = rest" "r + length kept \<le> q" "q \<le> n"
      using comment_start_correct [OF less.prems sp] by blast
    have le: "w + length kept \<le> length b" "w + length kept \<le> q"
      using b less.prems by simp_all
    consider (eol) "t = COMMENT_SHELL \<or> t = COMMENT_SQL" | (plain) "t = COMMENT_UNKNOWN"
      | (ended) "t = COMMENT_HTML \<or> t = COMMENT_C"
      by (cases t) simp_all
    then show ?thesis
    proof cases
      case eol
      then have "strip_comments (unread a r n) = kept"
        by (subst strip_comments.simps) (auto simp: sp)
      moreover have "comment_loop a n r w = Some (b, w + length kept)"
        using True eol b(1) by (subst comment_loop.simps) auto
      ultimately show ?thesis
        using outputs_after [OF outputs_done [OF le(1)] b(2,3)] by simp
    next
      case plain
      then have rest: "rest = []" and kept: "strip_comments (unread a r n) = kept"
        using split_unknown sp by (blast, subst strip_comments.simps) (auto simp: sp)
      have "length (unread b q n) = n - q"
        using b(2) less.prems by simp
      then have "q = n"
        using rest b(4,6) by simp
      moreover have "comment_end b n COMMENT_UNKNOWN n = Some n" "comment_loop b n n v = Some (b, v)" for v
        by (subst comment_end.simps, simp) (subst comment_loop.simps, simp)
      ultimately have "comment_loop a n r w = Some (b, w + length kept)"
        using True plain b(1) by (subst comment_loop.simps) simp
      then show ?thesis
        using outputs_after [OF outputs_done [OF le(1)] b(2,3)] kept by simp
    next
      case ended
      obtain q' where q': "comment_end b n t q = Some q'" "q \<le> q'" "q' \<le> n"
        "unread b q' n = after_comment t rest"
        using comment_end_correct [of q n b t] ended b less.prems by auto
      have "length rest < length (unread a r n)"
        using length_comment_split [OF sp] ended by simp
      moreover have "length (unread b q n) = n - q"
        using b(2) less.prems by simp
      ultimately have "r < q"
        using b(4) less.prems by simp
      then have "n - q' < n - r"
        using q' True by linarith
      then have IH: "outputs (comment_loop b n q' (w + length kept)) b (w + length kept)
          (strip_comments (after_comment t rest))"
        using less.hyps [of q' "w + length kept" b] q' b(2) le less.prems by simp
      have "comment_loop a n r w = comment_loop b n q' (w + length kept)"
        using True ended b(1) q'(1) by (subst comment_loop.simps) auto
      moreover have "strip_comments (unread a r n) = kept @ strip_comments (after_comment t rest)"
        using ended by (subst strip_comments.simps) (simp add: sp)
      ultimately show ?thesis
        using outputs_after [OF IH b(2,3)] by simp
    qed
  qed
qed

lemma comment_probe:
  "n \<le> length a \<Longrightarrow> \<exists>r'. comment_start a n True r w = Some (fst (snd (comment_split (unread a r n))), a, r', w)"
proof (induction "n - r" arbitrary: r rule: less_induct)
  case less
  show ?case
  proof (cases "r < n")
    case False
    then show ?thesis
      by (subst comment_start.simps) simp
  next
    case True
    note tests = comment_tests [OF less.prems True]
    let ?s = "unread a r n"
    have s: "?s = a ! r # unread a (Suc r) n"
      using True less.prems by (simp add: unread_Cons)
    have rd: "rd a r = Some (a ! r)" and ne: "unread a (Suc r) n \<noteq> [] \<longleftrightarrow> r + 1 < n"
      using True less.prems by (cases "Suc r < n"; simp add: unread_Cons)+
    have "comment_start a n True r w =
       (if take 4 ?s = ''<!--'' then Some (COMMENT_HTML, a, r + 4, w)
        else if a ! r = CHR ''-'' \<and> r + 1 < n \<and> a ! r = CHR ''-'' then Some (COMMENT_SQL, a, r, w)
        else if a ! r = CHR ''#'' then Some (COMMENT_SHELL, a, r, w)
        else if take 2 ?s = ''/*'' then Some (COMMENT_C, a, r + 2, w)
        else comment_start a n True (r + 1) w)"
      using True by (subst comment_start.simps) (simp only: rd bind.bind_lunit tests if_True if_False)
    moreover have "fst (snd (comment_split ?s)) =
       (if take 4 ?s = ''<!--'' then COMMENT_HTML
        else if a ! r = CHR ''-'' \<and> r + 1 < n then COMMENT_SQL
        else if a ! r = CHR ''#'' then COMMENT_SHELL
        else if take 2 ?s = ''/*'' then COMMENT_C
        else fst (snd (comment_split (unread a (r + 1) n))))"
      unfolding s comment_split.simps ne by (simp split: prod.split)
    moreover have "n - (r + 1) < n - r"
      using True by simp
    ultimately show ?thesis
      using less.hyps [of "r + 1"] less.prems by auto
  qed
qed

lemma length_strip_comments: "length (strip_comments s) \<le> length s"
proof (induction s rule: strip_comments.induct)
  case (1 s)
  obtain kept t rest where sp: "comment_split s = (kept, t, rest)"
    by (cases "comment_split s")
  show ?case
    using "1.IH" [OF sp [symmetric] refl] sp length_comment_split [OF sp] length_after_comment [of t rest]
    by (subst strip_comments.simps) (auto split: prod.split)
qed

interpretation comments: in_place_transformer transformRemoveComments_lambda strip_comments
  "\<lambda>s. fst (snd (comment_split s)) \<noteq> COMMENT_UNKNOWN"
proof (rule leaves_contract)
  fix a :: buf and n
  assume n: "n \<le> length a"
  have "length (strip_comments (take n a)) \<le> n"
    using length_strip_comments [of "take n a"] n by simp
  then show "leaves (transformRemoveComments_lambda a n False) a n (strip_comments (take n a))"
    using finished_leaves [OF comment_loop_correct [of 0 0 n a]] n
    by (simp add: transformRemoveComments_lambda_def)
  show "transformRemoveComments_lambda a n True
      = Some (fst (snd (comment_split (take n a))) \<noteq> COMMENT_UNKNOWN, a, n)"
    using comment_probe [OF n, of 0 0] by (auto simp: transformRemoveComments_lambda_def)
next
  fix s
  assume "\<not> fst (snd (comment_split s)) \<noteq> COMMENT_UNKNOWN"
  then obtain kept rest where "comment_split s = (kept, COMMENT_UNKNOWN, rest)"
    by (cases "comment_split s") auto
  with split_unknown [OF this] show "strip_comments s = s"
    by (subst strip_comments.simps) simp
qed

text \<open>A single dash is taken for a SQL comment.\<close>

theorem single_dash_comment:
  "transformRemoveComments_lambda ''a-b'' 3 False = Some (True, CHR ''a'' # NUL # ''b'', 1)"
  by code_simp

end
