(* ===== verification/Xf_Path.thy ===== *)
theory Xf_Path
  imports Xf_Core
begin

text \<open>
  The path normalisers of \<open>src/PWTransformer.cpp\<close>. The loop looks back at the two characters
  before the read head, in the buffer that it is overwriting: the invariant below says why it
  still sees the original string there.
\<close>

section \<open>The code\<close>

text \<open>\<open>while (write != 0 && array[write] != '/') { write -= 1; }\<close>\<close>

fun back_to_slash :: "buf \<Rightarrow> nat \<Rightarrow> nat option" where
  "back_to_slash a 0 = Some 0"
| "back_to_slash a (Suc w) = do {
     c \<leftarrow> rd a (Suc w);
     if c = CHR ''/'' then Some (Suc w) else back_to_slash a w }"

text \<open>
  The loop. It returns true at once in the read-only call when it meets something to remove;
  otherwise false with the buffer and the write head.
\<close>

function path_loop :: "buf \<Rightarrow> nat \<Rightarrow> bool \<Rightarrow> nat \<Rightarrow> nat \<Rightarrow> (bool \<times> buf \<times> nat) option" where
  "path_loop a len readOnly read write =
     (if read < len
      then do {
        c \<leftarrow> rd a read;
        copy \<leftarrow> (if c \<noteq> CHR ''.'' then Some True
                 else if read + 1 \<noteq> len then chk a [(read + 1, \<lambda>d. d \<noteq> CHR ''/'')]
                 else Some False);
        if copy then do { a' \<leftarrow> wr a write c; path_loop a' len readOnly (read + 1) (write + 1) }
        else do {
          self \<leftarrow> (if read = 0 then Some True else chk a [(read - 1, eqc (CHR ''/''))]);
          if self then
            (if readOnly then Some (True, a, write) else path_loop a len readOnly (read + 2) write)
          else do {
            up \<leftarrow> (if read > 1 then chk a [(read - 1, eqc (CHR ''.'')), (read - 2, eqc (CHR ''/''))]
                   else Some False);
            if up then
              (if readOnly then Some (True, a, write)
               else do {
                 write' \<leftarrow> back_to_slash a (write - min write 3);
                 a' \<leftarrow> wr a write' (CHR ''/'');
                 path_loop a' len readOnly (read + 2) (write' + 1) })
            else do { a' \<leftarrow> wr a write c; path_loop a' len readOnly (read + 1) (write + 1) } } } }
      else Some (False, a, write))"
  by pat_completeness auto
termination
  by (relation "measure (\<lambda>(a, len, readOnly, read, write). len - read)") auto

declare path_loop.simps [simp del]

definition transformNormalize_lambda :: xform where
  "transformNormalize_lambda a len readOnly = do {
     (early, a', write) \<leftarrow> path_loop a len readOnly 0 0;
     if readOnly then Some (early, a', len)
     else do { (a'', n) \<leftarrow> finish len a' write; Some (True, a'', n) } }"

text \<open>Windows paths: backslashes become slashes first.\<close>

function slash_loop :: "buf \<Rightarrow> nat \<Rightarrow> nat \<Rightarrow> buf option" where
  "slash_loop a len pos =
     (if pos < len
      then do {
        c \<leftarrow> rd a pos;
        a' \<leftarrow> (if c = CHR 0x5C then wr a pos (CHR ''/'') else Some a);
        slash_loop a' len (Suc pos) }
      else Some a)"
  by pat_completeness auto
termination
  by (relation "measure (\<lambda>(a, len, pos). len - pos)") auto

declare slash_loop.simps [simp del]

definition transformNormalizeWin_lambda :: xform where
  "transformNormalizeWin_lambda a len readOnly = do {
     pos \<leftarrow> scan (eqc (CHR 0x5C)) a len 0;
     if pos < len \<and> readOnly then Some (True, a, len)
     else do { a' \<leftarrow> slash_loop a len pos; transformNormalize_lambda a' len readOnly } }"

section \<open>The specification\<close>

text \<open>
  What stands at position \<open>r\<close> of the path: something to copy, a self reference, or a parent
  reference whose first dot is already in the output.
\<close>

datatype path_item = COPY | SELF | UP

definition path_item_at :: "char list \<Rightarrow> nat \<Rightarrow> path_item" where
  "path_item_at s r =
     (if s ! r \<noteq> CHR ''.'' \<or> (r + 1 \<noteq> length s \<and> s ! (r + 1) \<noteq> CHR ''/'') then COPY
      else if r = 0 \<or> s ! (r - 1) = CHR ''/'' then SELF
      else if r > 1 \<and> s ! (r - 1) = CHR ''.'' \<and> s ! (r - 2) = CHR ''/'' then UP
      else COPY)"

fun last_slash :: "char list \<Rightarrow> nat \<Rightarrow> nat" where
  "last_slash out 0 = 0"
| "last_slash out (Suc w) = (if out ! Suc w = CHR ''/'' then Suc w else last_slash out w)"

definition parent :: "char list \<Rightarrow> char list" where
  "parent out = take (last_slash out (length out - min (length out) 3)) out @ ''/''"

function normal_path :: "char list \<Rightarrow> nat \<Rightarrow> char list \<Rightarrow> char list" where
  "normal_path s r out =
     (if r < length s
      then (case path_item_at s r of
              COPY \<Rightarrow> normal_path s (r + 1) (out @ [s ! r])
            | SELF \<Rightarrow> normal_path s (r + 2) out
            | UP \<Rightarrow> normal_path s (r + 2) (parent out))
      else out)"
  by pat_completeness auto
termination
  by (relation "measure (\<lambda>(s, r, out). length s - r)") auto

declare normal_path.simps [simp del]

text \<open>Whether some position from \<open>r\<close> on is no copy.\<close>

function path_needs :: "char list \<Rightarrow> nat \<Rightarrow> bool" where
  "path_needs s r =
     (if r < length s then (if path_item_at s r \<noteq> COPY then True else path_needs s (r + 1)) else False)"
  by pat_completeness auto
termination
  by (relation "measure (\<lambda>(s, r). length s - r)") auto

declare path_needs.simps [simp del]

section \<open>The loop computes the specification\<close>

text \<open>
  The heads are together, or at least two apart, and from two characters before the read head
  on the buffer still holds the original string.
\<close>

definition path_inv :: "char list \<Rightarrow> buf \<Rightarrow> nat \<Rightarrow> nat \<Rightarrow> bool" where
  "path_inv s a r w \<longleftrightarrow> length s \<le> length a \<and> w \<le> length s \<and> (w = r \<or> w + 2 \<le> r) \<and>
     (\<forall>i < length s. r \<le> i + 2 \<longrightarrow> a ! i = s ! i)"

lemma back_to_slash_list:
  "w < length a \<Longrightarrow> (\<And>i. i \<le> w \<Longrightarrow> a ! i = out ! i) \<Longrightarrow> back_to_slash a w = Some (last_slash out w)"
  by (induction w) (auto simp: rd_def)

lemma last_slash_le: "last_slash out w \<le> w"
  by (induction w) auto

lemma path_tests:
  assumes "path_inv s a r w" "r < length s"
  shows "(if a ! r \<noteq> CHR ''.'' then Some True
      else if r + 1 \<noteq> length s then chk a [(r + 1, \<lambda>d. d \<noteq> CHR ''/'')] else Some False)
      = Some (s ! r \<noteq> CHR ''.'' \<or> (r + 1 \<noteq> length s \<and> s ! (r + 1) \<noteq> CHR ''/''))"
    and "(if r = 0 then Some True else chk a [(r - 1, eqc (CHR ''/''))]) = Some (r = 0 \<or> s ! (r - 1) = CHR ''/'')"
    and "(if r > 1 then chk a [(r - 1, eqc (CHR ''.'')), (r - 2, eqc (CHR ''/''))] else Some False)
      = Some (r > 1 \<and> s ! (r - 1) = CHR ''.'' \<and> s ! (r - 2) = CHR ''/'')"
    and "rd a r = Some (s ! r)"
proof -
  have a: "a ! i = s ! i" if "r \<le> i + 2" "i < length s" for i
    using assms that by (simp add: path_inv_def)
  have len: "length s \<le> length a"
    using assms by (simp add: path_inv_def)
  show "(if a ! r \<noteq> CHR ''.'' then Some True
      else if r + 1 \<noteq> length s then chk a [(r + 1, \<lambda>d. d \<noteq> CHR ''/'')] else Some False)
      = Some (s ! r \<noteq> CHR ''.'' \<or> (r + 1 \<noteq> length s \<and> s ! (r + 1) \<noteq> CHR ''/''))"
    using a [of r] a [of "r + 1"] assms(2) len by auto
  show "(if r = 0 then Some True else chk a [(r - 1, eqc (CHR ''/''))]) = Some (r = 0 \<or> s ! (r - 1) = CHR ''/'')"
    using a [of "r - 1"] assms(2) len by auto
  show "(if r > 1 then chk a [(r - 1, eqc (CHR ''.'')), (r - 2, eqc (CHR ''/''))] else Some False)
      = Some (r > 1 \<and> s ! (r - 1) = CHR ''.'' \<and> s ! (r - 2) = CHR ''/'')"
    using a [of "r - 1"] a [of "r - 2"] assms(2) len by auto
  show "rd a r = Some (s ! r)"
    using a [of r] assms(2) len by simp
qed

lemma path_loop_step:
  assumes "path_inv s a r w" "r < length s"
  shows "path_loop a (length s) readOnly r w =
    (case path_item_at s r of
       COPY \<Rightarrow> do { a' \<leftarrow> wr a w (s ! r); path_loop a' (length s) readOnly (r + 1) (w + 1) }
     | SELF \<Rightarrow> if readOnly then Some (True, a, w) else path_loop a (length s) readOnly (r + 2) w
     | UP \<Rightarrow> if readOnly then Some (True, a, w)
            else do {
              w' \<leftarrow> back_to_slash a (w - min w 3);
              a' \<leftarrow> wr a w' (CHR ''/'');
              path_loop a' (length s) readOnly (r + 2) (w' + 1) })"
proof -
  have eq: "a ! r = s ! r"
    using assms by (simp add: path_inv_def)
  show ?thesis
    using assms(2)
    by (subst path_loop.simps)
      (simp add: path_tests [OF assms, unfolded eq] path_item_at_def del: chk.simps One_nat_def
        split: path_item.split)
qed

lemma path_inv_copy:
  assumes "path_inv s a r w" "r < length s"
  shows "path_inv s (a[w := s ! r]) (r + 1) (w + 1)"
proof -
  have w: "w < length s"
    using assms by (auto simp: path_inv_def)
  have "a[w := s ! r] ! i = s ! i" if "r + 1 \<le> i + 2" "i < length s" for i
    using assms that w by (cases "i = w") (auto simp: path_inv_def nth_list_update)
  with assms w show ?thesis
    by (auto simp: path_inv_def)
qed

lemma path_inv_self: "path_inv s a r w \<Longrightarrow> path_inv s a (r + 2) w"
  by (auto simp: path_inv_def)

lemma path_inv_up:
  assumes "path_inv s a r w" "r < length s" "1 < r" "w' \<le> w - min w 3"
  shows "path_inv s (a[w' := c]) (r + 2) (w' + 1)"
  using assms by (auto simp: path_inv_def nth_list_update)

lemma path_item_up: "path_item_at s r = UP \<Longrightarrow> 1 < r"
  by (auto simp: path_item_at_def split: if_splits)

lemma path_loop_correct:
  assumes "path_inv s a r w" "take w a = out"
  shows "\<exists>a'. path_loop a (length s) False r w = Some (False, a', length (normal_path s r out)) \<and>
    length a' = length a \<and> length (normal_path s r out) \<le> length s \<and>
    take (length (normal_path s r out)) a' = normal_path s r out"
  using assms
proof (induction "length s - r" arbitrary: a r w out rule: less_induct)
  case less
  have len: "length s \<le> length a" "w \<le> length s" and out: "length out = w"
    using less.prems by (auto simp: path_inv_def)
  show ?case
  proof (cases "r < length s")
    case False
    have "normal_path s r out = out"
      using False by (subst normal_path.simps) simp
    moreover have "path_loop a (length s) False r w = Some (False, a, w)"
      using False by (subst path_loop.simps) simp
    ultimately show ?thesis
      using less.prems len out by simp
  next
    case True
    note step = path_loop_step [OF less.prems(1) True, of False]
    have less1: "length s - (r + 1) < length s - r" "length s - (r + 2) < length s - r"
      using True by simp_all
    have w: "w < length a"
      using less.prems(1) True len by (auto simp: path_inv_def)
    show ?thesis
    proof (cases "path_item_at s r")
      case COPY
      let ?a = "a[w := s ! r]"
      have "take (w + 1) ?a = out @ [s ! r]"
        using w less.prems(2) by simp
      from less.hyps [OF less1(1) path_inv_copy [OF less.prems(1) True] this] COPY step w True
      show ?thesis
        by (subst (1 2 3 4) normal_path.simps) simp
    next
      case SELF
      from less.hyps [OF less1(2) path_inv_self [OF less.prems(1)] less.prems(2)] SELF step True
      show ?thesis
        by (subst (1 2 3 4) normal_path.simps) simp
    next
      case UP
      define w' where "w' = last_slash out (w - min w 3)"
      have w': "w' \<le> w - min w 3"
        by (simp add: w'_def last_slash_le)
      have "a ! i = out ! i" if "i < w" for i
        using that less.prems(2) by auto
      then have "back_to_slash a (w - min w 3) = Some w'"
        unfolding w'_def using w
        by (cases "w = 0") (auto intro!: back_to_slash_list)
      moreover have "w' < length a"
        using w' w by simp
      moreover have "take (w' + 1) (a[w' := CHR ''/'']) = parent out"
      proof -
        have "take w' out = take w' a"
          using w' less.prems(2) by (metis diff_le_self min.absorb1 order.trans take_take)
        then show ?thesis
          using \<open>w' < length a\<close> by (simp add: parent_def out w'_def)
      qed
      ultimately show ?thesis
        using less.hyps [OF less1(2) path_inv_up [OF less.prems(1) True path_item_up [OF UP] w'], of "CHR ''/''" "parent out"]
          UP step True
        by (subst (1 2 3 4) normal_path.simps) simp
    qed
  qed
qed

lemma path_probe:
  assumes "path_inv s a r r"
  shows "\<exists>w'. path_loop a (length s) True r r = Some (path_needs s r, a, w')"
  using assms
proof (induction "length s - r" arbitrary: r rule: less_induct)
  case less
  show ?case
  proof (cases "r < length s")
    case False
    then show ?thesis
      by (subst path_loop.simps, subst path_needs.simps) simp
  next
    case True
    have a: "a ! r = s ! r" "r < length a"
      using less.prems True by (auto simp: path_inv_def)
    then have "a[r := s ! r] = a"
      by (metis list_update_id)
    then have "path_inv s a (r + 1) (r + 1)" "wr a r (s ! r) = Some a"
      using path_inv_copy [OF less.prems True] a by simp_all
    moreover have "length s - (r + 1) < length s - r"
      using True by simp
    ultimately show ?thesis
      using less.hyps [of "r + 1"] path_loop_step [OF less.prems True, of True] True
      by (subst path_needs.simps) (simp split: path_item.split)
  qed
qed

lemma path_sound: "\<not> path_needs s r \<Longrightarrow> r \<le> length s \<Longrightarrow> normal_path s r out = out @ drop r s"
proof (induction "length s - r" arbitrary: r out rule: less_induct)
  case less
  show ?case
  proof (cases "r < length s")
    case True
    then have "path_item_at s r = COPY" "\<not> path_needs s (r + 1)"
      using less.prems(1) by (subst (asm) (1) path_needs.simps, simp split: if_splits)+
    moreover have "length s - (r + 1) < length s - r"
      using True by simp
    ultimately show ?thesis
      using less.hyps [of "r + 1" "out @ [s ! r]"] True
      by (subst normal_path.simps) (simp add: Cons_nth_drop_Suc)
  next
    case False
    then show ?thesis
      using less.prems by (subst normal_path.simps) simp
  qed
qed

interpretation path: in_place_transformer transformNormalize_lambda "\<lambda>s. normal_path s 0 []"
  "\<lambda>s. path_needs s 0"
proof (rule leaves_contract)
  fix a :: buf and n
  assume n: "n \<le> length a"
  let ?s = "take n a"
  have inv: "path_inv ?s a 0 0" and len: "length ?s = n"
    using n by (simp_all add: path_inv_def)
  from path_probe [OF inv] n show "transformNormalize_lambda a n True = Some (path_needs ?s 0, a, n)"
    by (auto simp: transformNormalize_lambda_def)
  obtain a' where "path_loop a n False 0 0 = Some (False, a', length (normal_path ?s 0 []))"
    "length a' = length a" "length (normal_path ?s 0 []) \<le> n"
    "take (length (normal_path ?s 0 [])) a' = normal_path ?s 0 []"
    using path_loop_correct [OF inv, of "[]"] len by auto
  with n show "leaves (transformNormalize_lambda a n False) a n (normal_path ?s 0 [])"
    by (auto simp: transformNormalize_lambda_def leaves_def finish_def)
qed (simp add: path_sound)

section \<open>Windows paths\<close>

definition slash :: "char \<Rightarrow> char" where
  "slash c = (if c = CHR 0x5C then CHR ''/'' else c)"

lemma slash_loop_correct:
  "n \<le> length a \<Longrightarrow> p \<le> n \<Longrightarrow>
   slash_loop a n p = Some (take p a @ map slash (drop p (take n a)) @ drop n a)"
proof (induction "n - p" arbitrary: a p rule: less_induct)
  case less
  show ?case
  proof (cases "p < n")
    case False
    then show ?thesis
      using less.prems by (subst slash_loop.simps) simp
  next
    case True
    let ?a = "a[p := slash (a ! p)]"
    have p: "p < length a" "n - Suc p < n - p"
      using True less.prems by simp_all
    have "slash_loop a n p = slash_loop ?a n (Suc p)"
      using True p by (subst slash_loop.simps) (auto simp: slash_def)
    also have "\<dots> = Some (take (Suc p) ?a @ map slash (drop (Suc p) (take n ?a)) @ drop n ?a)"
      using less.hyps [of "Suc p" ?a] True p less.prems by simp
    also have "take (Suc p) ?a = take p a @ [slash (a ! p)]"
      using p by (simp add: take_Suc_conv_app_nth)
    also have "drop (Suc p) (take n ?a) = drop (Suc p) (take n a)"
      by (simp add: drop_take drop_update_cancel)
    also have "drop p (take n a) = a ! p # drop (Suc p) (take n a)"
      using True p less.prems by (subst Cons_nth_drop_Suc [symmetric]) simp_all
    ultimately show ?thesis
      using True by simp
  qed
qed

lemma slash_cong: "CHR 0x5C \<notin> set s \<Longrightarrow> map slash s = s"
  by (rule map_idI) (auto simp: slash_def)

interpretation path_win: in_place_transformer transformNormalizeWin_lambda
  "\<lambda>s. normal_path (map slash s) 0 []" "\<lambda>s. CHR 0x5C \<in> set s \<or> path_needs s 0"
proof (rule leaves_contract)
  fix a :: buf and n
  assume n: "n \<le> length a"
  obtain k where k: "scan (eqc (CHR 0x5C)) a n 0 = Some k" "k \<le> n"
    "take k a = takeWhile (\<lambda>c. \<not> eqc (CHR 0x5C) c) (take n a)"
    "k \<noteq> n \<longleftrightarrow> (\<exists>c \<in> set (take n a). eqc (CHR 0x5C) c)"
    by (rule scan_start [OF n, of "eqc (CHR 0x5C)"]) (rule that)
  let ?a = "map slash (take n a) @ drop n a"
  have "map slash (take k a) = take k a"
    unfolding k(3) by (rule slash_cong) (auto dest: set_takeWhileD)
  then have slashed: "slash_loop a n k = Some ?a"
  proof -
    have "map slash (take n a) = map slash (take k a @ drop k (take n a))"
      using append_take_drop_id [of k "take n a"] k(2) by (simp add: min_def)
    with \<open>map slash (take k a) = take k a\<close> show ?thesis
      using slash_loop_correct [OF n k(2)] by simp
  qed
  have len: "length ?a = length a" "n \<le> length ?a" "take n ?a = map slash (take n a)"
    using n by simp_all
  obtain ok a' n' where call: "transformNormalize_lambda ?a n False = Some (ok, a', n')" "n' \<le> length a'"
    "take n' a' = normal_path (map slash (take n a)) 0 []"
    using path.mutate [OF len(2)] unfolding len(3) by blast
  then have "length (normal_path (map slash (take n a)) 0 []) = n'"
    by (metis length_take min.absorb2)
  with call path.in_place [OF len(2) call(1)]
  have "leaves (transformNormalize_lambda ?a n False) a n (normal_path (map slash (take n a)) 0 [])"
    using len(1) by (simp add: leaves_def)
  with k slashed show "leaves (transformNormalizeWin_lambda a n False) a n (normal_path (map slash (take n a)) 0 [])"
    by (simp add: transformNormalizeWin_lambda_def)
  show "transformNormalizeWin_lambda a n True
      = Some (CHR 0x5C \<in> set (take n a) \<or> path_needs (take n a) 0, a, n)"
  proof (cases "k = n")
    case True
    then have "CHR 0x5C \<notin> set (take n a)"
      using k(4) by auto
    then have "?a = a"
      by (simp add: slash_cong)
    with True k slashed path.probe [OF n] \<open>CHR 0x5C \<notin> set (take n a)\<close> show ?thesis
      by (simp add: transformNormalizeWin_lambda_def)
  next
    case False
    with k have "CHR 0x5C \<in> set (take n a)" "k < n"
      by auto
    with k show ?thesis
      by (simp add: transformNormalizeWin_lambda_def)
  qed
qed (use slash_cong path.sound in auto)

section \<open>Absolute paths, segment by segment\<close>

definition dirs :: "char list list \<Rightarrow> char list" where
  "dirs segs = CHR ''/'' # concat (map (\<lambda>seg. seg @ ''/'') segs)"

definition plain_segment :: "char list \<Rightarrow> bool" where
  "plain_segment seg \<longleftrightarrow> CHR ''/'' \<notin> set seg \<and> seg \<noteq> ''.'' \<and> seg \<noteq> ''..''"

definition enter :: "char list list \<Rightarrow> char list \<Rightarrow> char list list" where
  "enter stack seg = (if seg = ''.'' then stack else if seg = ''..'' then butlast stack else stack @ [seg])"

lemma copy_run:
  "(\<And>i. i < k \<Longrightarrow> path_item_at s (r + i) = COPY) \<Longrightarrow> r + k \<le> length s \<Longrightarrow>
   normal_path s r out = normal_path s (r + k) (out @ take k (drop r s))"
proof (induction k arbitrary: r out)
  case (Suc k)
  have "path_item_at s r = COPY"
    using Suc.prems(1) [of 0] by simp
  then have "normal_path s r out = normal_path s (r + 1) (out @ [s ! r])"
    using Suc.prems(2) by (subst normal_path.simps) simp
  also have "\<dots> = normal_path s (r + 1 + k) ((out @ [s ! r]) @ take k (drop (r + 1) s))"
    using Suc.prems by (intro Suc.IH) (force, simp)
  also have "s ! r # take k (drop (r + 1) s) = take (Suc k) (drop r s)"
    using Suc.prems(2) by (simp add: take_Suc_conv_app_nth flip: Cons_nth_drop_Suc)
  ultimately show ?case
    by simp
qed simp

lemma plain_segment_copied:
  assumes s: "s = pre @ seg @ post" and pre: "pre \<noteq> []" "last pre = CHR ''/''"
    and seg: "plain_segment seg" and post: "post = [] \<or> hd post = CHR ''/''"
  shows "normal_path s (length pre) out = normal_path s (length pre + length seg) (out @ seg)"
proof -
  let ?r = "length pre"
  have at: "s ! (?r + i) = seg ! i" if "i < length seg" for i
    using that by (simp add: s nth_append)
  have before: "s ! (?r - 1) = CHR ''/''"
    using pre by (simp add: s nth_append last_conv_nth)
  have no_slash: "seg ! i \<noteq> CHR ''/''" if "i < length seg" for i
    using seg nth_mem [OF that] by (auto simp: plain_segment_def)
  have "path_item_at s (?r + i) = COPY" if i: "i < length seg" for i
  proof (rule ccontr)
    assume no: "path_item_at s (?r + i) \<noteq> COPY"
    then have dot: "seg ! i = CHR ''.''" and fin: "?r + i + 1 = length s \<or> s ! (?r + i + 1) = CHR ''/''"
      using at [OF i] by (auto simp: path_item_at_def split: if_splits)
    have "i + 1 = length seg"
    proof (rule ccontr)
      assume "i + 1 \<noteq> length seg"
      then have "i + 1 < length seg"
        using i by simp
      with fin at [of "i + 1"] no_slash [of "i + 1"] show False
        by (simp add: s)
    qed
    moreover have "i = 0 \<or> (i = 1 \<and> seg ! 0 = CHR ''.'')"
    proof (rule ccontr)
      assume *: "\<not> (i = 0 \<or> (i = 1 \<and> seg ! 0 = CHR ''.''))"
      then have "s ! (?r + i - 1) \<noteq> CHR ''/''"
        using at [of "i - 1"] no_slash [of "i - 1"] i by simp
      moreover have "\<not> (s ! (?r + i - 1) = CHR ''.'' \<and> s ! (?r + i - 2) = CHR ''/'')"
      proof (cases "i = 1")
        case True
        have "0 < length seg"
          using i by linarith
        then have "s ! ?r = seg ! 0"
          using at [of 0] by simp
        with True * show ?thesis
          by simp
      next
        case False
        with * have "?r + i - 2 = ?r + (i - 2)"
          by simp
        with at [of "i - 2"] no_slash [of "i - 2"] i show ?thesis
          by simp
      qed
      ultimately show False
        using no * by (auto simp: path_item_at_def split: if_splits)
    qed
    ultimately have "seg = ''.'' \<or> seg = ''..''"
      using dot by (cases seg rule: remdups_adj.cases) auto
    with seg show False
      by (simp add: plain_segment_def)
  qed
  then have "normal_path s ?r out = normal_path s (?r + length seg) (out @ take (length seg) (drop ?r s))"
    by (intro copy_run) (simp_all add: s)
  then show ?thesis
    by (simp add: s)
qed

lemma dirs_snoc: "dirs (segs @ [seg]) = dirs segs @ seg @ ''/''"
  by (simp add: dirs_def)

lemma dirs_end: "dirs segs \<noteq> [] \<and> last (dirs segs) = CHR ''/''"
  by (cases segs rule: rev_cases) (simp_all add: dirs_def)

text \<open>Going to the parent drops the last segment.\<close>

lemma last_slash_segment:
  assumes "CHR ''/'' \<notin> set seg" "last out = CHR ''/''" "out \<noteq> []"
  shows "last_slash (out @ seg @ rest) (length out + length seg - 1) = length out - 1"
  using assms
proof (induction seg arbitrary: rest rule: rev_induct)
  case Nil
  then have "(out @ rest) ! (length out - 1) = CHR ''/''"
    by (simp add: nth_append last_conv_nth)
  then show ?case
    by (cases "length out - 1") simp_all
next
  case (snoc c seg)
  obtain k where k: "length out + length seg = Suc k"
    using snoc.prems(3) by (cases out) auto
  have "(out @ (seg @ [c]) @ rest) ! Suc k = c"
    unfolding k [symmetric] by (simp add: nth_append)
  moreover have "c \<noteq> CHR ''/''" "CHR ''/'' \<notin> set seg"
    using snoc.prems(1) by auto
  ultimately show ?case
    using snoc.IH [of "c # rest"] snoc.prems(2,3) k by simp
qed

lemma parent_dirs:
  assumes "list_all plain_segment segs" "[] \<notin> set segs"
  shows "parent (dirs segs @ ''.'') = dirs (butlast segs)"
proof (cases segs rule: rev_cases)
  case Nil
  then show ?thesis
    by (simp add: parent_def dirs_def)
next
  case (snoc segs' seg)
  then have seg: "CHR ''/'' \<notin> set seg" "seg \<noteq> []"
    using assms by (auto simp: plain_segment_def)
  let ?o = "dirs segs'"
  have o: "?o \<noteq> []" "last ?o = CHR ''/''"
    using dirs_end by simp_all
  then obtain o' where o': "?o = o' @ ''/''"
    by (metis append_butlast_last_id)
  have "length (dirs segs @ ''.'') - min (length (dirs segs @ ''.'')) 3 = length ?o + length seg - 1"
    using seg(2) o(1) by (cases seg) (simp_all add: snoc dirs_snoc)
  moreover have "last_slash (dirs segs @ ''.'') (length ?o + length seg - 1) = length ?o - 1"
    using last_slash_segment [OF seg(1) o(2,1), of "''/.''"] by (simp add: snoc dirs_snoc)
  ultimately have "parent (dirs segs @ ''.'') = take (length ?o - 1) (dirs segs @ ''.'') @ ''/''"
    by (simp only: parent_def)
  then show ?thesis
    by (simp add: snoc dirs_snoc o')
qed

lemma normal_path_dirs:
  assumes "\<forall>seg \<in> set segs. CHR ''/'' \<notin> set seg \<and> seg \<noteq> []"
    and "list_all plain_segment stack" "[] \<notin> set stack"
    and "s = dirs pre @ concat (map (\<lambda>seg. seg @ ''/'') segs) @ leaf"
  shows "normal_path s (length (dirs pre)) (dirs stack)
    = normal_path s (length (dirs (pre @ segs))) (dirs (foldl enter stack segs))"
    and "list_all plain_segment (foldl enter stack segs) \<and> [] \<notin> set (foldl enter stack segs)"
  using assms
proof (induction segs arbitrary: pre stack)
  case Nil
  {
    case 1
    show ?case by simp
  next
    case 2
    then show ?case by simp
  }
next
  case (Cons seg segs)
  have ok: "list_all plain_segment (enter stack seg) \<and> [] \<notin> set (enter stack seg)"
    if "CHR ''/'' \<notin> set seg \<and> seg \<noteq> []" "list_all plain_segment stack" "[] \<notin> set stack" for stack
    using that by (auto simp: enter_def plain_segment_def list_all_iff dest: in_set_butlastD)
  {
    case 1
    have s: "s = dirs pre @ seg @ CHR ''/'' # concat (map (\<lambda>seg. seg @ ''/'') segs) @ leaf"
      using 1 by simp
    let ?r = "length (dirs pre)"
    have pre: "dirs pre \<noteq> []" "last (dirs pre) = CHR ''/''"
      using dirs_end by simp_all
    have before: "s ! (?r - 1) = CHR ''/''"
      using pre by (simp add: s nth_append last_conv_nth)
    have at: "s ! (?r + i) = (seg @ ''/'') ! i" if "i < length seg + 1" for i
      using that by (auto simp: s nth_append)
    have r: "?r + length seg < length s" "0 < ?r"
      using pre by (simp_all add: s)
    have step: "normal_path s ?r (dirs stack) = normal_path s (?r + length seg + 1) (dirs (enter stack seg))"
    proof -
      consider (self) "seg = ''.''" | (up) "seg = ''..''" | (plain) "plain_segment seg"
        using 1(1) by (auto simp: plain_segment_def)
      then show ?thesis
      proof cases
        case self
        then have "path_item_at s ?r = SELF"
          using before at [of 0] at [of 1] by (simp add: path_item_at_def)
        then show ?thesis
          using self r by (subst normal_path.simps) (simp add: enter_def)
      next
        case up
        then have "path_item_at s ?r = COPY"
          using at [of 0] at [of 1] r by (simp add: path_item_at_def)
        moreover have "path_item_at s (?r + 1) = UP"
          using up before at [of 0] at [of 1] at [of 2] r by (simp add: path_item_at_def)
        moreover have "dirs stack @ ''.'' = dirs stack @ [s ! ?r]"
          using at [of 0] up by simp
        ultimately have "normal_path s ?r (dirs stack) = normal_path s (?r + 3) (parent (dirs stack @ ''.''))"
          using up r by (subst normal_path.simps, simp) (subst normal_path.simps, simp add: numeral_3_eq_3)
        then show ?thesis
          using up parent_dirs [OF 1(2,3)] by (simp add: enter_def numeral_3_eq_3)
      next
        case plain
        have "normal_path s ?r (dirs stack) = normal_path s (?r + length seg) (dirs stack @ seg)"
          using plain_segment_copied [OF s pre plain] by simp
        also have "path_item_at s (?r + length seg) = COPY"
          using at [of "length seg"] by (simp add: path_item_at_def)
        then have "normal_path s (?r + length seg) (dirs stack @ seg)
            = normal_path s (?r + length seg + 1) (dirs stack @ seg @ ''/'')"
          using r at [of "length seg"] by (subst normal_path.simps) simp
        finally show ?thesis
          using plain by (simp add: enter_def plain_segment_def dirs_snoc)
      qed
    qed
    have "length (dirs (pre @ [seg])) = ?r + length seg + 1"
      by (simp add: dirs_snoc)
    moreover have "list_all plain_segment (enter stack seg) \<and> [] \<notin> set (enter stack seg)"
      using 1 by (intro ok) simp_all
    ultimately show ?case
      using step Cons.IH(1) [of "enter stack seg" "pre @ [seg]"] 1 by (simp add: dirs_snoc)
  next
    case 2
    have "list_all plain_segment (enter stack seg) \<and> [] \<notin> set (enter stack seg)"
      using 2 by (intro ok) simp_all
    then show ?case
      using Cons.IH(2) [of "enter stack seg" "pre @ [seg]"] 2 by (simp add: dirs_snoc)
  }
qed



end
