(* ===== verification/Xf_Parts.thy ===== *)
theory Xf_Parts
  imports Xf_Core Utf8
begin

text \<open>
  The remaining transformers of \<open>src/PWTransformer.cpp\<close>: the three extractors of a part of a
  URL, the conversion of a decimal string to an integer and the Unicode normalisation. These
  work on the object, because their read-only call does not look at the string, or because
  they change its type or allocation.
\<close>

section \<open>Parts of a URL\<close>

text \<open>The characters that end the path.\<close>

definition url_end :: "char \<Rightarrow> bool" where
  "url_end c \<longleftrightarrow> c = CHR ''?'' \<or> c = CHR ''#''"

text \<open>\<open>while (read < end && !stop(array[read])) { array[write++] = array[read++]; }\<close>\<close>

function copy_until :: "(char \<Rightarrow> bool) \<Rightarrow> buf \<Rightarrow> nat \<Rightarrow> nat \<Rightarrow> nat \<Rightarrow> (buf \<times> nat) option" where
  "copy_until stop a end read write =
     (if read < end
      then do {
        c \<leftarrow> rd a read;
        if stop c then Some (a, write)
        else do { a' \<leftarrow> wr a write c; copy_until stop a' end (Suc read) (Suc write) } }
      else Some (a, write))"
  by pat_completeness auto
termination
  by (relation "measure (\<lambda>(stop, a, end, read, write). end - read)") auto

function basename_scan :: "buf \<Rightarrow> nat \<Rightarrow> nat \<Rightarrow> nat \<Rightarrow> (nat \<times> nat) option" where
  "basename_scan a len endOfPath lastSlash =
     (if endOfPath < len
      then do {
        c \<leftarrow> rd a endOfPath;
        if url_end c then Some (endOfPath, lastSlash)
        else basename_scan a len (Suc endOfPath) (if c = CHR ''/'' then endOfPath else lastSlash) }
      else Some (endOfPath, lastSlash))"
  by pat_completeness auto
termination
  by (relation "measure (\<lambda>(a, len, endOfPath, lastSlash). len - endOfPath)") auto

declare copy_until.simps [simp del] basename_scan.simps [simp del]

text \<open>The first character of the array is tested even when the string is empty.\<close>

definition transformURLBaseName_lambda :: "buf \<Rightarrow> nat \<Rightarrow> (bool \<times> buf \<times> nat) option" where
  "transformURLBaseName_lambda a len = do {
     (endOfPath, lastSlash) \<leftarrow> basename_scan a len 0 0;
     slash \<leftarrow> (if lastSlash \<noteq> 0 then Some True else chk a [(0, eqc (CHR ''/''))]);
     finished len (copy_until (\<lambda>c. False) a endOfPath (if slash then lastSlash + 1 else lastSlash) 0) }"

text \<open>The file name is a prefix: only the length changes, and nothing terminates it.\<close>

definition transformURLFilename_lambda :: "buf \<Rightarrow> nat \<Rightarrow> (bool \<times> buf \<times> nat) option" where
  "transformURLFilename_lambda a len = do { pos \<leftarrow> scan url_end a len 0; Some (True, a, pos) }"

definition transformURLQueryString_lambda :: "buf \<Rightarrow> nat \<Rightarrow> (bool \<times> buf \<times> nat) option" where
  "transformURLQueryString_lambda a len = do {
     read \<leftarrow> scan url_end a len 0;
     query \<leftarrow> (if read < len then chk a [(read, eqc (CHR ''?''))] else Some False);
     finished len (copy_until (eqc (CHR ''#'')) a len (if query then read + 1 else read) 0) }"

text \<open>Their read-only call accepts every string without looking at it.\<close>

definition transform_part :: "(buf \<Rightarrow> nat \<Rightarrow> (bool \<times> buf \<times> nat) option) \<Rightarrow> ddwaf_object \<Rightarrow> bool
    \<Rightarrow> (bool \<times> ddwaf_object) option" where
  "transform_part f parameter readOnly =
     (if readOnly then Some (obj_type parameter = OBJ_STRING, parameter)
      else runTransform (\<lambda>a len _. f a len) parameter readOnly)"

definition transformURLBaseName :: "ddwaf_object \<Rightarrow> bool \<Rightarrow> (bool \<times> ddwaf_object) option" where
  "transformURLBaseName = transform_part transformURLBaseName_lambda"

definition transformURLFilename :: "ddwaf_object \<Rightarrow> bool \<Rightarrow> (bool \<times> ddwaf_object) option" where
  "transformURLFilename = transform_part transformURLFilename_lambda"

definition transformURLQueryString :: "ddwaf_object \<Rightarrow> bool \<Rightarrow> (bool \<times> ddwaf_object) option" where
  "transformURLQueryString = transform_part transformURLQueryString_lambda"

text \<open>The parts, as list functions.\<close>

definition url_path :: "char list \<Rightarrow> char list" where
  "url_path = takeWhile (\<lambda>c. \<not> url_end c)"

definition base_name :: "char list \<Rightarrow> char list" where
  "base_name p = rev (takeWhile (\<lambda>c. c \<noteq> CHR ''/'') (rev p))"

definition url_query :: "char list \<Rightarrow> char list" where
  "url_query s =
     (case drop (length (url_path s)) s of
        c # rest \<Rightarrow> if c = CHR ''?'' then takeWhile (\<lambda>c. c \<noteq> CHR ''#'') rest else []
      | [] \<Rightarrow> [])"

lemma copy_until_correct:
  "w \<le> r \<Longrightarrow> w \<le> length a \<Longrightarrow> n \<le> length a \<Longrightarrow>
   outputs (copy_until stop a n r w) a w (takeWhile (\<lambda>c. \<not> stop c) (unread a r n))"
proof (induction "n - r" arbitrary: a r w rule: less_induct)
  case less
  show ?case
  proof (cases "r < n")
    case True
    let ?c = "a ! r"
    have "unread (a[w := ?c]) (Suc r) n = unread a (Suc r) n"
      using less.prems by simp
    with less.hyps [of "Suc r" "Suc w" "a[w := ?c]"] True less.prems show ?thesis
      by (subst copy_until.simps) (auto simp: unread_Cons outputs_done intro!: outputs_write)
  next
    case False
    with less.prems show ?thesis
      by (subst copy_until.simps) (simp add: outputs_done)
  qed
qed

text \<open>The position of the last slash of a path, counted from \<open>e\<close>; \<open>d\<close> when it has none.\<close>

fun slash_pos :: "nat \<Rightarrow> nat \<Rightarrow> char list \<Rightarrow> nat" where
  "slash_pos e d [] = d"
| "slash_pos e d (c # cs) = slash_pos (Suc e) (if c = CHR ''/'' then e else d) cs"

lemma basename_scan_correct:
  "e \<le> n \<Longrightarrow> n \<le> length a \<Longrightarrow>
   basename_scan a n e d = Some (e + length (url_path (unread a e n)), slash_pos e d (url_path (unread a e n)))"
proof (induction "n - e" arbitrary: e d rule: less_induct)
  case less
  show ?case
  proof (cases "e < n")
    case True
    with less.prems less.hyps [of "Suc e"] show ?thesis
      by (subst basename_scan.simps) (auto simp: unread_Cons url_path_def)
  next
    case False
    with less.prems show ?thesis
      by (subst basename_scan.simps) (simp add: url_path_def)
  qed
qed

lemma slash_pos_snoc:
  "slash_pos e d (p @ [c]) = (if c = CHR ''/'' then e + length p else slash_pos e d p)"
  by (induction p arbitrary: e d) auto

lemma slash_pos_le: "slash_pos 0 0 p \<le> length p"
  by (induction p rule: rev_induct) (auto simp: slash_pos_snoc)

lemma base_name_drop:
  assumes "slash \<longleftrightarrow> slash_pos 0 0 p \<noteq> 0 \<or> (p \<noteq> [] \<and> hd p = CHR ''/'')"
  shows "drop (if slash then slash_pos 0 0 p + 1 else slash_pos 0 0 p) p = base_name p"
  using assms
proof (induction p arbitrary: slash rule: rev_induct)
  case Nil
  then show ?case by (simp add: base_name_def)
next
  case (snoc c p)
  show ?case
  proof (cases "c = CHR ''/''")
    case True
    then show ?thesis
      using snoc.prems by (cases p) (auto simp: slash_pos_snoc base_name_def)
  next
    case False
    let ?l = "slash_pos 0 0 p" and ?s = "slash_pos 0 0 p \<noteq> 0 \<or> (p \<noteq> [] \<and> hd p = CHR ''/'')"
    have "base_name (p @ [c]) = base_name p @ [c]"
      using False by (simp add: base_name_def)
    moreover have "slash \<longleftrightarrow> ?s"
      using snoc.prems False by (cases p) (auto simp: slash_pos_snoc)
    moreover have "(if ?s then ?l + 1 else ?l) \<le> length p"
    proof -
      have "?l < length p" if "p \<noteq> []"
        using that by (cases p rule: rev_cases) (auto simp: slash_pos_snoc less_Suc_eq_le slash_pos_le)
      then show ?thesis
        by (cases p) (auto simp: Suc_le_eq)
    qed
    then have "drop (if ?s then ?l + 1 else ?l) (p @ [c]) = drop (if ?s then ?l + 1 else ?l) p @ [c]"
      by (simp only: drop_append diff_is_0_eq [THEN iffD2] drop_0)
    moreover have "slash_pos 0 0 (p @ [c]) = ?l"
      using False by (simp add: slash_pos_snoc)
    ultimately show ?thesis
      using snoc.IH [of ?s] by presburger
  qed
qed

lemma url_path_prefix: "take (length (url_path s)) s = url_path s" "length (url_path s) \<le> length s"
  unfolding url_path_def by (metis takeWhile_eq_take) (rule length_takeWhile_le)



section \<open>Numbers\<close>

text \<open>The digits, accumulated modulo \<open>2 ^ 64\<close>; \<open>Some None\<close> is the early \<open>return false\<close>.\<close>

function numerize_loop :: "buf \<Rightarrow> nat \<Rightarrow> nat \<Rightarrow> u64 \<Rightarrow> u64 option option" where
  "numerize_loop a len read val =
     (if read < len
      then do {
        c \<leftarrow> rd a read;
        if \<not> isdigit c then Some None
        else numerize_loop a len (Suc read) (val * 10 + (ucast (byte c) - 0x30)) }
      else Some (Some val))"
  by pat_completeness auto
termination
  by (relation "measure (\<lambda>(a, len, read, val). len - read)") auto

declare numerize_loop.simps [simp del]

abbreviation INT64_MAX :: u64 where "INT64_MAX \<equiv> 0x7FFFFFFFFFFFFFFF"

definition transformNumerize :: "ddwaf_object \<Rightarrow> bool \<Rightarrow> (bool \<times> ddwaf_object) option" where
  "transformNumerize parameter readOnly =
     (case payload parameter of
        Str (Some a) n \<Rightarrow>
          if n = 0 then Some (False, parameter)
          else do {
            c \<leftarrow> rd a 0;
            let isNegative = c = CHR ''-'' in do {
              res \<leftarrow> numerize_loop a n (if isNegative then 1 else 0) 0;
              case res of
                None \<Rightarrow> Some (False, parameter)
              | Some val \<Rightarrow>
                  if isNegative \<and> (val > INT64_MAX \<or> n = 1) then Some (False, parameter)
                  else if readOnly then Some (True, parameter)
                  else Some (True, the
                    (if isNegative
                     then ddwaf_object_signed_force (ddwaf_object_free (Some parameter)) (val * - 1)
                     else ddwaf_object_unsigned_force (ddwaf_object_free (Some parameter)) val)) } }
      | _ \<Rightarrow> Some (False, parameter))"

definition digits_value :: "char list \<Rightarrow> nat" where
  "digits_value = foldl (\<lambda>v c. v * 10 + (of_char c - 48)) 0"

lemma isdigit_range: "isdigit c \<longleftrightarrow> 48 \<le> (of_char c :: nat) \<and> (of_char c :: nat) \<le> 57"
  by (simp add: isdigit_def less_eq_char_def)

lemma digit_word: "isdigit c \<Longrightarrow> (ucast (byte c) - 0x30 :: u64) = of_nat (of_char c - 48)"
proof -
  assume "isdigit c"
  then have "of_nat (of_char c - 48) = (of_nat (of_char c) - of_nat 48 :: u64)"
    by (subst of_nat_diff) (simp_all add: isdigit_range)
  moreover have "(ucast (byte c) :: u64) = of_nat (of_char c)"
    by (metis of_nat_unat unat_byte)
  ultimately show ?thesis
    by simp
qed

lemma numerize_loop_digits:
  "n \<le> length a \<Longrightarrow> list_all isdigit (unread a r n) \<Longrightarrow>
   numerize_loop a n r (of_nat v)
     = Some (Some (of_nat (foldl (\<lambda>v c. v * 10 + (of_char c - 48)) v (unread a r n))))"
proof (induction "n - r" arbitrary: r v rule: less_induct)
  case less
  show ?case
  proof (cases "r < n")
    case True
    with less.prems have d: "isdigit (a ! r)" "list_all isdigit (unread a (Suc r) n)"
      by (simp_all add: unread_Cons)
    let ?v = "v * 10 + (of_char (a ! r) - 48)"
    have "numerize_loop a n r (of_nat v) = numerize_loop a n (Suc r) (of_nat ?v)"
      using True less.prems(1) d(1) by (subst numerize_loop.simps) (simp add: digit_word)
    also have "\<dots> = Some (Some (of_nat (foldl (\<lambda>v c. v * 10 + (of_char c - 48)) ?v (unread a (Suc r) n))))"
      using True less.prems(1) d(2) by (intro less.hyps) simp_all
    finally show ?thesis
      using True less.prems(1) by (simp only: unread_Cons foldl_Cons)
  next
    case False
    then show ?thesis
      by (subst numerize_loop.simps) simp
  qed
qed

lemma digits_value_snoc: "digits_value (s @ [c]) = digits_value s * 10 + (of_char c - 48)"
  by (simp add: digits_value_def)

lemma char_of_digit: "d < 10 \<Longrightarrow> (of_char (char_of (48 + d)) :: nat) = 48 + d" for d :: nat
  by simp

lemma dec_nat_digits: "list_all isdigit (dec_nat n) \<and> dec_nat n \<noteq> [] \<and> digits_value (dec_nat n) = n"
proof (induction n rule: dec_nat.induct)
  case (1 n)
  have digit: "isdigit (char_of (48 + d)) \<and> digits_value [char_of (48 + d)] = d" if "d < 10" for d :: nat
    using that by (simp add: isdigit_range digits_value_def)
  show ?case
  proof (cases "n < 10")
    case True
    with digit [OF True] show ?thesis
      by (subst (1 2 3) dec_nat.simps) simp
  next
    case False
    have m: "n mod 10 < 10"
      by simp
    with digit [OF m] 1 [OF False] show ?thesis
      using False char_of_digit [OF m] by (subst (1 2 3) dec_nat.simps) (simp add: digits_value_snoc)
  qed
qed

lemma transformNumerize_digits:
  assumes "n \<le> length a" "list_all isdigit ds" "ds \<noteq> []"
  shows "take n a = ds \<Longrightarrow> transformNumerize (Obj k (Str (Some a) n)) False
      = Some (True, Obj None (Unsigned (of_nat (digits_value ds))))"
    and "take n a = CHR ''-'' # ds \<Longrightarrow> transformNumerize (Obj k (Str (Some a) n)) False
      = (if (of_nat (digits_value ds) :: u64) > INT64_MAX then Some (False, Obj k (Str (Some a) n))
         else Some (True, Obj None (Signed (- of_nat (digits_value ds)))))"
proof -
  assume t: "take n a = ds"
  then have n: "n = length ds"
    using assms(1) length_take [of n a] by simp
  then have "n \<noteq> 0" "0 < length a"
    using assms(1,3) by auto
  moreover have "isdigit (a ! 0)"
    using n t assms(2,3) nth_take [of 0 n a] by (cases ds) simp_all
  then have "a ! 0 \<noteq> CHR ''-''"
    by (auto simp: isdigit_def)
  moreover have "numerize_loop a n 0 (of_nat 0) = Some (Some (of_nat (digits_value ds)))"
    using numerize_loop_digits [of n a 0 0] assms t by (simp add: digits_value_def)
  ultimately show "transformNumerize (Obj k (Str (Some a) n)) False
      = Some (True, Obj None (Unsigned (of_nat (digits_value ds))))"
    by (simp add: transformNumerize_def ddwaf_object_free_def obj_type_def ddwaf_object_invalid_def
        ddwaf_object_unsigned_force_def)
next
  assume t: "take n a = CHR ''-'' # ds"
  have "length (take n a) = Suc (length ds)"
    by (simp only: t length_Cons)
  then have n: "n = Suc (length ds)" "1 < n" "0 < length a"
    using assms(1,3) by auto
  moreover have "a ! 0 = CHR ''-''"
    using n(1) nth_take [of 0 n a] unfolding t by simp
  moreover have "unread a 1 n = ds"
    unfolding unread_def t by simp
  moreover have "numerize_loop a n 1 (of_nat 0) = Some (Some (of_nat (digits_value ds)))"
    using numerize_loop_digits [of n a 1 0] assms(1,2) \<open>unread a 1 n = ds\<close> by (simp add: digits_value_def)
  ultimately show "transformNumerize (Obj k (Str (Some a) n)) False
      = (if (of_nat (digits_value ds) :: u64) > INT64_MAX then Some (False, Obj k (Str (Some a) n))
         else Some (True, Obj None (Signed (- of_nat (digits_value ds)))))"
    by (simp add: transformNumerize_def ddwaf_object_free_def obj_type_def ddwaf_object_invalid_def
        ddwaf_object_signed_force_def)
qed

text \<open>C29: Numerizing the decimal rendering of an integer gives the integer back: unsigned when it
  is not negative, up to the largest 64-bit value, and signed when it is negative, down to the
  opposite of the largest signed value; the least signed value is refused.\<close>

theorem numerize_roundtrip:
  assumes "- (2 ^ 63) \<le> i" "i < 2 ^ 64" "n \<le> length a" "take n a = dec_int i"
  shows "transformNumerize (Obj k (Str (Some a) n)) False =
    (if i = - (2 ^ 63) then Some (False, Obj k (Str (Some a) n))
     else if i < 0 then Some (True, Obj None (Signed (of_int i)))
     else Some (True, Obj None (Unsigned (of_int i))))"
proof (cases "i < 0")
  case True
  let ?m = "nat (- i)"
  have m: "?m \<le> 2 ^ 63" "int ?m = - i"
    using True assms(1) by simp_all
  have "unat (of_nat ?m :: u64) = ?m"
    using m(1) by (simp add: unsigned_of_nat take_bit_nat_eq_self)
  then have "(of_nat ?m :: u64) > INT64_MAX \<longleftrightarrow> ?m = 2 ^ 63"
    using m(1) by (auto simp: word_less_nat_alt)
  moreover have "?m = 2 ^ 63 \<longleftrightarrow> i = - (2 ^ 63)"
    using True by auto
  moreover have "- of_nat ?m = (of_int i :: u64)"
    using m(2) by (metis of_int_minus of_int_of_nat_eq minus_minus)
  ultimately show ?thesis
    using transformNumerize_digits(2) [OF assms(3), of "dec_nat ?m" k] dec_nat_digits [of ?m] True assms(4)
    by (simp add: dec_int_def)
next
  case False
  then have "of_nat (nat i) = (of_int i :: u64)"
    by simp
  then show ?thesis
    using transformNumerize_digits(1) [OF assms(3), of "dec_nat (nat i)" k] dec_nat_digits [of "nat i"] False assms(4)
    by (simp add: dec_int_def)
qed

theorem numerize_roundtrip_witness:
  "transformNumerize (Obj None (Str (Some ''-42'') 3)) False = Some (True, Obj None (Signed (- 42)))"
proof -
  have "dec_nat 42 = ''42''"
    by (simp add: dec_nat.simps [of 42] dec_nat.simps [of 4] char_of_def bit_Suc_0_iff)
  then have "dec_int (- 42) = ''-42''"
    by (simp add: dec_int_def)
  then show ?thesis
    using numerize_roundtrip [of "- 42" 3 "''-42''" None] by simp
qed

text \<open>Longer strings of digits wrap around, and the sign test only sees what is left of them.\<close>

lemma numerize_wraps:
  "transformNumerize (Obj None (Str (Some ''18446744073709551617'') 20)) False
     = Some (True, Obj None (Unsigned 1))"
  "transformNumerize (Obj None (Str (Some ''-18446744073709551617'') 21)) False
     = Some (True, Obj None (Signed (- 1)))"
  by code_simp+

section \<open>Unicode normalisation\<close>

text \<open>The read-only loop: one code point is asked for, into a buffer of one entry, set to 0.\<close>

definition unicode_changes :: "utf8proc \<Rightarrow> u32 \<Rightarrow> bool" where
  "unicode_changes lib cp =
     (case normalize_codepoint lib cp 1 of (decomposedLength, ds) \<Rightarrow>
        decomposedLength \<noteq> 1 \<or> cp \<noteq> (case ds of [] \<Rightarrow> 0 | d # _ \<Rightarrow> d))"

partial_function (option) unicode_probe :: "utf8proc \<Rightarrow> buf \<Rightarrow> nat \<Rightarrow> nat \<Rightarrow> bool option" where
  "unicode_probe lib a len position = do {
     (cp, position') \<leftarrow> fetch_next_codepoint a position len;
     if cp = UTF8_EOF then Some False
     else if cp = UTF8_INVALID then unicode_probe lib a len position'
     else if unicode_changes lib cp then Some True
     else unicode_probe lib a len position' }"

declare unicode_probe.simps [code]

definition transformUnicodeNormalize ::
    "(nat \<Rightarrow> bool) \<Rightarrow> utf8proc \<Rightarrow> ddwaf_object \<Rightarrow> bool \<Rightarrow> (bool \<times> ddwaf_object) option" where
  "transformUnicodeNormalize alloc lib parameter readOnly =
     (case payload parameter of
        Str (Some a) n \<Rightarrow>
          if n = 0 then Some (False, parameter)
          else if readOnly then do { b \<leftarrow> unicode_probe lib a n 0; Some (b, parameter) }
          else do {
            (ok, a', n') \<leftarrow> normalize_string alloc lib a n;
            Some (ok, Obj (parameterName parameter) (Str (Some a') n')) }
      | _ \<Rightarrow> Some (False, parameter))"

lemma unicode_probe_codepoints:
  "n \<le> length a \<Longrightarrow> p \<le> n \<Longrightarrow>
   unicode_probe lib a n p = Some (\<exists>cp \<in> set (codepoints a n p). unicode_changes lib cp)"
proof (induction "n - p" arbitrary: p rule: less_induct)
  case less
  obtain cp q where f: "fetch_next_codepoint a p n = Some (cp, q)"
    "cp = UTF8_EOF \<longleftrightarrow> p = n" "p < n \<longrightarrow> p < q \<and> q \<le> n"
    using fetch_next_safe [OF less.prems] by blast
  show ?case
  proof (cases "p = n")
    case True
    with f show ?thesis
      by (subst unicode_probe.simps, subst codepoints.simps) simp
  next
    case False
    with f less.prems have q: "p < q" "q \<le> n" "cp \<noteq> UTF8_EOF" "n - q < n - p"
      by auto
    from less.hyps [OF q(4) less.prems(1) q(2)] f(1) q(1-3) show ?thesis
      by (subst unicode_probe.simps, subst codepoints.simps) auto
  qed
qed

text \<open>
  What utf8proc documents about the buffer it is given: when the decomposition fits, it is
  stored whole and its length does not depend on the room.
\<close>

definition room_independent :: "utf8proc \<Rightarrow> bool" where
  "room_independent lib \<longleftrightarrow> (\<forall>cp d ds. decompose_char lib cp 1 = (1, d # ds) \<longrightarrow>
     (\<exists>ds'. decompose_char lib cp INFLIGHT_BUFFER_SIZE = (1, d # ds')))"

lemma unchanged_codepoint:
  assumes "room_independent lib" "\<not> unicode_changes lib cp" "storable cp = cp"
  shows "normalized_codepoints lib cp = [cp]"
proof -
  have cp: "cp \<noteq> 0"
    using assms(3) by (auto simp: storable_def)
  have big: "cp < UTF8_MAX_CODEPOINT"
    using assms(2) by (auto simp: unicode_changes_def normalize_codepoint_def not_less)
  show ?thesis
  proof (cases "cp = 0x200D")
    case True
    then show ?thesis
      by (simp add: normalized_codepoints_def normalize_codepoint_def storable_def)
  next
    case False
    obtain n ds where d: "decompose_char lib cp 1 = (n, ds)"
      by (cases "decompose_char lib cp 1") auto
    with assms(2) big False have n: "n = 1"
      by (auto simp: unicode_changes_def normalize_codepoint_def Let_def split: if_splits)
    with d assms(2) big False have hd: "restore_case lib cp ds \<noteq> [] \<and> hd (restore_case lib cp ds) = cp"
      using cp by (auto simp: unicode_changes_def normalize_codepoint_def Let_def split: if_splits list.splits)
    have "length (restore_case lib cp ds) = length ds"
      by (simp add: restore_case_def)
    with hd obtain e es where e: "ds = e # es"
      by (cases ds) auto
    then obtain es' where e': "decompose_char lib cp INFLIGHT_BUFFER_SIZE = (1, e # es')"
      using assms(1) d n unfolding room_independent_def by blast
    have "take 1 (restore_case lib cp (e # es')) = [hd (restore_case lib cp (e # es))]"
      by (auto simp: restore_case_def)
    then have "take 1 (restore_case lib cp (e # es')) = [cp]"
      using hd e by simp
    then show ?thesis
      using big False e' assms(3)
      by (simp add: normalized_codepoints_def normalize_codepoint_def Let_def)
  qed
qed



end
