(* ===== verification/Transformer.thy ===== *)
theory Transformer
  imports Xf_Basic Xf_Decode Xf_Js Xf_Html Xf_Base64 Xf_Command Xf_Path Xf_Parts
begin

text \<open>
  The dispatcher of \<open>src/PWTransformer.cpp\<close> over all transformers, the names the rules give
  them, and the chain that a condition runs: \<open>doesNeedTransform\<close> makes the read-only calls, and
  only when one of them answers true is the chain run, on a copy. What the engine relies on is
  that skipping the chain makes no difference then.
\<close>

section \<open>The code\<close>

datatype transform_id =
    PWT_LOWERCASE | PWT_NONULL | PWT_COMPRESS_WHITE | PWT_LENGTH | PWT_NORMALIZE
  | PWT_NORMALIZE_WIN | PWT_DECODE_URL | PWT_DECODE_URL_IIS | PWT_DECODE_CSS | PWT_DECODE_JS
  | PWT_DECODE_HTML | PWT_DECODE_BASE64 | PWT_DECODE_BASE64_EXT | PWT_ENCODE_BASE64
  | PWT_CMDLINE | PWT_EXTRACT_BASENAME | PWT_EXTRACT_FILENAME | PWT_EXTRACT_QUERYSTR
  | PWT_REMOVE_COMMENTS | PWT_NUMERIZE | PWT_KEYS_ONLY | PWT_VALUES_ONLY
  | PWT_UNICODE_NORMALIZE | PWT_INVALID

text \<open>What the transformers take from outside: \<open>malloc\<close> and utf8proc.\<close>

record environment =
  malloc :: "nat \<Rightarrow> bool"
  unicode :: utf8proc

text \<open>The \<open>do .. while\<close> of \<open>PWT_DECODE_URL_IIS\<close> in the mutable call.\<close>

partial_function (option) iis_loop :: "ddwaf_object \<Rightarrow> (bool \<times> ddwaf_object) option" where
  "iis_loop parameter = do {
     (output, p1) \<leftarrow> runTransform (transformDecodeURL_lambda True) parameter False;
     if output then do {
       (again, p2) \<leftarrow> runTransform (transformDecodeURL_lambda True) p1 True;
       if again then iis_loop p2 else Some (output, p2) }
     else Some (output, p1) }"

declare iis_loop.simps [code]

definition transform ::
    "environment \<Rightarrow> transform_id \<Rightarrow> ddwaf_object \<Rightarrow> bool \<Rightarrow> (bool \<times> ddwaf_object) option" where
  "transform env transformID parameter readOnly =
     (case transformID of
        PWT_LOWERCASE \<Rightarrow> runTransform transformLowerCase parameter readOnly
      | PWT_NONULL \<Rightarrow> runTransform transformNoNull parameter readOnly
      | PWT_COMPRESS_WHITE \<Rightarrow> runTransform transformCompressWhiteSpace parameter readOnly
      | PWT_LENGTH \<Rightarrow> Some (transformLength parameter readOnly)
      | PWT_NORMALIZE \<Rightarrow> runTransform transformNormalize_lambda parameter readOnly
      | PWT_NORMALIZE_WIN \<Rightarrow> runTransform transformNormalizeWin_lambda parameter readOnly
      | PWT_DECODE_URL \<Rightarrow> runTransform (transformDecodeURL_lambda False) parameter readOnly
      | PWT_DECODE_URL_IIS \<Rightarrow>
          if readOnly then runTransform (transformDecodeURL_lambda True) parameter readOnly
          else iis_loop parameter
      | PWT_DECODE_CSS \<Rightarrow> runTransform transformDecodeCSS_lambda parameter readOnly
      | PWT_DECODE_JS \<Rightarrow> runTransform transformDecodeJS_lambda parameter readOnly
      | PWT_DECODE_HTML \<Rightarrow> runTransform transformDecodeHTML_lambda parameter readOnly
      | PWT_DECODE_BASE64 \<Rightarrow> runTransform transformDecodeBase64RFC4648_lambda parameter readOnly
      | PWT_DECODE_BASE64_EXT \<Rightarrow> runTransform transformDecodeBase64RFC2045_lambda parameter readOnly
      | PWT_ENCODE_BASE64 \<Rightarrow> transformEncodeBase64 (malloc env) parameter readOnly
      | PWT_CMDLINE \<Rightarrow> runTransform transformCmdLine_lambda parameter readOnly
      | PWT_REMOVE_COMMENTS \<Rightarrow> runTransform transformRemoveComments_lambda parameter readOnly
      | PWT_EXTRACT_BASENAME \<Rightarrow> transformURLBaseName parameter readOnly
      | PWT_EXTRACT_FILENAME \<Rightarrow> transformURLFilename parameter readOnly
      | PWT_EXTRACT_QUERYSTR \<Rightarrow> transformURLQueryString parameter readOnly
      | PWT_NUMERIZE \<Rightarrow> transformNumerize parameter readOnly
      | PWT_UNICODE_NORMALIZE \<Rightarrow> transformUnicodeNormalize (malloc env) (unicode env) parameter readOnly
      | _ \<Rightarrow> Some (False, parameter))"

definition transform_names :: "(string \<times> transform_id) list" where
  "transform_names =
     [(''urlDecodeUni'', PWT_DECODE_URL_IIS), (''htmlEntityDecode'', PWT_DECODE_HTML),
      (''jsDecode'', PWT_DECODE_JS), (''cssDecode'', PWT_DECODE_CSS), (''cmdLine'', PWT_CMDLINE),
      (''base64Decode'', PWT_DECODE_BASE64), (''base64DecodeExt'', PWT_DECODE_BASE64_EXT),
      (''urlDecode'', PWT_DECODE_URL), (''removeNulls'', PWT_NONULL),
      (''normalizePath'', PWT_NORMALIZE), (''normalizePathWin'', PWT_NORMALIZE_WIN),
      (''compressWhiteSpace'', PWT_COMPRESS_WHITE), (''lowercase'', PWT_LOWERCASE),
      (''length'', PWT_LENGTH), (''base64Encode'', PWT_ENCODE_BASE64),
      (''_sqr_basename'', PWT_EXTRACT_BASENAME), (''_sqr_filename'', PWT_EXTRACT_FILENAME),
      (''_sqr_querystring'', PWT_EXTRACT_QUERYSTR), (''removeComments'', PWT_REMOVE_COMMENTS),
      (''numerize'', PWT_NUMERIZE), (''keys_only'', PWT_KEYS_ONLY), (''values_only'', PWT_KEYS_ONLY),
      (''unicode_normalize'', PWT_UNICODE_NORMALIZE)]"

definition getIDForString :: "string \<Rightarrow> transform_id" where
  "getIDForString str = (case map_of transform_names str of Some i \<Rightarrow> i | None \<Rightarrow> PWT_INVALID)"

text \<open>
  The read-only calls in order, up to the first that answers true. The object is threaded
  through: the HTML decoder writes to it.
\<close>

primrec does_need :: "environment \<Rightarrow> transform_id list \<Rightarrow> ddwaf_object \<Rightarrow> (bool \<times> ddwaf_object) option" where
  "does_need env [] parameter = Some (False, parameter)"
| "does_need env (i # is) parameter = do {
     (need, p) \<leftarrow> transform env i parameter True;
     if need then Some (True, p) else does_need env is p }"

definition doesNeedTransform ::
    "environment \<Rightarrow> transform_id list \<Rightarrow> ddwaf_object option \<Rightarrow> (bool \<times> ddwaf_object option) option" where
  "doesNeedTransform env transformIDs parameter =
     (case parameter of
        None \<Rightarrow> Some (False, None)
      | Some p \<Rightarrow> do { (need, p') \<leftarrow> does_need env transformIDs p; Some (need, Some p') })"

text \<open>
  The chain of \<open>condition::match_object\<close>: it stops at the first transformer that fails, and when
  the string is empty. The result is \<open>transformFailed\<close> and the copy.
\<close>

primrec run_transformers :: "environment \<Rightarrow> transform_id list \<Rightarrow> ddwaf_object \<Rightarrow> (bool \<times> ddwaf_object) option" where
  "run_transformers env [] copy = Some (False, copy)"
| "run_transformers env (i # is) copy = do {
     (ok, c) \<leftarrow> transform env i copy False;
     if \<not> ok \<or> (obj_type c = OBJ_STRING \<and> nbEntries c = 0) then Some (\<not> ok, c)
     else run_transformers env is c }"

section \<open>Repeated URL decoding ends\<close>

text \<open>Every escape that is decoded shortens the string or removes a plus sign.\<close>

definition url_potential :: "char list \<Rightarrow> nat" where
  "url_potential s = 3 * length s + length (filter (eqc (CHR ''+'')) s)"

lemma take_eq_takeD: "take m b = take n a \<Longrightarrow> m \<le> length b \<Longrightarrow> n \<le> length a \<Longrightarrow> m = n"
  by (metis length_take min.absorb2)

lemma url_potential_append: "url_potential (s @ t) = url_potential s + url_potential t"
  by (simp add: url_potential_def)

lemma url_potential_bounds: "3 * length s \<le> url_potential s" "url_potential s \<le> 4 * length s"
  using length_filter_le [of "eqc (CHR ''+'')" s] by (simp_all add: url_potential_def)

lemma url_step_potential:
  assumes "s \<noteq> []" "url_step iis room s = (out, k)"
  shows "k \<le> length s \<and> 0 < k \<and> url_potential out \<le> url_potential (take k s) \<and>
    (url_escape iis s \<noteq> 0 \<longrightarrow> url_potential out < url_potential (take k s))"
proof -
  have e: "url_escape iis s = 1 \<Longrightarrow> s ! 0 = CHR ''+''" "url_escape iis s = 3 \<Longrightarrow> 2 < length s"
    "url_escape iis s = 6 \<Longrightarrow> 5 < length s" "url_escape iis s \<in> {0, 1, 3, 6}"
    by (auto simp: url_escape_def wide_at_def split: if_splits)
  have t1: "take 1 s = [s ! 0]"
    using assms(1) by (cases s) simp_all
  from e(4) consider "url_escape iis s = 0" | "url_escape iis s = 1" | "url_escape iis s = 3" | "url_escape iis s = 6"
    by auto
  then show ?thesis
  proof cases
    case 1
    with assms t1 show ?thesis
      by (cases s) (auto simp: url_step_def)
  next
    case 2
    then have "out = '' ''" "k = 1"
      using assms(2) by (simp_all add: url_step_def)
    with 2 assms(1) t1 e(1) show ?thesis
      by (cases s) (simp_all add: url_potential_def)
  next
    case 3
    then have out: "length out = 1" "k = 3" "length s \<ge> 3"
      using assms(2) e(2) by (auto simp: url_step_def)
    then have "9 \<le> url_potential (take 3 s)" "url_potential out \<le> 4"
      using url_potential_bounds(1) [of "take 3 s"] url_potential_bounds(2) [of out] by simp_all
    with out show ?thesis
      by simp
  next
    case 4
    then have out: "length out \<le> 4" "k = 6" "length s \<ge> 6"
      using assms(2) e(3) length_write_codepoint [of "ucast (hex4 (s ! 2) (s ! 3) (s ! 4) (s ! 5))" "room + 6"]
      by (auto simp: url_step_def Let_def split: if_splits)
    then have "18 \<le> url_potential (take 6 s)" "url_potential out \<le> 16"
      using url_potential_bounds(1) [of "take 6 s"] url_potential_bounds(2) [of out] by simp_all
    with out show ?thesis
      by simp
  qed
qed

lemma url_decode_potential: "url_potential (decode (url_step iis) room s) \<le> url_potential s"
proof (induction "length s" arbitrary: room s rule: less_induct)
  case less
  show ?case
  proof (cases "s = []")
    case False
    obtain out k where st: "url_step iis room s = (out, k)"
      by (cases "url_step iis room s") auto
    note step = url_step_potential [OF False st]
    then have "url_potential (decode (url_step iis) (room + k - length out) (drop k s)) \<le> url_potential (drop k s)"
      using False by (intro less.hyps) auto
    moreover have "url_potential s = url_potential (take k s) + url_potential (drop k s)"
      by (simp flip: url_potential_append)
    ultimately show ?thesis
      using False st step by (subst decode.simps) (auto simp: url_potential_append)
  qed simp
qed

lemma url_decode_decreases:
  assumes "first_stop (\<lambda>s. url_escape iis s \<noteq> 0) s \<noteq> length s"
  shows "url_potential (decode (url_step iis) 0 s) < url_potential s"
proof -
  let ?k = "first_stop (\<lambda>s. url_escape iis s \<noteq> 0) s"
  let ?t = "drop ?k s"
  have "?k < length s"
    using assms first_stop_le [of "\<lambda>s. url_escape iis s \<noteq> 0" s] by simp
  then have t: "?t \<noteq> []"
    by simp
  have stop: "url_escape iis ?t \<noteq> 0"
    using \<open>?k < length s\<close> by (induction s) auto
  obtain out k where st: "url_step iis 0 ?t = (out, k)"
    by (cases "url_step iis 0 ?t") auto
  note step = url_step_potential [OF t st]
  have "decode (url_step iis) 0 ?t = out @ decode (url_step iis) (k - length out) (drop k ?t)"
    using t st step by (subst decode.simps) simp
  moreover have "url_potential ?t = url_potential (take k ?t) + url_potential (drop k ?t)"
    by (simp only: append_take_drop_id flip: url_potential_append)
  ultimately have "url_potential (decode (url_step iis) 0 ?t) < url_potential ?t"
    using step stop url_decode_potential [of iis "k - length out" "drop k ?t"]
    by (simp add: url_potential_append)
  moreover have "url_potential s = url_potential (take ?k s) + url_potential ?t"
    by (simp flip: url_potential_append)
  moreover have "decode (url_step iis) 0 s = take ?k s @ decode (url_step iis) 0 ?t"
    by (rule url.decode_prefix)
  ultimately show ?thesis
    by (simp add: url_potential_append)
qed

lemma url_run:
  assumes "n \<le> length a"
  shows "\<exists>a' n'. runTransform (transformDecodeURL_lambda iis) (Obj k (Str (Some a) n)) False
      = Some (True, Obj k (Str (Some a') n')) \<and> n' \<le> length a' \<and> take n' a' = decode (url_step iis) 0 (take n a)"
    and "runTransform (transformDecodeURL_lambda iis) (Obj k (Str (Some a) n)) True
      = Some (first_stop (\<lambda>s. url_escape iis s \<noteq> 0) (take n a) \<noteq> n, Obj k (Str (Some a) n))"
proof -
  obtain ok a' n' where m: "transformDecodeURL_lambda iis a n False = Some (ok, a', n')" "n' \<le> length a'"
    "take n' a' = decode (url_step iis) 0 (take n a)"
    using url.mutate [OF assms] by blast
  moreover have ok
    using m(1) by (auto simp: transformDecodeURL_lambda_def finished_def bind_eq_Some_conv)
  ultimately show "\<exists>a' n'. runTransform (transformDecodeURL_lambda iis) (Obj k (Str (Some a) n)) False
      = Some (True, Obj k (Str (Some a') n')) \<and> n' \<le> length a' \<and> take n' a' = decode (url_step iis) 0 (take n a)"
    by (auto simp: runTransform_def)
  show "runTransform (transformDecodeURL_lambda iis) (Obj k (Str (Some a) n)) True
      = Some (first_stop (\<lambda>s. url_escape iis s \<noteq> 0) (take n a) \<noteq> n, Obj k (Str (Some a) n))"
    using url.probe [OF assms] assms by (simp add: runTransform_def)
qed

text \<open>C12: Repeated URL decoding (\<open>urlDecodeUni\<close>) terminates on every string, inside the object's
  buffer, and leaves a string in which the read-only call finds nothing more to decode, so that
  no number of nested encodings bypasses it.\<close>

theorem iis_fixpoint:
  assumes "n \<le> length a"
  shows "\<exists>a' n'. transform env PWT_DECODE_URL_IIS (Obj k (Str (Some a) n)) False
      = Some (True, Obj k (Str (Some a') n')) \<and> n' \<le> length a' \<and>
    transform env PWT_DECODE_URL_IIS (Obj k (Str (Some a') n')) True = Some (False, Obj k (Str (Some a') n'))"
proof -
  have "\<exists>a' n'. iis_loop (Obj k (Str (Some a) n)) = Some (True, Obj k (Str (Some a') n')) \<and> n' \<le> length a' \<and>
    runTransform (transformDecodeURL_lambda True) (Obj k (Str (Some a') n')) True
      = Some (False, Obj k (Str (Some a') n'))"
    using assms
  proof (induction "url_potential (take n a)" arbitrary: a n rule: less_induct)
    case less
    let ?stop = "\<lambda>s. url_escape True s \<noteq> 0"
    obtain b m where b: "runTransform (transformDecodeURL_lambda True) (Obj k (Str (Some a) n)) False
        = Some (True, Obj k (Str (Some b) m))" "m \<le> length b" "take m b = decode (url_step True) 0 (take n a)"
      using url_run(1) [OF less.prems] by blast
    note probe = url_run(2) [OF b(2), of True k]
    show ?case
    proof (cases "first_stop ?stop (take m b) = m")
      case True
      with b probe show ?thesis
        by (subst iis_loop.simps) simp
    next
      case False
      have "first_stop ?stop (take n a) \<noteq> length (take n a)"
      proof
        assume "first_stop ?stop (take n a) = length (take n a)"
        then have "decode (url_step True) 0 (take n a) = take n a"
          using url.decode_prefix [of True "take n a"]
          by (simp only: take_all drop_all order.refl decode_Nil append_Nil2)
        with b(3) have "take m b = take n a"
          by (simp only:)
        moreover from this have "m = n"
          using b(2) less.prems by (rule take_eq_takeD)
        ultimately have "take m b = take n a" "m = n"
          by simp_all
        with False \<open>first_stop ?stop (take n a) = length (take n a)\<close> less.prems show False
          by simp
      qed
      then have "url_potential (take m b) < url_potential (take n a)"
        unfolding b(3) by (rule url_decode_decreases)
      from less.hyps [OF this b(2)] b(1) probe False show ?thesis
        by (subst iis_loop.simps) simp
    qed
  qed
  then show ?thesis
    by (simp add: transform_def)
qed

theorem iis_fixpoint_witness:
  "\<exists>a' n'. transform \<lparr>malloc = (\<lambda>n. True), unicode = plain_lib\<rparr> PWT_DECODE_URL_IIS
      (Obj None (Str (Some ''%252541'') 7)) False = Some (True, Obj None (Str (Some a') n')) \<and>
    transform \<lparr>malloc = (\<lambda>n. True), unicode = plain_lib\<rparr> PWT_DECODE_URL_IIS
      (Obj None (Str (Some a') n')) True = Some (False, Obj None (Str (Some a') n'))"
  using iis_fixpoint [of 7 "''%252541''" "\<lparr>malloc = (\<lambda>n. True), unicode = plain_lib\<rparr>" None] by auto

section \<open>Skipping a chain that has nothing to do\<close>

text \<open>Objects that differ at most in the bytes of a string's allocation after its end.\<close>

definition same_string :: "ddwaf_object \<Rightarrow> ddwaf_object \<Rightarrow> bool" where
  "same_string ob ob' \<longleftrightarrow> ob = ob' \<or> (\<exists>k a a' n. ob = Obj k (Str (Some a) n) \<and> ob' = Obj k (Str (Some a') n) \<and>
     n \<le> length a \<and> n \<le> length a' \<and> take n a = take n a')"

lemma same_string_refl: "same_string ob ob"
  by (simp add: same_string_def)

lemma same_string_trans: "same_string x y \<Longrightarrow> same_string y z \<Longrightarrow> same_string x z"
  by (auto simp: same_string_def)

lemma same_string_wf: "same_string ob ob' \<Longrightarrow> wf_object ob \<Longrightarrow> wf_object ob'"
  by (auto simp: same_string_def wf_string)

lemma same_string_contents: "same_string ob ob' \<Longrightarrow> contents ob' = contents ob"
  by (auto simp: same_string_def contents_def)

text \<open>
  A transformer whose read-only call can be trusted: it looks only at the string, and when it
  answers false the mutable call keeps the string.
\<close>

definition quiet :: "(ddwaf_object \<Rightarrow> bool \<Rightarrow> (bool \<times> ddwaf_object) option) \<Rightarrow> bool" where
  "quiet f \<longleftrightarrow> (\<forall>ob. wf_object ob \<longrightarrow> (\<exists>b. (\<forall>ob'. same_string ob ob' \<longrightarrow> f ob' True = Some (b, ob')) \<and>
     (\<not> b \<longrightarrow> (\<exists>ok ob'. f ob False = Some (ok, ob') \<and> same_string ob ob'))))"

lemma quietE:
  assumes "quiet f" "wf_object ob"
  obtains b where "\<And>ob'. same_string ob ob' \<Longrightarrow> f ob' True = Some (b, ob')"
    "\<not> b \<Longrightarrow> \<exists>ok ob'. f ob False = Some (ok, ob') \<and> same_string ob ob'"
  using assms unfolding quiet_def by metis

lemma quietI:
  assumes "\<And>k a n. n \<le> length a \<Longrightarrow> \<exists>b.
      (\<forall>a'. n \<le> length a' \<longrightarrow> take n a = take n a' \<longrightarrow>
         f (Obj k (Str (Some a') n)) True = Some (b, Obj k (Str (Some a') n))) \<and>
      (\<not> b \<longrightarrow> (\<exists>ok a'. f (Obj k (Str (Some a) n)) False = Some (ok, Obj k (Str (Some a') n)) \<and>
         n \<le> length a' \<and> take n a = take n a'))"
    and "\<And>ob. (\<And>k a n. ob \<noteq> Obj k (Str (Some a) n)) \<Longrightarrow>
      \<exists>b. f ob True = Some (b, ob) \<and> (\<not> b \<longrightarrow> (\<exists>ok. f ob False = Some (ok, ob)))"
  shows "quiet f"
  unfolding quiet_def
proof (intro allI impI)
  fix ob
  assume wf: "wf_object ob"
  show "\<exists>b. (\<forall>ob'. same_string ob ob' \<longrightarrow> f ob' True = Some (b, ob')) \<and>
     (\<not> b \<longrightarrow> (\<exists>ok ob'. f ob False = Some (ok, ob') \<and> same_string ob ob'))"
  proof (cases "\<exists>k a n. ob = Obj k (Str (Some a) n)")
    case True
    then obtain k a n where ob: "ob = Obj k (Str (Some a) n)" and n: "n \<le> length a"
      using wf by (auto simp: wf_string)
    obtain b where b: "\<And>a'. n \<le> length a' \<Longrightarrow> take n a = take n a' \<Longrightarrow>
         f (Obj k (Str (Some a') n)) True = Some (b, Obj k (Str (Some a') n))"
      "\<not> b \<Longrightarrow> \<exists>ok a'. f (Obj k (Str (Some a) n)) False = Some (ok, Obj k (Str (Some a') n)) \<and>
         n \<le> length a' \<and> take n a = take n a'"
      using assms(1) [OF n, of k] by blast
    have "f ob' True = Some (b, ob')" if "same_string ob ob'" for ob'
      using that b(1) n unfolding same_string_def ob by blast
    moreover have "\<exists>ok ob'. f ob False = Some (ok, ob') \<and> same_string ob ob'" if "\<not> b"
      using b(2) [OF that] n unfolding same_string_def ob by blast
    ultimately show ?thesis
      by blast
  next
    case False
    then have "ob' = ob" if "same_string ob ob'" for ob'
      using that unfolding same_string_def by blast
    moreover obtain b where "f ob True = Some (b, ob)" "\<not> b \<Longrightarrow> \<exists>ok. f ob False = Some (ok, ob)"
      using assms(2) [of ob] False by blast
    ultimately show ?thesis
      using same_string_refl by metis
  qed
qed

lemma not_string_run:
  "(\<And>k a n. ob \<noteq> Obj k (Str (Some a) n)) \<Longrightarrow> runTransform T ob r = Some (False, ob)"
  by (cases ob) (auto simp: runTransform_def split: obj_value.split option.split)

context transformer
begin

lemma run_quiet: "quiet (runTransform T)"
proof (rule quietI)
  fix k and a :: buf and n
  assume n: "n \<le> length a"
  obtain ok a' n' where m: "T a n False = Some (ok, a', n')" "n' \<le> length a'" "take n' a' = spec (take n a)"
    using mutate [OF n] by blast
  have "n' = n \<and> take n a = take n a'" if "\<not> needs (take n a)"
    using take_eq_takeD [of n' a' n a] m(2,3) n sound [OF that] by auto
  with m n probe show "\<exists>b.
      (\<forall>a'. n \<le> length a' \<longrightarrow> take n a = take n a' \<longrightarrow>
         runTransform T (Obj k (Str (Some a') n)) True = Some (b, Obj k (Str (Some a') n))) \<and>
      (\<not> b \<longrightarrow> (\<exists>ok a'. runTransform T (Obj k (Str (Some a) n)) False = Some (ok, Obj k (Str (Some a') n)) \<and>
         n \<le> length a' \<and> take n a = take n a'))"
    by (intro exI [of _ "needs (take n a)"]) (auto simp: runTransform_def)
qed (simp add: not_string_run ex_bool_eq)

end

text \<open>Some transformers keep the promise by refusing to act.\<close>

lemma quiet_length: "quiet (\<lambda>ob r. Some (transformLength ob r))"
  by (rule quietI) (auto simp: transformLength_def obj_type_def)

lemma quiet_part: "quiet (transform_part f)"
  by (rule quietI) (auto simp: transform_part_def obj_type_def not_string_run ex_bool_eq)

lemma quiet_encode: "quiet (transformEncodeBase64 alloc)"
proof (rule quietI)
  fix ob
  assume "\<And>k a n. ob \<noteq> Obj k (Str (Some a) n)"
  then have "transformEncodeBase64 alloc ob r = Some (False, ob)" for r
    by (cases ob) (auto simp: transformEncodeBase64_def split: obj_value.split option.split)
  then show "\<exists>b. transformEncodeBase64 alloc ob True = Some (b, ob) \<and>
      (\<not> b \<longrightarrow> (\<exists>ok. transformEncodeBase64 alloc ob False = Some (ok, ob)))"
    by (simp add: ex_bool_eq)
qed (auto simp: transformEncodeBase64_def)

lemma numerize_loop_total:
  "n \<le> length a \<Longrightarrow> n \<le> length b \<Longrightarrow> take n a = take n b \<Longrightarrow>
   \<exists>r. numerize_loop a n p v = Some r \<and> numerize_loop b n p v = Some r"
proof (induction "n - p" arbitrary: p v rule: less_induct)
  case less
  show ?case
  proof (cases "p < n")
    case True
    then have "a ! p = b ! p" "n - Suc p < n - p"
      using less.prems(3) by (metis nth_take) (use True in simp)
    with less.hyps [of "Suc p"] less.prems True show ?thesis
      by (subst (1 2) numerize_loop.simps) auto
  next
    case False
    then show ?thesis
      by (subst (1 2) numerize_loop.simps) simp
  qed
qed

lemma quiet_numerize: "quiet transformNumerize"
proof (rule quietI)
  fix k and a :: buf and n
  assume n: "n \<le> length a"
  have total: "\<exists>r. numerize_loop a n p 0 = Some r" for p
    using numerize_loop_total [OF n n refl] by blast
  have same: "rd a' 0 = rd a 0 \<and> numerize_loop a' n p 0 = numerize_loop a n p 0"
    if "n \<noteq> 0" "n \<le> length a'" "take n a = take n a'" for a' p
  proof -
    have "0 < length a" "0 < length a'" "a ! 0 = a' ! 0"
      using that n nth_take [of 0 n a] nth_take [of 0 n a'] by (linarith, linarith, simp)
    then show ?thesis
      using numerize_loop_total [OF n that(2,3), of p 0] by auto
  qed
  show "\<exists>b.
      (\<forall>a'. n \<le> length a' \<longrightarrow> take n a = take n a' \<longrightarrow>
         transformNumerize (Obj k (Str (Some a') n)) True = Some (b, Obj k (Str (Some a') n))) \<and>
      (\<not> b \<longrightarrow> (\<exists>ok a'. transformNumerize (Obj k (Str (Some a) n)) False = Some (ok, Obj k (Str (Some a') n)) \<and>
         n \<le> length a' \<and> take n a = take n a'))"
  proof (cases "n = 0")
    case False
    then obtain c where c: "rd a 0 = Some c"
      using n rd_in [of 0 a] by fastforce
    obtain r where r: "numerize_loop a n (if c = CHR ''-'' then 1 else 0) 0 = Some r"
      using total by blast
    let ?b = "r \<noteq> None \<and> \<not> (c = CHR ''-'' \<and> (the r > INT64_MAX \<or> n = 1))"
    have "transformNumerize (Obj k (Str (Some a') n)) True = Some (?b, Obj k (Str (Some a') n))"
      if "n \<le> length a'" "take n a = take n a'" for a'
      using False c r same [OF False that] by (auto simp: transformNumerize_def Let_def split: option.split)
    moreover have "transformNumerize (Obj k (Str (Some a) n)) False = Some (False, Obj k (Str (Some a) n))" if "\<not> ?b"
      using False c r that by (auto simp: transformNumerize_def Let_def split: option.split)
    ultimately show ?thesis
      using n by blast
  qed (use n in \<open>auto simp: transformNumerize_def ex_bool_eq\<close>)
next
  fix ob
  assume "\<And>k a n. ob \<noteq> Obj k (Str (Some a) n)"
  then have "transformNumerize ob r = Some (False, ob)" for r
    by (cases ob) (auto simp: transformNumerize_def split: obj_value.split option.split)
  then show "\<exists>b. transformNumerize ob True = Some (b, ob) \<and>
      (\<not> b \<longrightarrow> (\<exists>ok. transformNumerize ob False = Some (ok, ob)))"
    by (simp add: ex_bool_eq)
qed

lemma quiet_iis: "quiet (transform env PWT_DECODE_URL_IIS)"
proof (rule quietI)
  fix k and a :: buf and n
  assume n: "n \<le> length a"
  let ?b = "first_stop (\<lambda>s. url_escape True s \<noteq> 0) (take n a) \<noteq> n"
  have "\<exists>ok a'. transform env PWT_DECODE_URL_IIS (Obj k (Str (Some a) n)) False
      = Some (ok, Obj k (Str (Some a') n)) \<and> n \<le> length a' \<and> take n a = take n a'" if "\<not> ?b"
  proof -
    obtain a' n' where m: "runTransform (transformDecodeURL_lambda True) (Obj k (Str (Some a) n)) False
        = Some (True, Obj k (Str (Some a') n'))" "n' \<le> length a'" "take n' a' = decode (url_step True) 0 (take n a)"
      using url_run(1) [OF n] by blast
    have "first_stop (\<lambda>s. url_escape True s \<noteq> 0) (take n a) = length (take n a)"
      using that n by simp
    then have same: "take n' a' = take n a"
      using url.decode_prefix [of True "take n a"] m(3)
      by (simp only: take_all drop_all order.refl decode_Nil append_Nil2)
    then have "n' = n"
      using m(2) n by (rule take_eq_takeD)
    then show ?thesis
      using m same url_run(2) [OF m(2), of True k] that
      by (simp add: transform_def) (subst iis_loop.simps, simp add: ex_bool_eq)
  qed
  moreover have "transform env PWT_DECODE_URL_IIS (Obj k (Str (Some a') n)) True = Some (?b, Obj k (Str (Some a') n))"
    if "n \<le> length a'" "take n a = take n a'" for a'
    using url_run(2) [OF that(1), of True k] that(2) by (simp add: transform_def)
  ultimately show "\<exists>b. (\<forall>a'. n \<le> length a' \<longrightarrow> take n a = take n a' \<longrightarrow>
         transform env PWT_DECODE_URL_IIS (Obj k (Str (Some a') n)) True = Some (b, Obj k (Str (Some a') n))) \<and>
      (\<not> b \<longrightarrow> (\<exists>ok a'. transform env PWT_DECODE_URL_IIS (Obj k (Str (Some a) n)) False
         = Some (ok, Obj k (Str (Some a') n)) \<and> n \<le> length a' \<and> take n a = take n a'))"
    by blast
next
  fix ob
  assume "\<And>k a n. ob \<noteq> Obj k (Str (Some a) n)"
  then show "\<exists>b. transform env PWT_DECODE_URL_IIS ob True = Some (b, ob) \<and>
      (\<not> b \<longrightarrow> (\<exists>ok. transform env PWT_DECODE_URL_IIS ob False = Some (ok, ob)))"
    by (subst (2) transform_def) (simp add: transform_def not_string_run iis_loop.simps [of ob] ex_bool_eq)
qed

text \<open>
  The transformers that keep the promise. The HTML decoder misses references and stores into the
  string in its read-only call; the base64 decoders answer false on strings that are not valid
  base64, which they would change; the Unicode normaliser does not count invalid glyphs, which it
  would drop.
\<close>

definition trusted :: "transform_id \<Rightarrow> bool" where
  "trusted i \<longleftrightarrow>
     i \<notin> {PWT_DECODE_HTML, PWT_DECODE_BASE64, PWT_DECODE_BASE64_EXT, PWT_UNICODE_NORMALIZE}"

lemma trusted_quiet: "trusted i \<Longrightarrow> quiet (transform env i)"
proof -
  have "quiet (\<lambda>ob r. Some (False, ob))"
    by (rule quietI) auto
  then show "trusted i \<Longrightarrow> quiet (transform env i)"
    using lowercase.run_quiet nonull.run_quiet compress.run_quiet quiet_length path.run_quiet path_win.run_quiet
      url.run_quiet quiet_iis [of env] css.run_quiet js.run_quiet quiet_encode [of "malloc env"]
      cmdline.run_quiet comments.run_quiet quiet_part quiet_numerize
    by (cases i)
      (simp_all add: trusted_def transform_def [abs_def] transformURLBaseName_def transformURLFilename_def
        transformURLQueryString_def)
qed

lemma does_need_false:
  "wf_object ob \<Longrightarrow> list_all trusted ids \<Longrightarrow> \<exists>b. does_need env ids ob = Some (b, ob) \<and>
     (\<not> b \<longrightarrow> (\<forall>i \<in> set ids. transform env i ob True = Some (False, ob)))"
proof (induction ids)
  case (Cons i ids)
  obtain b where "transform env i ob True = Some (b, ob)"
    by (rule quietE [OF trusted_quiet [of i env], of ob]) (use Cons.prems same_string_refl in auto)
  with Cons show ?case
    by (cases b) auto
qed (simp add: ex_bool_eq)

lemma quiet_chain:
  "wf_object ob \<Longrightarrow> list_all trusted ids \<Longrightarrow> same_string ob c \<Longrightarrow>
   \<forall>i \<in> set ids. transform env i ob True = Some (False, ob) \<Longrightarrow>
   \<exists>failed c'. run_transformers env ids c = Some (failed, c') \<and> same_string ob c'"
proof (induction ids arbitrary: c)
  case (Cons i ids)
  have wf: "wf_object c"
    using Cons.prems(1,3) by (rule same_string_wf [rotated])
  have q: "quiet (transform env i)"
    using Cons.prems(2) by (intro trusted_quiet) simp
  obtain b where b: "\<And>ob'. same_string ob ob' \<Longrightarrow> transform env i ob' True = Some (b, ob')"
    by (rule quietE [OF q Cons.prems(1)]) (rule that)
  with same_string_refl [of ob] Cons.prems(4) have "\<not> b"
    by fastforce
  with b [OF Cons.prems(3)] have "transform env i c True = Some (False, c)"
    by simp
  then obtain ok c' where c': "transform env i c False = Some (ok, c')" "same_string c c'"
    using same_string_refl [of c] by (rule_tac quietE [OF q wf]) auto
  then have "same_string ob c'"
    using Cons.prems(3) same_string_trans by blast
  with c'(1) Cons.IH [of c'] Cons.prems show ?case
    by auto
qed (auto intro: same_string_refl)

text \<open>C11: For every chain of transformers whose read-only calls can be trusted, \<open>doesNeedTransform\<close>
  returns without touching the object; and when it answers false, running the whole chain would
  have left the object's string exactly as it is, so that a condition that skips the chain
  matches the same text.\<close>

theorem skipped_chain_changes_nothing:
  assumes "wf_object ob" "list_all trusted ids"
  shows "\<exists>need. doesNeedTransform env ids (Some ob) = Some (need, Some ob) \<and>
    (\<not> need \<longrightarrow> (\<exists>failed c. run_transformers env ids ob = Some (failed, c) \<and> wf_object c \<and>
       contents c = contents ob))"
proof -
  obtain b where b: "does_need env ids ob = Some (b, ob)"
    "\<not> b \<Longrightarrow> \<forall>i \<in> set ids. transform env i ob True = Some (False, ob)"
    using does_need_false [OF assms] by blast
  have "\<exists>failed c. run_transformers env ids ob = Some (failed, c) \<and> wf_object c \<and> contents c = contents ob" if "\<not> b"
    using quiet_chain [OF assms same_string_refl b(2) [OF that]] same_string_wf [OF _ assms(1)]
      same_string_contents by blast
  with b(1) show ?thesis
    by (simp add: doesNeedTransform_def)
qed

theorem skipped_chain_changes_nothing_witness:
  "\<exists>need. doesNeedTransform \<lparr>malloc = (\<lambda>n. True), unicode = plain_lib\<rparr>
      [PWT_LOWERCASE, PWT_DECODE_URL_IIS, PWT_NORMALIZE] (Some (Obj None (Str (Some ''/a/b'') 4)))
    = Some (need, Some (Obj None (Str (Some ''/a/b'') 4)))"
  using skipped_chain_changes_nothing [of "Obj None (Str (Some ''/a/b'') 4)"
      "[PWT_LOWERCASE, PWT_DECODE_URL_IIS, PWT_NORMALIZE]" "\<lparr>malloc = (\<lambda>n. True), unicode = plain_lib\<rparr>"]
  by (auto simp: wf_string trusted_def)

text \<open>The name of the values-only pseudo transformer is bound to the keys-only one.\<close>

lemma values_only_is_keys_only:
  "getIDForString ''values_only'' = PWT_KEYS_ONLY" "PWT_VALUES_ONLY \<notin> snd ` set transform_names"
  by code_simp+

end
