(* ===== verification/Engine_Base.thy ===== *)
theory Engine_Base
  imports Objects
begin

text \<open>
  What the components of the engine share: the limits (\<open>src/config.hpp\<close>), references to the
  objects of an input, the deadline (\<open>src/clock.hpp\<close>, \<open>src/clock.cpp\<close>), the manifest of
  addresses (\<open>src/manifest.hpp\<close>, \<open>src/manifest.cpp\<close>) and the string cut-off of
  \<open>src/utils.cpp\<close>.
\<close>

section \<open>Limits and references\<close>

record object_limits =
  max_container_depth :: nat
  max_container_size :: nat
  max_string_length :: nat

text \<open>
  The engine compares objects by their address. A reference is an address with the object that
  is there: the address of an entry of a container is the container's address and the index.
\<close>

type_synonym addr = "nat list"
type_synonym ref = "addr \<times> ddwaf_object"

abbreviation addr_of :: "ref \<Rightarrow> addr" where "addr_of \<equiv> fst"
abbreviation obj_of :: "ref \<Rightarrow> ddwaf_object" where "obj_of \<equiv> snd"

definition child_at :: "ref \<Rightarrow> nat \<Rightarrow> ref" where
  "child_at r i = (addr_of r @ [i], children (obj_of r) ! i)"

lemma obj_child_at [simp]: "obj_of (child_at r i) = children (obj_of r) ! i"
  by (simp add: child_at_def)

lemma addr_child_at [simp]: "addr_of (child_at r i) = addr_of r @ [i]"
  by (simp add: child_at_def)

section \<open>The clock and the deadline\<close>

text \<open>
  What one call of \<open>clock_gettime\<close> answers: the return code and the two fields. A failing call
  makes the code report time 0. Time points are nanoseconds.
\<close>

type_synonym timespec = "int \<times> int \<times> int"

definition monotonic_now :: "timespec \<Rightarrow> int" where
  "monotonic_now ts =
     (case ts of (ret, tv_sec, tv_nsec) \<Rightarrow> if ret < 0 then 0 else tv_sec * 1000000000 + tv_nsec)"

text \<open>
  The timer, and next to it the number of readings made so far: \<open>clock\<close> gives the answer of
  every reading.
\<close>

type_synonym clock = "nat \<Rightarrow> timespec"

record timer =
  t_start :: int
  t_end :: int
  syscall_period :: u32
  calls :: u32
  expired_flag :: bool
  readings :: nat

definition new_timer :: "clock \<Rightarrow> nat \<Rightarrow> int \<Rightarrow> u32 \<Rightarrow> timer" where
  "new_timer clock i expiry_us period =
     (let start = monotonic_now (clock i) in
      \<lparr>t_start = start, t_end = start + expiry_us * 1000, syscall_period = period, calls = 1,
       expired_flag = False, readings = i + 1\<rparr>)"

definition expired :: "clock \<Rightarrow> timer \<Rightarrow> bool \<times> timer" where
  "expired clock t =
     (if expired_flag t then (True, t)
      else let t1 = t\<lparr>calls := calls t - 1\<rparr> in
        if calls t1 = 0 then
          (let t2 = t1\<lparr>readings := readings t1 + 1\<rparr> in
           if t_end t2 \<le> monotonic_now (clock (readings t1)) then (True, t2\<lparr>expired_flag := True\<rparr>)
           else (False, t2\<lparr>calls := syscall_period t2\<rparr>))
        else (False, t1))"

definition expired_before :: "timer \<Rightarrow> bool" where
  "expired_before t = expired_flag t"

definition elapsed :: "clock \<Rightarrow> timer \<Rightarrow> int" where
  "elapsed clock t = monotonic_now (clock (readings t)) - t_start t"

text \<open>Consecutive calls of \<open>expired\<close>, as a caller makes them.\<close>

primrec poll :: "clock \<Rightarrow> nat \<Rightarrow> timer \<Rightarrow> bool \<times> timer" where
  "poll clock 0 t = (expired_flag t, t)"
| "poll clock (Suc n) t = (let (b, t') = poll clock n t in expired clock t')"

definition timer_ok :: "timer \<Rightarrow> bool" where
  "timer_ok t \<longleftrightarrow> 0 < syscall_period t \<and> (expired_flag t \<or> (0 < calls t \<and> calls t \<le> syscall_period t))"

lemma timer_ok_new: "0 < period \<Longrightarrow> timer_ok (new_timer clock i us period)"
proof -
  assume "0 < period"
  then have "1 \<le> period"
    by (metis inc_le word_gt_0 word_le_sub1 word_not_simps(1) add_0)
  with \<open>0 < period\<close> show ?thesis
    by (simp add: timer_ok_def new_timer_def Let_def)
qed

lemma expired_steps:
  assumes "\<not> expired_flag t" "0 < calls t"
  shows "1 < calls t \<Longrightarrow> expired clock t = (False, t\<lparr>calls := calls t - 1\<rparr>)"
    and "calls t = 1 \<Longrightarrow> expired clock t =
      (if t_end t \<le> monotonic_now (clock (readings t))
       then (True, t\<lparr>calls := 0, readings := readings t + 1, expired_flag := True\<rparr>)
       else (False, t\<lparr>calls := syscall_period t, readings := readings t + 1\<rparr>))"
  using assms by (auto simp: expired_def Let_def)

lemma expired_ok:
  assumes "timer_ok t" "expired clock t = (b, t')"
  shows "timer_ok t' \<and> b = expired_flag t' \<and> t_end t' = t_end t \<and> syscall_period t' = syscall_period t \<and>
    readings t \<le> readings t' \<and>
    (expired_flag t \<longrightarrow> b) \<and>
    (b \<longrightarrow> expired_flag t \<or> (\<exists>i \<in> {readings t..<readings t'}. t_end t \<le> monotonic_now (clock i)))"
proof (cases "expired_flag t")
  case True
  with assms show ?thesis
    by (auto simp: expired_def)
next
  case False
  then have c: "0 < calls t" "calls t \<le> syscall_period t" "0 < syscall_period t"
    using assms(1) by (simp_all add: timer_ok_def)
  then have n: "0 < unat (calls t)" "unat (calls t) \<le> unat (syscall_period t)"
    by (simp_all add: word_less_nat_alt word_le_nat_alt)
  consider "calls t = 1" | "1 < calls t"
    using n(1) by (cases "unat (calls t) = 1") (simp_all add: word_less_nat_alt word_unat_eq_iff)
  then show ?thesis
  proof cases
    case 1
    have "1 \<le> syscall_period t"
      using n by (simp add: word_le_nat_alt)
    with expired_steps(2) [OF False c(1) 1, of clock] assms(2) c(3) False show ?thesis
      by (cases "t_end t \<le> monotonic_now (clock (readings t))") (auto simp: timer_ok_def)
  next
    case 2
    then have "unat (calls t - 1) = unat (calls t) - 1"
      by (intro unat_minus_one) auto
    then have "0 < calls t - 1" "calls t - 1 \<le> syscall_period t"
      using n 2 by (simp_all add: word_less_nat_alt word_le_nat_alt)
    with expired_steps(1) [OF False c(1) 2, of clock] assms(2) c(3) False show ?thesis
      by (auto simp: timer_ok_def)
  qed
qed

lemma poll_ok:
  assumes "timer_ok t" "poll clock n t = (b, t')"
  shows "timer_ok t' \<and> b = expired_flag t' \<and> t_end t' = t_end t \<and> syscall_period t' = syscall_period t \<and>
    readings t \<le> readings t' \<and>
    (expired_flag t \<longrightarrow> b) \<and>
    (b \<longrightarrow> expired_flag t \<or> (\<exists>i \<in> {readings t..<readings t'}. t_end t \<le> monotonic_now (clock i)))"
  using assms(2)
proof (induction n arbitrary: b t')
  case 0
  with assms(1) show ?case
    by auto
next
  case (Suc n)
  obtain b1 t1 where p: "poll clock n t = (b1, t1)"
    by fastforce
  note IH = Suc.IH [OF p]
  have e: "expired clock t1 = (b, t')"
    using Suc.prems p by simp
  have "readings t1 \<le> readings t'"
    using expired_ok [OF _ e] IH by blast
  with expired_ok [OF _ e] IH show ?case
    by (smt (verit) atLeastLessThan_iff order_trans order_less_le_trans)
qed

lemma poll_countdown:
  assumes "timer_ok t" "\<not> expired_flag t"
  shows "n < unat (calls t) \<Longrightarrow> poll clock n t = (False, t\<lparr>calls := calls t - of_nat n\<rparr>)"
proof (induction n)
  case (Suc n)
  let ?t = "t\<lparr>calls := calls t - of_nat n\<rparr>"
  have "unat (of_nat n :: u32) = n"
  proof -
    have "unat (calls t) < 2 ^ 32"
      using unsigned_less [of "calls t"] by simp
    with Suc.prems have "n < 2 ^ 32"
      by linarith
    then show ?thesis
      by (simp add: unsigned_of_nat take_bit_nat_eq_self)
  qed
  then have "unat (calls t - of_nat n) = unat (calls t) - n"
    using Suc.prems by (subst unat_sub) (simp_all add: word_le_nat_alt)
  then have "1 < calls t - of_nat n"
    using Suc.prems by (simp add: word_less_nat_alt)
  then have "expired clock ?t = (False, ?t\<lparr>calls := calls ?t - 1\<rparr>)"
    using expired_steps(1) [of ?t clock] assms(2) by (simp add: word_less_nat_alt)
  with Suc show ?case
    by (simp add: diff_diff_eq)
qed (use assms in simp)

text \<open>C32: The deadline is sound and is noticed in time: a timer that was not expired reports
  expiry only after a reading of the clock at or past its end, and when every reading from now on
  is past the end, it reports expiry after at most as many calls as its system-call period.\<close>

theorem deadline_noticed:
  assumes "timer_ok t" "\<not> expired_flag t" "poll clock n t = (b, t')"
  shows "(b \<longrightarrow> (\<exists>i \<in> {readings t..<readings t'}. t_end t \<le> monotonic_now (clock i))) \<and>
    ((\<forall>i \<ge> readings t. t_end t \<le> monotonic_now (clock i)) \<longrightarrow> unat (syscall_period t) \<le> n \<longrightarrow> b)"
proof (intro conjI impI)
  assume late: "\<forall>i \<ge> readings t. t_end t \<le> monotonic_now (clock i)" and n: "unat (syscall_period t) \<le> n"
  let ?c = "unat (calls t)"
  have c: "0 < ?c" "?c \<le> n"
    using assms(1,2) n by (simp_all add: timer_ok_def word_less_nat_alt word_le_nat_alt)
  let ?t = "t\<lparr>calls := calls t - of_nat (?c - 1)\<rparr>"
  have "of_nat (?c - 1) = calls t - 1"
    using c(1) by (simp add: of_nat_diff)
  then have "calls ?t = 1"
    by simp
  then have "fst (expired clock ?t)"
    using expired_steps(2) [of ?t clock] assms(2) late by simp
  then have "fst (poll clock ?c t)"
    using poll_countdown [OF assms(1,2), of "?c - 1" clock] c(1) by (cases ?c) simp_all
  moreover have "fst (poll clock (Suc m) t)" if m: "fst (poll clock m t)" for m
  proof -
    obtain t1 where p: "poll clock m t = (True, t1)"
      using m by (metis prod.collapse)
    then show ?thesis
      using poll_ok [OF assms(1) p] by (simp add: expired_def)
  qed
  ultimately have "fst (poll clock (?c + k) t)" for k
    by (induction k) auto
  from this [of "n - ?c"] c(2) assms(3) show b
    by simp
qed (use poll_ok [OF assms(1,3)] assms(2) in blast)

theorem deadline_noticed_witness:
  "\<exists>b t'. poll (\<lambda>i. (0, int i, 0)) 16 (new_timer (\<lambda>i. (0, int i, 0)) 0 1000 16) = (b, t') \<and>
     (b \<longrightarrow> (\<exists>i \<in> {1..<readings t'}. 1000000 \<le> monotonic_now (0, int i, 0)))"
proof -
  let ?clock = "\<lambda>i. (0, int i, 0)"
  let ?t = "new_timer ?clock 0 1000 16"
  obtain b t' where p: "poll ?clock 16 ?t = (b, t')"
    by fastforce
  have t: "timer_ok ?t" "\<not> expired_flag ?t" "readings ?t = 1" "t_end ?t = 1000000"
    by (rule timer_ok_new, simp) (simp_all add: new_timer_def monotonic_now_def Let_def)
  show ?thesis
    using deadline_noticed [OF t(1,2) p] p unfolding t(3,4) by blast
qed

text \<open>What a call that may throw \<open>ddwaf::timeout_exception\<close> gives.\<close>

datatype 'a run = Return 'a | Timeout_Exception

section \<open>The manifest\<close>

text \<open>
  The addresses that the rules use, each with its identifier. \<open>targets_\<close> is a hash map: the order
  of the list stands for the unspecified order of its iteration.
\<close>

record manifest =
  targets :: "(string \<times> u32) list"
  index :: u32
  root_addresses :: "string list"

definition empty_manifest :: manifest where
  "empty_manifest = \<lparr>targets = [], index = 0, root_addresses = []\<rparr>"

definition manifest_insert :: "manifest \<Rightarrow> string \<Rightarrow> u32 \<times> manifest" where
  "manifest_insert m root =
     (case map_of (targets m) root of
        Some t \<Rightarrow> (t, m)
      | None \<Rightarrow> (index m + 1, m\<lparr>targets := targets m @ [(root, index m + 1)], index := index m + 1\<rparr>))"

definition manifest_find :: "manifest \<Rightarrow> string \<Rightarrow> u32 option" where
  "manifest_find m root = map_of (targets m) root"

definition remove_unused :: "manifest \<Rightarrow> u32 set \<Rightarrow> manifest" where
  "remove_unused m valid_targets = m\<lparr>targets := filter (\<lambda>(root, t). t \<in> valid_targets) (targets m)\<rparr>"

definition get_root_addresses :: "manifest \<Rightarrow> string list \<times> manifest" where
  "get_root_addresses m =
     (let addresses = (if root_addresses m = [] then map fst (targets m) else root_addresses m)
      in (addresses, m\<lparr>root_addresses := addresses\<rparr>))"

text \<open>Every address once, every identifier once and none beyond the last one given.\<close>

definition manifest_ok :: "manifest \<Rightarrow> bool" where
  "manifest_ok m \<longleftrightarrow> distinct (map fst (targets m)) \<and> distinct (map snd (targets m)) \<and>
     (\<forall>t \<in> snd ` set (targets m). 0 < t \<and> t \<le> index m)"

primrec manifest_inserts :: "manifest \<Rightarrow> string list \<Rightarrow> manifest" where
  "manifest_inserts m [] = m"
| "manifest_inserts m (r # rs) = manifest_inserts (snd (manifest_insert m r)) rs"

lemma manifest_insert_ok:
  assumes "manifest_ok m" "unat (index m) + 1 < 2 ^ 32" "manifest_insert m root = (t, m')"
  shows "manifest_ok m' \<and> unat (index m') \<le> unat (index m) + 1 \<and> manifest_find m' root = Some t \<and>
    (\<forall>r. r \<noteq> root \<longrightarrow> manifest_find m' r = manifest_find m r)"
proof (cases "map_of (targets m) root")
  case None
  have i: "unat (index m + 1) = unat (index m) + 1"
    using assms(2) by (subst unat_plus_simple [THEN iffD1]) (auto simp: word_le_nat_alt unat_word_ariths)
  have m': "m' = m\<lparr>targets := targets m @ [(root, index m + 1)], index := index m + 1\<rparr>" "t = index m + 1"
    using assms(3) None unfolding manifest_insert_def by auto
  have less: "x < index m + 1" if "x \<in> snd ` set (targets m)" for x
    using that assms(1) i by (force simp: manifest_ok_def word_le_nat_alt word_less_nat_alt)
  then have "manifest_ok m'"
    using assms(1) None i unfolding m'
    by (auto simp: manifest_ok_def map_of_eq_None_iff word_less_nat_alt word_le_nat_alt less_imp_le)
  then show ?thesis
    using None i by (auto simp: m' manifest_find_def map_add_def split: option.split)
next
  case (Some t0)
  then show ?thesis
    using assms by (auto simp: manifest_insert_def manifest_find_def)
qed

lemma manifest_inserts_ok:
  "manifest_ok m \<Longrightarrow> unat (index m) + length rs < 2 ^ 32 \<Longrightarrow>
   manifest_ok (manifest_inserts m rs) \<and>
   dom (manifest_find (manifest_inserts m rs)) = dom (manifest_find m) \<union> set rs \<and>
   (\<forall>r t. manifest_find m r = Some t \<longrightarrow> manifest_find (manifest_inserts m rs) r = Some t)"
proof (induction rs arbitrary: m)
  case (Cons r rs)
  obtain t m' where i: "manifest_insert m r = (t, m')"
    by fastforce
  have step: "manifest_ok m' \<and> unat (index m') \<le> unat (index m) + 1 \<and> manifest_find m' r = Some t \<and>
      (\<forall>q. q \<noteq> r \<longrightarrow> manifest_find m' q = manifest_find m q)"
    using manifest_insert_ok [OF Cons.prems(1) _ i] Cons.prems(2) by simp
  have old: "manifest_find m' q = Some u" if "manifest_find m q = Some u" for q u
    using that i step by (cases "q = r") (auto simp: manifest_insert_def manifest_find_def)
  have "dom (manifest_find m') = insert r (dom (manifest_find m))"
    using step by (auto simp: dom_def)
  with Cons.IH [of m'] Cons.prems(2) step i old show ?case
    by auto
qed auto

text \<open>C33: A manifest built by inserting addresses gives every address of the rules one identifier
  of its own, distinct addresses getting distinct identifiers, finds no other address, and
  removing the unused identifiers forgets exactly the addresses that have them.\<close>

theorem manifest_unique_ids:
  assumes "length rs < 2 ^ 32"
  defines "m \<equiv> manifest_inserts empty_manifest rs"
  shows "dom (manifest_find m) = set rs \<and>
    inj_on (manifest_find m) (set rs) \<and>
    (\<forall>valid r. manifest_find (remove_unused m valid) r =
      (case manifest_find m r of None \<Rightarrow> None | Some t \<Rightarrow> if t \<in> valid then Some t else None))"
proof -
  have "manifest_ok empty_manifest" "unat (index empty_manifest) + length rs < 2 ^ 32"
    using assms(1) by (simp_all add: manifest_ok_def empty_manifest_def)
  from manifest_inserts_ok [OF this] have m: "manifest_ok m" "dom (manifest_find m) = set rs"
    by (auto simp: m_def manifest_find_def empty_manifest_def)
  have "inj_on (manifest_find m) (set rs)"
  proof (rule inj_onI)
    fix x y
    assume xy: "x \<in> set rs" "y \<in> set rs" "manifest_find m x = manifest_find m y"
    then obtain t where "(x, t) \<in> set (targets m)" "(y, t) \<in> set (targets m)"
      using m(2) by (metis domD manifest_find_def map_of_SomeD)
    moreover have "inj_on snd (set (targets m))"
      using m(1) by (simp add: manifest_ok_def distinct_map)
    ultimately have "(x, t) = (y, t)"
      by (intro inj_onD [of snd "set (targets m)"]) simp_all
    then show "x = y"
      by simp
  qed
  moreover have "manifest_find (remove_unused m valid) r =
      (case manifest_find m r of None \<Rightarrow> None | Some t \<Rightarrow> if t \<in> valid then Some t else None)" for valid r
  proof -
    have "distinct (map fst xs) \<Longrightarrow> map_of (filter (\<lambda>(root, t). t \<in> valid) xs) r =
        (case map_of xs r of None \<Rightarrow> None | Some t \<Rightarrow> if t \<in> valid then Some t else None)" for xs :: "(string \<times> u32) list"
      by (induction xs) (auto simp: map_of_eq_None_iff split: option.split)
    then show ?thesis
      using m(1) by (simp add: manifest_find_def remove_unused_def manifest_ok_def)
  qed
  ultimately show ?thesis
    using m(2) by blast
qed

theorem manifest_unique_ids_witness:
  "dom (manifest_find (manifest_inserts empty_manifest [''a'', ''b'', ''a''])) = {''a'', ''b''}"
  using manifest_unique_ids [of "[''a'', ''b'', ''a'']"] by auto

end
