(* ===== verification/Cutoff.thy ===== *)
theory Cutoff
  imports Utf8
begin

text \<open>
  \<open>find_string_cutoff\<close> of \<open>src/utils.cpp\<close>: where to cut a string that is too long without cutting
  through a UTF-8 sequence.
\<close>

fun cutoff_loop :: "buf \<Rightarrow> nat \<Rightarrow> nat option" where
  "cutoff_loop str 0 = Some 0"
| "cutoff_loop str (Suc pos) = do {
     c \<leftarrow> rd str (Suc pos);
     if byte c AND 0xC0 = 0x80 then cutoff_loop str pos else Some (Suc pos) }"

definition find_string_cutoff :: "buf \<Rightarrow> nat \<Rightarrow> nat \<Rightarrow> nat option" where
  "find_string_cutoff str len max_string_length =
     (if len \<le> max_string_length then Some len else cutoff_loop str max_string_length)"

definition continuation :: "char \<Rightarrow> bool" where
  "continuation c \<longleftrightarrow> byte c AND 0xC0 = 0x80"

lemma cutoff_loop_correct:
  "p < length s \<Longrightarrow> \<exists>k. cutoff_loop s p = Some k \<and> k \<le> p \<and> (k = 0 \<or> \<not> continuation (s ! k)) \<and>
     (\<forall>i. k < i \<longrightarrow> i \<le> p \<longrightarrow> continuation (s ! i))"
  by (induction p) (auto simp: continuation_def le_Suc_eq)

text \<open>In an encoding the first byte, and only that, is no continuation byte.\<close>

lemma continuation_char32: "continuation (char32 (0x80 OR (w AND 0x3F)))"
proof -
  have "byte (char32 (0x80 OR (w AND 0x3F))) AND 0xC0 = 0x80"
    by (rule bit_word_eqI) (auto simp: char32_def bit_simps masks32 bit_numeral_rec bit_1_iff less_Suc_eq numeral_eq_Suc)
  then show ?thesis
    by (simp add: continuation_def)
qed

lemma header_no_continuation:
  "\<not> continuation (char32 (0xC0 OR (w AND 0x1F)))" "\<not> continuation (char32 (0xE0 OR (w AND 0x0F)))"
  "\<not> continuation (char32 (0xF0 OR (w AND 0x07)))" "w \<le> 0x7F \<Longrightarrow> \<not> continuation (char32 w)"
proof -
  have six: "\<not> continuation c" if "bit (byte c) 6" for c
  proof
    assume "continuation c"
    then have "bit (byte c AND 0xC0) 6 = bit (0x80 :: u8) 6"
      by (simp add: continuation_def)
    with that show False
      by (simp add: bit_simps prefix_bits)
  qed
  show "\<not> continuation (char32 (0xC0 OR (w AND 0x1F)))" "\<not> continuation (char32 (0xE0 OR (w AND 0x0F)))"
    "\<not> continuation (char32 (0xF0 OR (w AND 0x07)))"
    by (rule six, simp add: char32_def bit_simps prefix_bits)+
  show "\<not> continuation (char32 w)" if "w \<le> 0x7F"
  proof
    assume "continuation (char32 w)"
    then have "bit (byte (char32 w) AND 0xC0) 7 = bit (0x80 :: u8) 7"
      by (simp add: continuation_def)
    with ascii_byte [OF that] top_bit [of "byte (char32 w)"] show False
      by (simp add: bit_simps prefix_bits)
  qed
qed

lemma glyph_shape:
  assumes "cp \<le> UTF8_MAX_CODEPOINT"
  shows "\<exists>h t. codepoint_to_bytes cp = h # t \<and> \<not> continuation h \<and> list_all continuation t"
  using assms header_no_continuation continuation_char32
  by (auto simp: codepoint_to_bytes_def not_less)

abbreviation utf8 :: "u32 list \<Rightarrow> char list" where
  "utf8 cps \<equiv> concat (map codepoint_to_bytes cps)"

text \<open>A position that holds no continuation byte starts a code point.\<close>

lemma boundary:
  "list_all (\<lambda>cp. cp \<le> UTF8_MAX_CODEPOINT) cps \<Longrightarrow> k < length (utf8 cps) \<Longrightarrow> \<not> continuation (utf8 cps ! k) \<Longrightarrow>
   \<exists>j. k = length (utf8 (take j cps))"
proof (induction cps arbitrary: k)
  case (Cons cp cps)
  obtain h t where g: "codepoint_to_bytes cp = h # t" "\<not> continuation h" "list_all continuation t"
    using glyph_shape [of cp] Cons.prems(1) by auto
  show ?case
  proof (cases "k < length (h # t)")
    case True
    then have "k = 0"
      using Cons.prems(3) g by (cases k) (auto simp: nth_append list_all_length)
    then show ?thesis
      by (intro exI [of _ 0]) simp
  next
    case False
    then have "utf8 (cp # cps) ! k = utf8 cps ! (k - length (h # t))"
      by (simp only: list.map concat.simps g(1) nth_append if_False)
    moreover have "k - length (h # t) < length (utf8 cps)"
      using False Cons.prems(2) g(1) by simp
    ultimately obtain j where "k - length (h # t) = length (utf8 (take j cps))"
      using Cons.IH [of "k - length (h # t)"] Cons.prems g(1) by auto
    then show ?thesis
      using False g by (intro exI [of _ "Suc j"]) simp
  qed
qed simp

lemma boundary_start:
  "list_all (\<lambda>cp. cp \<le> UTF8_MAX_CODEPOINT) cps \<Longrightarrow> length (utf8 (take j cps)) < length (utf8 cps) \<Longrightarrow>
   \<not> continuation (utf8 cps ! length (utf8 (take j cps)))"
proof (induction cps arbitrary: j)
  case (Cons cp cps)
  obtain h t where g: "codepoint_to_bytes cp = h # t" "\<not> continuation h"
    using glyph_shape [of cp] Cons.prems(1) by auto
  show ?case
    using Cons g by (cases j) (auto simp: nth_append)
qed simp

text \<open>C34: Cutting a string of well-formed UTF-8 to a maximal length reads only the string and
  leaves whole code points: the result is the longest prefix of whole code points that is not
  longer than the maximum.\<close>

theorem cutoff_whole_codepoints:
  assumes "list_all (\<lambda>cp. cp \<le> UTF8_MAX_CODEPOINT) cps" "take len str = utf8 cps" "len \<le> length str"
  shows "\<exists>j k. find_string_cutoff str len max_string_length = Some k \<and> k \<le> max_string_length \<and>
    take k str = utf8 (take j cps) \<and>
    (\<forall>i. length (utf8 (take i cps)) \<le> max_string_length \<longrightarrow> length (utf8 (take i cps)) \<le> k)"
proof -
  have len: "length (utf8 cps) = len"
    using assms(2,3) by (metis length_take min.absorb2)
  have nth: "str ! i = utf8 cps ! i" if "i < len" for i
    using that assms(2) by (metis nth_take)
  have pre: "length (utf8 (take i cps)) \<le> len" for i
  proof -
    have "utf8 cps = utf8 (take i cps) @ utf8 (drop i cps)"
      by (simp flip: concat_append map_append)
    with len show ?thesis
      by (metis length_append le_add1)
  qed
  show ?thesis
  proof (cases "len \<le> max_string_length")
    case True
    then show ?thesis
      using assms(2) pre by (intro exI [of _ "length cps"] exI [of _ len]) (simp add: find_string_cutoff_def)
  next
    case False
    then obtain k where k: "cutoff_loop str max_string_length = Some k" "k \<le> max_string_length"
      "k = 0 \<or> \<not> continuation (str ! k)" "\<And>i. k < i \<Longrightarrow> i \<le> max_string_length \<Longrightarrow> continuation (str ! i)"
      using cutoff_loop_correct [of max_string_length str] assms(3) by auto
    have "\<exists>j. k = length (utf8 (take j cps))"
    proof (cases "k = 0")
      case True
      then show ?thesis
        by (intro exI [of _ 0]) simp
    next
      case nz: False
      then show ?thesis
        using boundary [OF assms(1), of k] k(2,3) nth [of k] False len by simp
    qed
    then obtain j where j: "k = length (utf8 (take j cps))"
      by blast
    have "utf8 cps = utf8 (take j cps) @ utf8 (drop j cps)"
      by (simp flip: concat_append map_append)
    then have "take k (take len str) = utf8 (take j cps)"
      using j assms(2) by simp
    then have "take k str = utf8 (take j cps)"
      using k(2) False by (simp add: min_def)
    moreover have "length (utf8 (take i cps)) \<le> k" if "length (utf8 (take i cps)) \<le> max_string_length" for i
    proof (rule ccontr)
      assume "\<not> length (utf8 (take i cps)) \<le> k"
      then have "continuation (str ! length (utf8 (take i cps)))"
        using k(4) that by simp
      with boundary_start [OF assms(1), of i] nth that False len show False
        by simp
    qed
    ultimately show ?thesis
      using k(1,2) False by (auto simp: find_string_cutoff_def)
  qed
qed

theorem cutoff_whole_codepoints_witness:
  "\<exists>j k. find_string_cutoff [CHR ''a'', CHR 0xE2, CHR 0x82, CHR 0xAC, CHR ''b''] 5 3 = Some k \<and>
     take k [CHR ''a'', CHR 0xE2, CHR 0x82, CHR 0xAC, CHR ''b''] = utf8 (take j [0x61, 0x20AC, 0x62])"
proof -
  have "utf8 [0x61, 0x20AC, 0x62] = [CHR ''a'', CHR 0xE2, CHR 0x82, CHR 0xAC, CHR ''b'']"
    by code_simp
  then show ?thesis
    using cutoff_whole_codepoints [of "[0x61, 0x20AC, 0x62]" 5 "[CHR ''a'', CHR 0xE2, CHR 0x82, CHR 0xAC, CHR ''b'']" 3]
    by auto
qed

end
