(* ===== verification/Iterators.thy ===== *)
theory Iterators
  imports Engine_Base "HOL-Library.Sublist"
begin

text \<open>
  The iterators over an object (\<open>src/iterator.hpp\<close>, \<open>src/iterator.cpp\<close>): \<open>value_iterator\<close> goes
  through the scalars, \<open>key_iterator\<close> through the entries that have a key, both within the
  limits and without the excluded objects.
\<close>

section \<open>The state\<close>

text \<open>
  The stack of containers with the index of the next entry, innermost first; the key path the
  iterator was started with, once it is found; the current object.
\<close>

type_synonym frame = "ref \<times> nat"

record iter =
  it_path :: "string list"
  it_stack :: "frame list"
  it_current :: "ref option"

definition fresh_iter :: iter where
  "fresh_iter = \<lparr>it_path = [], it_stack = [], it_current = None\<rparr>"

definition depth :: "iter \<Rightarrow> nat" where
  "depth it = length (it_stack it) + length (it_path it)"

text \<open>The position of the entries that are left in a container: what bounds the loops.\<close>

function weight :: "ddwaf_object \<Rightarrow> nat" where
  "weight ob = 2 + sum_list (map weight (children ob))"
  by pat_completeness auto
termination
  by (relation "measure size") (auto intro: child_size)

declare weight.simps [simp del]

definition frame_weight :: "frame \<Rightarrow> nat" where
  "frame_weight f = 1 + sum_list (map weight (drop (snd f) (children (obj_of (fst f)))))"

abbreviation stack_weight :: "frame list \<Rightarrow> nat" where
  "stack_weight st \<equiv> sum_list (map frame_weight st)"

lemma frame_weight_next:
  "i < length (children (obj_of p)) \<Longrightarrow>
   frame_weight (p, i) = weight (children (obj_of p) ! i) + frame_weight (p, Suc i)"
  by (simp add: frame_weight_def Cons_nth_drop_Suc [symmetric])

lemma frame_weight_push: "frame_weight (child_at p i, 0) < weight (children (obj_of p) ! i)"
  by (simp add: frame_weight_def weight.simps [of "children (obj_of p) ! i"])

lemma weight_pos: "0 < weight ob"
  by (simp add: weight.simps [of ob])

text \<open>Every entry there is: a container of the model is not a null array.\<close>

definition in_frame :: "object_limits \<Rightarrow> frame \<Rightarrow> bool" where
  "in_frame lim f \<longleftrightarrow>
     snd f < length (children (obj_of (fst f))) \<and> snd f < max_container_size lim"

section \<open>The value iterator\<close>

text \<open>\<open>value_iterator::set_cursor_to_next_object\<close>; \<open>path\<close> is the size of the key path.\<close>

function value_next ::
    "object_limits \<Rightarrow> addr set \<Rightarrow> nat \<Rightarrow> frame list \<Rightarrow> ref option \<times> frame list" where
  "value_next lim excluded path [] = (None, [])"
| "value_next lim excluded path ((parent, i) # rest) =
     (if \<not> in_frame lim (parent, i) then value_next lim excluded path rest
      else let child = child_at parent i in
        if addr_of child \<in> excluded then value_next lim excluded path ((parent, Suc i) # rest)
        else if is_container (obj_of child) then
          (if Suc (length rest) + path < max_container_depth lim
           then value_next lim excluded path ((child, 0) # (parent, Suc i) # rest)
           else value_next lim excluded path ((parent, Suc i) # rest))
        else if is_scalar (obj_of child) then (Some child, (parent, Suc i) # rest)
        else value_next lim excluded path ((parent, Suc i) # rest))"
  by pat_completeness auto
termination
proof (relation "measure (\<lambda>(lim, excluded, path, st). stack_weight st)", goal_cases)
  case (2 lim excluded path parent i rest)
  then show ?case
    by (simp add: frame_weight_def)
next
  case (3 lim excluded path parent i rest)
  then show ?case
    using frame_weight_next [of i parent] weight_pos by (simp add: in_frame_def)
next
  case (4 lim excluded path parent i rest)
  then show ?case
    using frame_weight_next [of i parent] frame_weight_push [of parent i] by (simp add: in_frame_def)
next
  case (5 lim excluded path parent i rest)
  then show ?case
    using frame_weight_next [of i parent] weight_pos by (simp add: in_frame_def)
next
  case (6 lim excluded path parent i rest)
  then show ?case
    using frame_weight_next [of i parent] weight_pos by (simp add: in_frame_def)
qed simp

declare value_next.simps [simp del]

text \<open>
  The entry of a map that has a key of the path: the first that is not excluded, within the size
  limit. Both iterators search it the same way.
\<close>

definition find_key :: "object_limits \<Rightarrow> addr set \<Rightarrow> ref \<Rightarrow> string \<Rightarrow> nat option" where
  "find_key lim excluded parent key =
     (let size = min (length (children (obj_of parent))) (max_container_size lim);
          hit = (\<lambda>j. parameterName (children (obj_of parent) ! j) = Some key
                     \<and> addr_of (child_at parent j) \<notin> excluded)
      in find hit [0..<size])"

text \<open>
  The loop over the path, with the container on top of the stack and its index. It ends with a
  scalar, with the container that the whole path leads to, or with the entries left of a
  container where it stopped.
\<close>

datatype descent = Scalar ref | Inside ref | Stuck frame

primrec value_descend :: "object_limits \<Rightarrow> addr set \<Rightarrow> nat \<Rightarrow> ref \<Rightarrow> string list \<Rightarrow> descent" where
  "value_descend lim excluded i parent [] = Inside parent"
| "value_descend lim excluded i parent (key # keys) =
     (case (if is_map (obj_of parent) then find_key lim excluded parent key else None) of
        None \<Rightarrow> Stuck (parent, 0)
      | Some j \<Rightarrow>
          let child = child_at parent j in
          if is_scalar (obj_of child) \<and> keys = [] then Scalar child
          else if is_container (obj_of child) then
            (if i + 1 = max_container_depth lim then Stuck (parent, j + 1)
             else value_descend lim excluded (i + 1) child keys)
          else Stuck (parent, j + 1))"

definition value_init :: "object_limits \<Rightarrow> addr set \<Rightarrow> ref \<Rightarrow> string list \<Rightarrow> iter" where
  "value_init lim excluded ob path =
     (if addr_of ob \<in> excluded then fresh_iter
      else if path = [] then
        (if is_scalar (obj_of ob) then fresh_iter\<lparr>it_current := Some ob\<rparr>
         else if \<not> is_container (obj_of ob) then fresh_iter
         else if max_container_depth lim > 0 then
           (let (cur, st) = value_next lim excluded 0 [(ob, 0)]
            in fresh_iter\<lparr>it_current := cur, it_stack := st\<rparr>)
         else fresh_iter)
      else if \<not> is_container (obj_of ob) \<or> length path > max_container_depth lim then fresh_iter
      else (case value_descend lim excluded 0 ob path of
              Scalar child \<Rightarrow> \<lparr>it_path = path, it_stack = [], it_current = Some child\<rparr>
            | Inside final \<Rightarrow>
                (let (cur, st) = value_next lim excluded 0 [(final, 0)]
                 in \<lparr>it_path = (if cur \<noteq> None then path else []), it_stack = st, it_current = cur\<rparr>)
            | Stuck f \<Rightarrow> fresh_iter\<lparr>it_stack := [f]\<rparr>))"

text \<open>\<open>operator++\<close>.\<close>

definition value_step :: "object_limits \<Rightarrow> addr set \<Rightarrow> iter \<Rightarrow> iter" where
  "value_step lim excluded it =
     (case it_current it of
        None \<Rightarrow> it
      | Some _ \<Rightarrow>
          (let (cur, st) = value_next lim excluded (length (it_path it)) (it_stack it)
           in it\<lparr>it_current := cur, it_stack := st\<rparr>))"

definition value_type :: "iter \<Rightarrow> obj_type" where
  "value_type it = (case it_current it of None \<Rightarrow> OBJ_INVALID | Some r \<Rightarrow> obj_type (obj_of r))"

section \<open>The key iterator\<close>

text \<open>
  \<open>key_iterator::set_cursor_to_next_object\<close>: a container with a key is reported before it is
  entered, without moving the index; \<open>previous\<close> tells that it has been.
\<close>

abbreviation has_key :: "ref \<Rightarrow> bool" where
  "has_key child \<equiv> parameterName (obj_of child) \<noteq> None"

definition reports :: "addr option \<Rightarrow> ref \<Rightarrow> bool" where
  "reports previous child \<longleftrightarrow> previous \<noteq> Some (addr_of child) \<and> has_key child"

function key_next ::
    "object_limits \<Rightarrow> addr set \<Rightarrow> nat \<Rightarrow> addr option \<Rightarrow> frame list \<Rightarrow> ref option \<times> frame list" where
  "key_next lim excluded path previous [] = (None, [])"
| "key_next lim excluded path previous ((parent, i) # rest) =
     (if \<not> in_frame lim (parent, i) then key_next lim excluded path previous rest
      else let child = child_at parent i in
        if addr_of child \<in> excluded then key_next lim excluded path previous ((parent, Suc i) # rest)
        else if is_container (obj_of child) then
          (if reports previous child
           then (Some child, (parent, i) # rest)
           else if Suc (length rest) + path < max_container_depth lim
           then key_next lim excluded path previous ((child, 0) # (parent, Suc i) # rest)
           else key_next lim excluded path previous ((parent, Suc i) # rest))
        else if has_key child then (Some child, (parent, Suc i) # rest)
        else key_next lim excluded path previous ((parent, Suc i) # rest))"
  by pat_completeness auto
termination
proof (relation "measure (\<lambda>(lim, excluded, path, previous, st). stack_weight st)", goal_cases)
  case (2 lim excluded path previous parent i rest)
  then show ?case
    by (simp add: frame_weight_def)
next
  case (3 lim excluded path previous parent i rest)
  then show ?case
    using frame_weight_next [of i parent] weight_pos by (simp add: in_frame_def)
next
  case (4 lim excluded path previous parent i rest)
  then show ?case
    using frame_weight_next [of i parent] frame_weight_push [of parent i] by (simp add: in_frame_def)
next
  case (5 lim excluded path previous parent i rest)
  then show ?case
    using frame_weight_next [of i parent] weight_pos by (simp add: in_frame_def)
next
  case (6 lim excluded path previous parent i rest)
  then show ?case
    using frame_weight_next [of i parent] weight_pos by (simp add: in_frame_def)
qed simp

declare key_next.simps [simp del]

text \<open>
  The path must lead to a container here, and the index of the entry followed is not advanced.
\<close>

primrec key_descend :: "object_limits \<Rightarrow> addr set \<Rightarrow> ref \<Rightarrow> string list \<Rightarrow> descent" where
  "key_descend lim excluded parent [] = Inside parent"
| "key_descend lim excluded parent (key # keys) =
     (case (if obj_type (obj_of parent) = OBJ_MAP then find_key lim excluded parent key else None) of
        None \<Rightarrow> Stuck (parent, 0)
      | Some j \<Rightarrow>
          let child = child_at parent j in
          if is_container (obj_of child) then key_descend lim excluded child keys
          else Stuck (parent, j))"

definition key_init :: "object_limits \<Rightarrow> addr set \<Rightarrow> ref \<Rightarrow> string list \<Rightarrow> iter" where
  "key_init lim excluded ob path =
     (if addr_of ob \<in> excluded then fresh_iter
      else if \<not> is_container (obj_of ob) then fresh_iter
      else if path = [] then
        (if max_container_depth lim > 0 then
           (let (cur, st) = key_next lim excluded 0 None [(ob, 0)]
            in fresh_iter\<lparr>it_current := cur, it_stack := st\<rparr>)
         else fresh_iter)
      else if length path \<ge> max_container_depth lim then fresh_iter
      else (case key_descend lim excluded ob path of
              Inside final \<Rightarrow>
                (let (cur, st) = key_next lim excluded 0 None [(final, 0)]
                 in \<lparr>it_path = (if cur \<noteq> None then path else []), it_stack = st, it_current = cur\<rparr>)
            | Stuck f \<Rightarrow> fresh_iter\<lparr>it_stack := [f]\<rparr>
            | Scalar c \<Rightarrow> fresh_iter))"

definition key_step :: "object_limits \<Rightarrow> addr set \<Rightarrow> iter \<Rightarrow> iter" where
  "key_step lim excluded it =
     (case it_current it of
        None \<Rightarrow> it
      | Some c \<Rightarrow>
          (let (cur, st) = key_next lim excluded (length (it_path it)) (Some (addr_of c)) (it_stack it)
           in it\<lparr>it_current := cur, it_stack := st\<rparr>))"

definition key_type :: "iter \<Rightarrow> obj_type option" where
  "key_type it = map_option (\<lambda>r. if has_key r then OBJ_STRING else OBJ_INVALID) (it_current it)"

text \<open>What dereferencing gives: the key of the current object as a string.\<close>

definition key_deref :: "iter \<Rightarrow> ddwaf_object option" where
  "key_deref it =
     (case it_current it of
        None \<Rightarrow> None
      | Some r \<Rightarrow> (case parameterName (obj_of r) of
                    None \<Rightarrow> None
                  | Some k \<Rightarrow> ddwaf_object_stringl_nc (Some (Obj None Invalid)) (Some k) (length k)))"

section \<open>The key path of the current object\<close>

text \<open>One entry of the path; the index is that of the next entry, and wraps around.\<close>

definition path_entry :: "ref \<Rightarrow> nat \<Rightarrow> ref \<Rightarrow> string list" where
  "path_entry parent parent_index child =
     (if obj_type (obj_of parent) = OBJ_MAP \<and> parameterName (obj_of child) \<noteq> None
      then [the (parameterName (obj_of child))]
      else if obj_type (obj_of parent) = OBJ_ARRAY
      then [dec_nat ((parent_index + SIZE_MAX) mod (SIZE_MAX + 1))]
      else [])"

text \<open>The loop, from the outermost frame.\<close>

fun path_entries :: "frame list \<Rightarrow> ref \<Rightarrow> string list" where
  "path_entries [] current = []"
| "path_entries [(parent, i)] current = path_entry parent i current"
| "path_entries ((parent, i) # (child, j) # fs) current =
     path_entry parent i child @ path_entries ((child, j) # fs) current"

definition get_current_path :: "iter \<Rightarrow> string list" where
  "get_current_path it =
     (case it_current it of
        None \<Rightarrow> []
      | Some c \<Rightarrow> it_path it @ path_entries (rev (it_stack it)) c)"

section \<open>What the value iterator goes through\<close>

definition entry_count :: "object_limits \<Rightarrow> ref \<Rightarrow> nat" where
  "entry_count lim r = min (length (children (obj_of r))) (max_container_size lim)"

lemma in_frame_count: "in_frame lim (p, i) \<longleftrightarrow> i < entry_count lim p"
  by (simp add: in_frame_def entry_count_def)

lemma child_smaller: "i < entry_count lim r \<Longrightarrow> size (obj_of (child_at r i)) < size (obj_of r)"
  by (simp add: entry_count_def child_size)

function scalars_below :: "object_limits \<Rightarrow> addr set \<Rightarrow> nat \<Rightarrow> ref \<Rightarrow> ref list" where
  "scalars_below lim excluded d r = concat (map (\<lambda>i.
     (let c = child_at r i in
      if addr_of c \<in> excluded then []
      else if is_container (obj_of c) then
        (if d < max_container_depth lim then scalars_below lim excluded (Suc d) c else [])
      else if is_scalar (obj_of c) then [c] else [])) [0..<entry_count lim r])"
  by pat_completeness auto
termination
  by (relation "measure (\<lambda>(lim, excluded, d, r). size (obj_of r))") (auto simp: child_size entry_count_def)

declare scalars_below.simps [simp del]

definition scalar_entry :: "object_limits \<Rightarrow> addr set \<Rightarrow> nat \<Rightarrow> ref \<Rightarrow> ref list" where
  "scalar_entry lim excluded d c =
     (if addr_of c \<in> excluded then []
      else if is_container (obj_of c) then
        (if d < max_container_depth lim then scalars_below lim excluded (Suc d) c else [])
      else if is_scalar (obj_of c) then [c] else [])"

definition frame_scalars :: "object_limits \<Rightarrow> addr set \<Rightarrow> nat \<Rightarrow> frame \<Rightarrow> ref list" where
  "frame_scalars lim excluded d f =
     concat (map (\<lambda>i. scalar_entry lim excluded d (child_at (fst f) i)) [snd f..<entry_count lim (fst f)])"

lemma scalars_below_frame: "scalars_below lim excluded d r = frame_scalars lim excluded d (r, 0)"
  by (subst scalars_below.simps) (simp add: frame_scalars_def scalar_entry_def Let_def)

lemma frame_scalars_next:
  "frame_scalars lim excluded d (p, i) =
     (if in_frame lim (p, i)
      then scalar_entry lim excluded d (child_at p i) @ frame_scalars lim excluded d (p, Suc i) else [])"
  by (simp add: frame_scalars_def in_frame_count upt_conv_Cons)

primrec stack_scalars :: "object_limits \<Rightarrow> addr set \<Rightarrow> nat \<Rightarrow> frame list \<Rightarrow> ref list" where
  "stack_scalars lim excluded path [] = []"
| "stack_scalars lim excluded path (f # fs) =
     frame_scalars lim excluded (Suc (length fs) + path) f @ stack_scalars lim excluded path fs"

lemma value_next_scalars:
  "value_next lim excluded path st = (cur, st') \<Longrightarrow>
   stack_scalars lim excluded path st =
     (case cur of None \<Rightarrow> [] | Some r \<Rightarrow> r # stack_scalars lim excluded path st')"
proof (induction lim excluded path st arbitrary: cur st' rule: value_next.induct)
  case (1 lim excluded path)
  then show ?case
    by (simp add: value_next.simps)
next
  case (2 lim excluded path parent i rest)
  let ?c = "child_at parent i"
  show ?case
  proof (cases "in_frame lim (parent, i)")
    case False
    with "2.IH"(1) [OF False] "2.prems" show ?thesis
      by (simp add: value_next.simps(2) [of lim excluded path parent i rest] frame_scalars_next [of _ _ _ parent i])
  next
    case True
    then have ni: "\<not> \<not> in_frame lim (parent, i)"
      by simp
    note IH = "2.IH"(2-5) [OF ni refl]
    from True IH "2.prems" show ?thesis
      by (auto simp: value_next.simps(2) [of lim excluded path parent i rest] frame_scalars_next [of _ _ _ parent i]
          scalar_entry_def Let_def scalars_below_frame [of _ _ _ ?c] del: addr_child_at obj_child_at
          split: if_splits)
  qed
qed

text \<open>The objects the iterator stands on, one after the other, for at most \<open>n\<close> steps.\<close>

primrec value_run :: "object_limits \<Rightarrow> addr set \<Rightarrow> nat \<Rightarrow> iter \<Rightarrow> ref list" where
  "value_run lim excluded 0 it = []"
| "value_run lim excluded (Suc n) it =
     (case it_current it of
        None \<Rightarrow> []
      | Some c \<Rightarrow> c # value_run lim excluded n (value_step lim excluded it))"

lemma value_run_take:
  "it_current it = Some c \<Longrightarrow> value_run lim excluded n it =
     take n (c # stack_scalars lim excluded (length (it_path it)) (it_stack it))"
proof (induction n arbitrary: it c)
  case (Suc n)
  obtain cur st' where nx: "value_next lim excluded (length (it_path it)) (it_stack it) = (cur, st')"
    by fastforce
  note sc = value_next_scalars [OF nx]
  let ?it = "it\<lparr>it_current := cur, it_stack := st'\<rparr>"
  have step: "value_step lim excluded it = ?it"
    using Suc.prems nx by (simp add: value_step_def)
  show ?case
  proof (cases cur)
    case None
    then show ?thesis
      using Suc.prems sc step by (cases n) simp_all
  next
    case (Some r)
    then show ?thesis
      using Suc.prems Suc.IH [of ?it r] sc step by simp
  qed
qed simp

text \<open>C18: Started on an object without a key path, the value iterator goes exactly through the
  scalars at and below it, in depth-first order, with no excluded object or anything below one,
  no entry past the size limit and no container past the depth limit, and then ends: after any
  number of steps it has produced the corresponding prefix of the recursive enumeration.\<close>

theorem value_iterator_enumerates:
  "value_run lim excluded n (value_init lim excluded ob []) = take n
     (if addr_of ob \<in> excluded then []
      else if is_scalar (obj_of ob) then [ob]
      else if is_container (obj_of ob) \<and> max_container_depth lim > 0 then scalars_below lim excluded 1 ob
      else [])"
proof -
  obtain cur st where nx: "value_next lim excluded 0 [(ob, 0)] = (cur, st)"
    by fastforce
  have sc: "scalars_below lim excluded 1 ob =
      (case cur of None \<Rightarrow> [] | Some r \<Rightarrow> r # stack_scalars lim excluded 0 st)"
    using value_next_scalars [OF nx] by (simp add: scalars_below_frame)
  have none: "it_current it = None \<Longrightarrow> value_run lim excluded n it = []" for it
    by (cases n) simp_all
  show ?thesis
  proof (cases "addr_of ob \<notin> excluded \<and> \<not> is_scalar (obj_of ob) \<and> is_container (obj_of ob) \<and> max_container_depth lim > 0")
    case True
    let ?it = "fresh_iter\<lparr>it_current := cur, it_stack := st\<rparr>"
    have init: "value_init lim excluded ob [] = ?it"
      using True nx by (simp add: value_init_def)
    show ?thesis
      using True sc none [of ?it] value_run_take [of ?it _ lim excluded n] unfolding init
      by (cases cur) (simp_all add: fresh_iter_def)
  next
    case False
    then show ?thesis
      using none [of fresh_iter] value_run_take [of "fresh_iter\<lparr>it_current := Some ob\<rparr>" ob lim excluded n]
      by (auto simp: value_init_def fresh_iter_def)
  qed
qed

section \<open>What the key iterator goes through\<close>

definition key_entry :: "object_limits \<Rightarrow> (nat \<Rightarrow> ref \<Rightarrow> ref list) \<Rightarrow> addr set \<Rightarrow> nat \<Rightarrow> ref \<Rightarrow> ref list" where
  "key_entry lim below excluded d c =
     (if addr_of c \<in> excluded then []
      else if is_container (obj_of c) then
        (if parameterName (obj_of c) \<noteq> None then [c] else [])
        @ (if d < max_container_depth lim then below (Suc d) c else [])
      else if parameterName (obj_of c) \<noteq> None then [c] else [])"

function keys_below :: "object_limits \<Rightarrow> addr set \<Rightarrow> nat \<Rightarrow> ref \<Rightarrow> ref list" where
  "keys_below lim excluded d r = concat (map (\<lambda>i.
     (let c = child_at r i in
      if addr_of c \<in> excluded then []
      else if is_container (obj_of c) then
        (if parameterName (obj_of c) \<noteq> None then [c] else [])
        @ (if d < max_container_depth lim then keys_below lim excluded (Suc d) c else [])
      else if parameterName (obj_of c) \<noteq> None then [c] else [])) [0..<entry_count lim r])"
  by pat_completeness auto
termination
  by (relation "measure (\<lambda>(lim, excluded, d, r). size (obj_of r))") (auto simp: child_size entry_count_def)

declare keys_below.simps [simp del]

definition frame_keys :: "object_limits \<Rightarrow> addr set \<Rightarrow> nat \<Rightarrow> frame \<Rightarrow> ref list" where
  "frame_keys lim excluded d f =
     concat (map (\<lambda>i. key_entry lim (keys_below lim excluded) excluded d (child_at (fst f) i))
       [snd f..<entry_count lim (fst f)])"

lemma keys_below_frame: "keys_below lim excluded d r = frame_keys lim excluded d (r, 0)"
  by (subst keys_below.simps) (simp add: frame_keys_def key_entry_def Let_def)

lemma frame_keys_next:
  "frame_keys lim excluded d (p, i) =
     (if in_frame lim (p, i)
      then key_entry lim (keys_below lim excluded) excluded d (child_at p i) @ frame_keys lim excluded d (p, Suc i)
      else [])"
  by (simp add: frame_keys_def in_frame_count upt_conv_Cons)

primrec stack_keys :: "object_limits \<Rightarrow> addr set \<Rightarrow> nat \<Rightarrow> frame list \<Rightarrow> ref list" where
  "stack_keys lim excluded path [] = []"
| "stack_keys lim excluded path (f # fs) =
     frame_keys lim excluded (Suc (length fs) + path) f @ stack_keys lim excluded path fs"

text \<open>
  The previous object is not among the entries that are left, nor does it contain or stand above
  one of them. The frames are linked: each one stands inside an entry that the frame below it has
  already passed.
\<close>

definition passed :: "addr option \<Rightarrow> frame list \<Rightarrow> bool" where
  "passed previous st \<longleftrightarrow> (\<forall>a. previous = Some a \<longrightarrow>
     (\<forall>(p, i) \<in> set st. \<forall>j \<ge> i. \<not> prefix (addr_of p @ [j]) a))"

fun linked :: "frame list \<Rightarrow> bool" where
  "linked [] \<longleftrightarrow> True"
| "linked ((c, j) # fs) \<longleftrightarrow> (\<forall>(p, i) \<in> set fs. \<exists>l < i. prefix (addr_of p @ [l]) (addr_of c)) \<and> linked fs"

lemma passed_push:
  assumes "passed previous ((p, i) # fs)"
  shows "passed previous ((child_at p i, 0) # (p, Suc i) # fs)"
proof -
  have "\<not> prefix (addr_of (child_at p i) @ [j]) a" if "previous = Some a" for a j
  proof
    assume "prefix (addr_of (child_at p i) @ [j]) a"
    then have "prefix (addr_of p @ [i]) a"
      using append_prefixD [of "addr_of p @ [i]" "[j]"] by simp
    with assms that show False
      by (auto simp: passed_def)
  qed
  moreover have "passed previous ((p, Suc i) # fs)"
    using assms by (auto simp: passed_def)
  ultimately show ?thesis
    unfolding passed_def by simp
qed

lemma passed_advance: "passed previous ((p, i) # fs) \<Longrightarrow> passed previous ((p, Suc i) # fs)"
  by (auto simp: passed_def)

lemma linkedD:
  assumes "linked ((c, j) # fs)" "(p, i) \<in> set fs"
  shows "\<exists>l < i. prefix (addr_of p @ [l]) (addr_of c)"
proof -
  have "\<forall>(p, i) \<in> set fs. \<exists>l < i. prefix (addr_of p @ [l]) (addr_of c)"
    using assms(1) by simp
  from bspec [OF this assms(2)] show ?thesis
    by simp
qed

lemma linked_push:
  assumes "linked ((p, i) # fs)"
  shows "linked ((child_at p i, 0) # (p, Suc i) # fs)"
proof -
  have "\<exists>l < m. prefix (addr_of q @ [l]) (addr_of p @ [i])" if "(q, m) \<in> set fs" for q m
    using linkedD [OF assms that] prefix_prefix by blast
  then show ?thesis
    using assms by auto
qed

lemma linked_advance: "linked ((p, i) # fs) \<Longrightarrow> linked ((p, Suc i) # fs)"
  by simp

lemma prefix_same_length: "prefix (xs @ [a]) zs \<Longrightarrow> prefix (xs @ [b]) zs \<Longrightarrow> a = b"
  by (auto simp: prefix_def)

lemma passed_below:
  assumes "linked ((p, i) # fs)"
  shows "passed (Some (addr_of p @ [k])) fs"
proof -
  have "\<not> prefix (addr_of q @ [j]) (addr_of p @ [k])" if q: "(q, m) \<in> set fs" and "m \<le> j" for q m j
  proof
    assume pre: "prefix (addr_of q @ [j]) (addr_of p @ [k])"
    obtain l where l: "l < m" "prefix (addr_of q @ [l]) (addr_of p)"
      using linkedD [OF assms q] by blast
    from l(2) have "prefix (addr_of q @ [l]) (addr_of p @ [k])"
      by (rule prefix_prefix)
    with pre have "j = l"
      by (rule prefix_same_length)
    with l(1) \<open>m \<le> j\<close> show False
      by simp
  qed
  then show ?thesis
    by (auto simp: passed_def)
qed

lemma passed_leaf: "linked ((p, i) # fs) \<Longrightarrow> passed (Some (addr_of p @ [i])) ((p, Suc i) # fs)"
  using passed_below [of p i fs i] by (auto simp: passed_def)

lemma passed_container:
  "linked ((p, i) # fs) \<Longrightarrow> passed (Some (addr_of p @ [i])) ((child_at p i, 0) # (p, Suc i) # fs)"
  using passed_leaf [of p i fs] by (auto simp: passed_def)

lemma key_next_invariant:
  assumes "\<And>p i fs. P ((p, i) # fs) \<Longrightarrow> P fs"
    and "\<And>p i fs. P ((p, i) # fs) \<Longrightarrow> P ((p, Suc i) # fs)"
    and "\<And>p i fs. P ((p, i) # fs) \<Longrightarrow> P ((child_at p i, 0) # (p, Suc i) # fs)"
  shows "P st \<Longrightarrow> P (snd (key_next lim excluded path previous st))"
proof (induction lim excluded path previous st rule: key_next.induct)
  case (2 lim excluded path previous parent i rest)
  note pres = assms(1) [OF "2.prems"] assms(2) [OF "2.prems"] assms(3) [OF "2.prems"]
  show ?case
    by (subst key_next.simps)
      (use "2.IH" "2.prems" pres in \<open>simp add: Let_def del: addr_child_at obj_child_at\<close>)
qed (simp add: key_next.simps)

lemma key_next_linked: "linked st \<Longrightarrow> linked (snd (key_next lim excluded path previous st))"
  by (rule key_next_invariant) (auto intro: linked_push linked_advance)


text \<open>Every entry that is left stands in an entry of a frame that is not passed.\<close>

lemma keys_below_prefix:
  "r \<in> set (keys_below lim excluded d p) \<Longrightarrow> \<exists>j. prefix (addr_of p @ [j]) (addr_of r)"
proof (induction lim excluded d p arbitrary: r rule: keys_below.induct)
  case (1 lim excluded d p)
  from "1.prems" obtain i where i: "i \<in> set [0..<entry_count lim p]"
    "r \<in> set (key_entry lim (keys_below lim excluded) excluded d (child_at p i))"
    by (subst (asm) keys_below.simps) (auto simp: key_entry_def Let_def)
  show ?case
  proof (cases "r = child_at p i")
    case False
    then have c: "addr_of (child_at p i) \<notin> excluded" "is_container (obj_of (child_at p i))" "d < max_container_depth lim"
      "r \<in> set (keys_below lim excluded (Suc d) (child_at p i))"
      using i(2) by (auto simp: key_entry_def split: if_splits)
    then obtain j where "prefix (addr_of (child_at p i) @ [j]) (addr_of r)"
      using "1.IH" [OF i(1) refl c(1-3) c(4)] by blast
    then have "prefix (addr_of p @ [i]) (addr_of r)"
      using append_prefixD [of "addr_of p @ [i]" "[j]"] by simp
    then show ?thesis
      by blast
  qed auto
qed

lemma key_entry_prefix:
  "r \<in> set (key_entry lim (keys_below lim excluded) excluded d c) \<Longrightarrow> prefix (addr_of c) (addr_of r)"
  using keys_below_prefix append_prefixD by (fastforce simp: key_entry_def split: if_splits)

lemma stack_keys_passed:
  "passed previous st \<Longrightarrow> r \<in> set (stack_keys lim excluded path st) \<Longrightarrow> previous \<noteq> Some (addr_of r)"
proof (induction st)
  case (Cons f fs)
  obtain p i where f: "f = (p, i)"
    by fastforce
  have fs: "passed previous fs"
    using Cons.prems(1) by (auto simp: passed_def)
  show ?case
  proof (cases "r \<in> set (stack_keys lim excluded path fs)")
    case False
    then obtain j where "i \<le> j"
      "r \<in> set (key_entry lim (keys_below lim excluded) excluded (Suc (length fs) + path) (child_at p j))"
      using Cons.prems(2) by (auto simp: f frame_keys_def)
    then have "prefix (addr_of p @ [j]) (addr_of r)"
      using key_entry_prefix [of r lim excluded _ "child_at p j"] by simp
    with Cons.prems(1) \<open>i \<le> j\<close> show ?thesis
      by (auto simp: passed_def f)
  qed (use Cons.IH [OF fs] in blast)
qed simp

text \<open>
  The entries left, given the previous object: when it stands in the current entry, that entry
  has been reported already.
\<close>

definition left_keys :: "object_limits \<Rightarrow> addr set \<Rightarrow> nat \<Rightarrow> addr option \<Rightarrow> frame list \<Rightarrow> ref list" where
  "left_keys lim excluded path previous st =
     (let rs = stack_keys lim excluded path st in
      if rs \<noteq> [] \<and> previous = Some (addr_of (hd rs)) then tl rs else rs)"

lemma left_keys_passed: "passed previous st \<Longrightarrow> left_keys lim excluded path previous st = stack_keys lim excluded path st"
  using stack_keys_passed [of previous st "hd (stack_keys lim excluded path st)" lim excluded path]
  by (auto simp: left_keys_def Let_def)

definition entered :: "object_limits \<Rightarrow> addr set \<Rightarrow> addr option \<Rightarrow> frame list \<Rightarrow> bool" where
  "entered lim excluded previous st \<longleftrightarrow> (\<exists>p i fs. st = (p, i) # fs \<and> in_frame lim (p, i) \<and>
     addr_of (child_at p i) \<notin> excluded \<and> is_container (obj_of (child_at p i)) \<and> has_key (child_at p i) \<and>
     previous = Some (addr_of (child_at p i)))"

definition key_state_ok :: "object_limits \<Rightarrow> addr set \<Rightarrow> addr option \<Rightarrow> frame list \<Rightarrow> bool" where
  "key_state_ok lim excluded previous st \<longleftrightarrow> linked st \<and> (passed previous st \<or> entered lim excluded previous st)"

text \<open>One iteration of the loop on a container.\<close>

lemma frame_keys_container:
  assumes "in_frame lim (p, i)" "addr_of (child_at p i) \<notin> excluded" "is_container (obj_of (child_at p i))"
  shows "stack_keys lim excluded path ((p, i) # fs) =
    (if has_key (child_at p i) then [child_at p i] else []) @
    stack_keys lim excluded path
      (if Suc (length fs) + path < max_container_depth lim then (child_at p i, 0) # (p, Suc i) # fs
       else (p, Suc i) # fs)"
  using assms
  by (simp add: frame_keys_next [of _ _ _ p i] key_entry_def keys_below_frame [of _ _ _ "child_at p i"]
      del: addr_child_at obj_child_at)

text \<open>What a call of the loop promises when \<open>rs\<close> is left.\<close>

definition key_outcome ::
    "object_limits \<Rightarrow> addr set \<Rightarrow> nat \<Rightarrow> ref list \<Rightarrow> ref option \<Rightarrow> frame list \<Rightarrow> bool" where
  "key_outcome lim excluded path rs cur st' \<longleftrightarrow>
     (case cur of
        None \<Rightarrow> rs = []
      | Some c \<Rightarrow> rs = c # left_keys lim excluded path (Some (addr_of c)) st' \<and>
          key_state_ok lim excluded (Some (addr_of c)) st')"

lemma key_next_passed:
  "linked st \<Longrightarrow> passed previous st \<Longrightarrow> key_next lim excluded path previous st = (cur, st') \<Longrightarrow>
   key_outcome lim excluded path (stack_keys lim excluded path st) cur st'"
proof (induction lim excluded path previous st arbitrary: cur st' rule: key_next.induct)
  case (1 lim excluded path previous)
  then show ?case
    by (simp add: key_next.simps key_outcome_def)
next
  case (2 lim excluded path previous parent i rest)
  let ?c = "child_at parent i" and ?st = "(parent, i) # rest" and ?adv = "(parent, Suc i) # rest"
  note step = key_next.simps(2) [of lim excluded path previous parent i rest]
  have rest: "linked rest" "passed previous rest"
    using "2.prems"(1,2) by (auto simp: passed_def)
  have adv: "linked ?adv" "passed previous ?adv"
    using "2.prems"(1,2) linked_advance passed_advance by blast+
  have push: "linked ((?c, 0) # ?adv)" "passed previous ((?c, 0) # ?adv)"
    using "2.prems"(1,2) linked_push passed_push by blast+
  have skip: "stack_keys lim excluded path ?st = stack_keys lim excluded path ?adv"
    if "in_frame lim (parent, i)" "key_entry lim (keys_below lim excluded) excluded (Suc (length rest) + path) ?c = []"
    using that by (simp add: frame_keys_next [of _ _ _ parent i])
  show ?case
  proof (cases "in_frame lim (parent, i)")
    case False
    then have "stack_keys lim excluded path ?st = stack_keys lim excluded path rest"
      by (simp add: frame_keys_next [of _ _ _ parent i])
    moreover have "key_next lim excluded path previous rest = (cur, st')"
      using "2.prems"(3) False step by simp
    ultimately show ?thesis
      using "2.IH"(1) [OF False rest] by (simp only:)
  next
    case True
    then have ni: "\<not> \<not> in_frame lim (parent, i)"
      by simp
    note IH = "2.IH"(2-5) [OF ni refl]
    consider (excl) "addr_of ?c \<in> excluded"
      | (report) "addr_of ?c \<notin> excluded" "is_container (obj_of ?c)" "reports previous ?c"
      | (enter) "addr_of ?c \<notin> excluded" "is_container (obj_of ?c)" "\<not> reports previous ?c"
      | (leaf) "addr_of ?c \<notin> excluded" "\<not> is_container (obj_of ?c)" "has_key ?c"
      | (none) "addr_of ?c \<notin> excluded" "\<not> is_container (obj_of ?c)" "\<not> has_key ?c"
      by blast
    then show ?thesis
    proof cases
      case excl
      then show ?thesis
        using IH(1) [OF excl adv] "2.prems"(3) True step skip by (simp add: key_entry_def)
    next
      case report
      then have "cur = Some ?c" "st' = ?st"
        using "2.prems"(3) True step by simp_all
      moreover have "has_key ?c"
        using report(3) by (simp add: reports_def)
      ultimately show ?thesis
        using frame_keys_container [OF True report(1,2), of path rest] report "2.prems"(1) True
        by (auto simp: key_outcome_def left_keys_def Let_def key_state_ok_def entered_def)
    next
      case enter
      have "\<not> prefix (addr_of ?c) a" if "previous = Some a" for a
        using "2.prems"(2) that by (auto simp: passed_def)
      then have "\<not> has_key ?c"
        using enter(3) by (auto simp: reports_def)
      then show ?thesis
        using frame_keys_container [OF True enter(1,2), of path rest] IH(2) [OF enter _ push]
          IH(3) [OF enter _ adv] "2.prems"(3) True step enter
        by (cases "Suc (length rest) + path < max_container_depth lim") simp_all
    next
      case leaf
      then have "cur = Some ?c" "st' = ?adv"
        using "2.prems"(3) True step by simp_all
      moreover have p: "passed (Some (addr_of ?c)) ?adv"
        using passed_leaf [OF "2.prems"(1)] by simp
      moreover have "stack_keys lim excluded path ?st = ?c # stack_keys lim excluded path ?adv"
        using leaf True by (simp add: frame_keys_next [of _ _ _ parent i] key_entry_def)
      ultimately show ?thesis
        using left_keys_passed [OF p, of lim excluded path] adv(1) by (simp add: key_outcome_def key_state_ok_def)
    next
      case none
      then show ?thesis
        using IH(4) [OF none adv] "2.prems"(3) True step skip by (simp add: key_entry_def)
    qed
  qed
qed

lemma key_next_correct:
  assumes "key_state_ok lim excluded previous st" "key_next lim excluded path previous st = (cur, st')"
  shows "key_outcome lim excluded path (left_keys lim excluded path previous st) cur st'"
proof (cases "passed previous st")
  case True
  then show ?thesis
    using key_next_passed [OF _ True assms(2)] assms(1) left_keys_passed [OF True, of lim excluded path]
    by (simp add: key_state_ok_def)
next
  case False
  then obtain p i fs where e: "st = (p, i) # fs" "in_frame lim (p, i)" "addr_of (child_at p i) \<notin> excluded"
    "is_container (obj_of (child_at p i))" "has_key (child_at p i)" "previous = Some (addr_of (child_at p i))"
    and l: "linked ((p, i) # fs)"
    using assms(1) by (auto simp: key_state_ok_def entered_def)
  let ?c = "child_at p i"
  let ?st = "if Suc (length fs) + path < max_container_depth lim then (?c, 0) # (p, Suc i) # fs else (p, Suc i) # fs"
  have "\<not> reports previous ?c"
    by (simp add: reports_def e(6))
  then have "key_next lim excluded path previous ?st = (cur, st')"
    using assms(2) key_next.simps(2) [of lim excluded path previous p i fs] e(2-4)
    by (cases "Suc (length fs) + path < max_container_depth lim") (simp_all add: e(1))
  moreover have "linked ?st" "passed previous ?st"
    using linked_push [OF l] linked_advance [OF l] passed_container [OF l] passed_leaf [OF l] e(6) by auto
  moreover have "left_keys lim excluded path previous st = stack_keys lim excluded path ?st"
    using frame_keys_container [OF e(2-4), of path fs] e(5,6) by (simp add: left_keys_def Let_def e(1))
  ultimately show ?thesis
    using key_next_passed [of ?st previous lim excluded path cur st'] by metis
qed

primrec key_run :: "object_limits \<Rightarrow> addr set \<Rightarrow> nat \<Rightarrow> iter \<Rightarrow> ref list" where
  "key_run lim excluded 0 it = []"
| "key_run lim excluded (Suc n) it =
     (case it_current it of
        None \<Rightarrow> []
      | Some c \<Rightarrow> c # key_run lim excluded n (key_step lim excluded it))"

lemma key_run_take:
  "it_current it = Some c \<Longrightarrow> key_state_ok lim excluded (Some (addr_of c)) (it_stack it) \<Longrightarrow>
   key_run lim excluded n it =
     take n (c # left_keys lim excluded (length (it_path it)) (Some (addr_of c)) (it_stack it))"
proof (induction n arbitrary: it c)
  case (Suc n)
  obtain cur st' where nx: "key_next lim excluded (length (it_path it)) (Some (addr_of c)) (it_stack it) = (cur, st')"
    by fastforce
  note ok = key_next_correct [OF Suc.prems(2) nx]
  let ?it = "it\<lparr>it_current := cur, it_stack := st'\<rparr>"
  have step: "key_step lim excluded it = ?it"
    using Suc.prems(1) nx by (simp add: key_step_def)
  show ?case
  proof (cases cur)
    case None
    then show ?thesis
      using Suc.prems(1) ok step by (cases n) (simp_all add: key_outcome_def)
  next
    case (Some r)
    then show ?thesis
      using Suc.prems(1) ok [unfolded key_outcome_def] Suc.IH [of ?it r] ok step by simp
  qed
qed simp

text \<open>C19: Started on a container without a key path, the key iterator goes exactly through the
  entries below it that have a key, in depth-first order and each of them once, a container
  before what it holds, within the same limits and exclusions as the value iterator, and then
  ends.\<close>

theorem key_iterator_enumerates:
  "key_run lim excluded n (key_init lim excluded ob []) = take n
     (if addr_of ob \<notin> excluded \<and> is_container (obj_of ob) \<and> max_container_depth lim > 0
      then keys_below lim excluded 1 ob else [])"
proof -
  obtain cur st where nx: "key_next lim excluded 0 None [(ob, 0)] = (cur, st)"
    by fastforce
  have ok: "key_state_ok lim excluded None [(ob, 0)]" "left_keys lim excluded 0 None [(ob, 0)] = keys_below lim excluded 1 ob"
    by (simp_all add: key_state_ok_def passed_def left_keys_def keys_below_frame Let_def)
  note c = key_next_correct [OF ok(1) nx, unfolded ok(2) key_outcome_def]
  have none: "it_current it = None \<Longrightarrow> key_run lim excluded n it = []" for it
    by (cases n) simp_all
  show ?thesis
  proof (cases "addr_of ob \<notin> excluded \<and> is_container (obj_of ob) \<and> max_container_depth lim > 0")
    case True
    let ?it = "fresh_iter\<lparr>it_current := cur, it_stack := st\<rparr>"
    have init: "key_init lim excluded ob [] = ?it"
      using True nx by (simp add: key_init_def)
    show ?thesis
      using True c none [of ?it] key_run_take [of ?it _ lim excluded n] unfolding init
      by (cases cur) (simp_all add: fresh_iter_def)
  next
    case False
    then show ?thesis
      using none [of fresh_iter] by (auto simp: key_init_def fresh_iter_def)
  qed
qed

section \<open>The key path names the current object\<close>

text \<open>The object at a position below another, and the names on the way.\<close>

primrec descend_ref :: "ref \<Rightarrow> nat list \<Rightarrow> ref" where
  "descend_ref r [] = r"
| "descend_ref r (i # pos) = descend_ref (child_at r i) pos"

definition entry_name :: "ref \<Rightarrow> nat \<Rightarrow> string list" where
  "entry_name r i =
     (if obj_type (obj_of r) = OBJ_MAP \<and> has_key (child_at r i)
      then [the (parameterName (obj_of (child_at r i)))]
      else if obj_type (obj_of r) = OBJ_ARRAY then [dec_nat i] else [])"

primrec names_along :: "ref \<Rightarrow> nat list \<Rightarrow> string list" where
  "names_along r [] = []"
| "names_along r (i # pos) = entry_name r i @ names_along (child_at r i) pos"

lemma descend_ref_append: "descend_ref r (p @ q) = descend_ref (descend_ref r p) q"
  by (induction p arbitrary: r) simp_all

lemma names_along_append: "names_along r (p @ q) = names_along r p @ names_along (descend_ref r p) q"
  by (induction p arbitrary: r) simp_all

lemma addr_descend_ref: "addr_of (descend_ref r pos) = addr_of r @ pos"
  by (induction pos arbitrary: r) simp_all

text \<open>The frames, innermost first, follow each other from \<open>root\<close>; their indices fit a \<open>size_t\<close>.\<close>

fun chain :: "ref \<Rightarrow> frame list \<Rightarrow> bool" where
  "chain root [] \<longleftrightarrow> True"
| "chain root [(p, i)] \<longleftrightarrow> p = root \<and> i \<le> SIZE_MAX"
| "chain root ((c, j) # (p, i) # fs) \<longleftrightarrow>
     0 < i \<and> j \<le> SIZE_MAX \<and> c = child_at p (i - 1) \<and> chain root ((p, i) # fs)"

lemma chain_advance: "chain root ((p, i) # fs) \<Longrightarrow> i < SIZE_MAX \<Longrightarrow> chain root ((p, Suc i) # fs)"
  by (cases fs) auto

lemma chain_pop: "chain root (f # fs) \<Longrightarrow> chain root fs"
  by (cases f; cases fs) auto

lemma chain_push: "chain root ((p, i) # fs) \<Longrightarrow> i < SIZE_MAX \<Longrightarrow> chain root ((child_at p i, 0) # (p, Suc i) # fs)"
  using chain_advance [of root p i fs] by simp

lemma value_next_chain:
  "max_container_size lim \<le> SIZE_MAX \<Longrightarrow> chain root st \<Longrightarrow>
   value_next lim excluded path st = (Some c, st') \<Longrightarrow>
   \<exists>p i fs. st' = (p, Suc i) # fs \<and> c = child_at p i \<and> chain root st'"
proof (induction lim excluded path st arbitrary: c st' rule: value_next.induct)
  case (1 lim excluded path)
  then show ?case
    by (simp add: value_next.simps)
next
  case (2 lim excluded path parent i rest)
  let ?c = "child_at parent i"
  note step = value_next.simps(2) [of lim excluded path parent i rest]
  show ?case
  proof (cases "in_frame lim (parent, i)")
    case False
    with "2.IH"(1) [OF False "2.prems"(1) chain_pop [OF "2.prems"(2)]] "2.prems"(3) step show ?thesis
      by simp
  next
    case True
    then have ni: "\<not> \<not> in_frame lim (parent, i)" and "i < SIZE_MAX"
      using "2.prems"(1) by (simp_all add: in_frame_def)
    note adv = chain_advance [OF "2.prems"(2) this(2)] and push = chain_push [OF "2.prems"(2) this(2)]
    note IH = "2.IH"(2-5) [OF ni refl]
    consider "addr_of ?c \<in> excluded"
      | "addr_of ?c \<notin> excluded" "is_container (obj_of ?c)" "Suc (length rest) + path < max_container_depth lim"
      | "addr_of ?c \<notin> excluded" "is_container (obj_of ?c)" "\<not> Suc (length rest) + path < max_container_depth lim"
      | "addr_of ?c \<notin> excluded" "\<not> is_container (obj_of ?c)" "is_scalar (obj_of ?c)"
      | "addr_of ?c \<notin> excluded" "\<not> is_container (obj_of ?c)" "\<not> is_scalar (obj_of ?c)"
      by blast
    then show ?thesis
    proof cases
      case 1
      then show ?thesis
        using IH(1) [OF 1 "2.prems"(1) adv] "2.prems"(3) True step by simp
    next
      case 2
      then show ?thesis
        using IH(2) [OF 2 "2.prems"(1) push] "2.prems"(3) True step by simp
    next
      case 3
      then show ?thesis
        using IH(3) [OF 3 "2.prems"(1) adv] "2.prems"(3) True step by simp
    next
      case 4
      then show ?thesis
        using adv "2.prems"(3) True step
        by (intro exI [of _ parent] exI [of _ i] exI [of _ rest]) simp
    next
      case 5
      then show ?thesis
        using IH(4) [OF 5 "2.prems"(1) adv] "2.prems"(3) True step by simp
    qed
  qed
qed

lemma path_entries_snoc:
  "path_entries (fs @ [(p, i), (q, j)]) c = path_entries (fs @ [(p, i)]) q @ path_entry p' q' c'"
  if "path_entry q j c = path_entry p' q' c'"
proof (induction fs)
  case Nil
  then show ?case
    using that by simp
next
  case (Cons f fs)
  then show ?case
    by (cases f; cases fs) auto
qed

lemma path_entry_name:
  "i \<le> SIZE_MAX \<Longrightarrow> 0 < i \<Longrightarrow> path_entry p i (child_at p (i - 1)) = entry_name p (i - 1)"
proof -
  assume i: "i \<le> SIZE_MAX" "0 < i"
  then have "i + SIZE_MAX = (i - 1) + (SIZE_MAX + 1)"
    by simp
  then have "(i + SIZE_MAX) mod (SIZE_MAX + 1) = i - 1"
    using i by (simp only: mod_add_self2) simp
  then show ?thesis
    by (simp add: path_entry_def entry_name_def)
qed

lemma chain_names:
  "chain root ((p, Suc i) # fs) \<Longrightarrow> \<exists>pos. p = descend_ref root pos \<and>
     path_entries (rev ((p, Suc i) # fs)) (child_at p i) = names_along root (pos @ [i])"
proof (induction fs arbitrary: p i)
  case Nil
  then show ?case
    using path_entry_name [of "Suc i" p] by (intro exI [of _ "[]"]) auto
next
  case (Cons f fs)
  obtain q j where f: "f = (q, j)"
    by fastforce
  then obtain k where j: "j = Suc k"
    using Cons.prems by (cases j) auto
  have p: "p = child_at q k" "chain root ((q, Suc k) # fs)" "Suc i \<le> SIZE_MAX"
    using Cons.prems by (auto simp: f j)
  obtain pos where pos: "q = descend_ref root pos"
    "path_entries (rev ((q, Suc k) # fs)) (child_at q k) = names_along root (pos @ [k])"
    using Cons.IH [OF p(2)] by blast
  have "path_entries (rev ((p, Suc i) # f # fs)) (child_at p i)
      = path_entries (rev ((q, Suc k) # fs)) p @ path_entry p (Suc i) (child_at p i)"
    using path_entries_snoc [OF refl, of "rev fs" q "Suc k" p "Suc i" "child_at p i"] by (simp add: f j)
  also have "\<dots> = names_along root (pos @ [k]) @ entry_name p i"
    using pos(2) path_entry_name [OF p(3), of p] by (simp add: p(1))
  finally show ?case
    using pos(1) p(1)
    by (intro exI [of _ "pos @ [k]"]) (simp add: names_along_append descend_ref_append)
qed

lemma find_key_Some:
  assumes "find_key lim excluded p key = Some j"
  shows "parameterName (obj_of (child_at p j)) = Some key \<and> addr_of (child_at p j) \<notin> excluded \<and> in_frame lim (p, j)"
  using assms by (auto simp: find_key_def find_Some_iff in_frame_def Let_def)

lemma value_descend_names:
  "value_descend lim excluded i p keys = res \<Longrightarrow> res = Scalar c \<or> res = Inside c \<Longrightarrow>
   \<exists>pos. c = descend_ref p pos \<and> names_along p pos = keys"
proof (induction keys arbitrary: i p)
  case Nil
  then show ?case
    by (intro exI [of _ "[]"]) auto
next
  case (Cons key keys)
  then obtain j where j: "is_map (obj_of p)" "find_key lim excluded p key = Some j"
    by (auto split: if_splits option.splits)
  let ?c = "child_at p j"
  have "obj_type (obj_of p) = OBJ_MAP"
    using j(1) by (cases "obj_of p" rule: is_map.cases) (auto simp: obj_type_def)
  then have name: "entry_name p j = [key]"
    using find_key_Some [OF j(2)] by (simp add: entry_name_def)
  show ?case
  proof (cases "is_scalar (obj_of ?c) \<and> keys = []")
    case True
    then have "c = ?c"
      using Cons.prems j by auto
    then show ?thesis
      using True name by (intro exI [of _ "[j]"]) simp
  next
    case False
    then have "value_descend lim excluded (i + 1) ?c keys = res"
      using Cons.prems j by (auto simp: Let_def split: if_splits)
    then obtain pos where "c = descend_ref ?c pos" "names_along ?c pos = keys"
      using Cons.IH [OF _ Cons.prems(2)] by blast
    then show ?thesis
      using name by (intro exI [of _ "j # pos"]) simp
  qed
qed

text \<open>The state of a value iterator, from its construction on.\<close>

definition value_state_ok :: "ref \<Rightarrow> string list \<Rightarrow> iter \<Rightarrow> bool" where
  "value_state_ok ob path it \<longleftrightarrow> (\<forall>c. it_current it = Some c \<longrightarrow>
     it_path it = path \<and> (\<exists>pos root. root = descend_ref ob pos \<and> names_along ob pos = path \<and>
       (it_stack it = [] \<and> c = root \<or>
        (\<exists>p i fs. it_stack it = (p, Suc i) # fs \<and> c = child_at p i \<and> chain root ((p, Suc i) # fs)))))"

lemma value_state_okI:
  "it_current it = Some c \<Longrightarrow> it_path it = path \<Longrightarrow> names_along ob pos = path \<Longrightarrow>
   it_stack it = [] \<and> c = descend_ref ob pos \<or>
     (\<exists>p i fs. it_stack it = (p, Suc i) # fs \<and> c = child_at p i \<and>
        chain (descend_ref ob pos) ((p, Suc i) # fs)) \<Longrightarrow>
   value_state_ok ob path it"
  unfolding value_state_ok_def by auto

lemma value_init_ok:
  assumes "max_container_size lim \<le> SIZE_MAX"
  shows "value_state_ok ob path (value_init lim excluded ob path)"
proof -
  have start: "\<exists>p i fs. st = (p, Suc i) # fs \<and> c = child_at p i \<and> chain root ((p, Suc i) # fs)"
    if "value_next lim excluded 0 [(root, 0)] = (Some c, st)" for root c st
    using value_next_chain [OF assms _ that, of root] by auto
  have none: "value_state_ok ob path it" if "it_current it = None" for it
    using that by (simp add: value_state_ok_def)
  have start0: "value_state_ok ob path \<lparr>it_path = path', it_stack = st, it_current = cur\<rparr>"
    if "value_next lim excluded 0 [(descend_ref ob pos, 0)] = (cur, st)" "names_along ob pos = path"
      "cur \<noteq> None \<Longrightarrow> path' = path" for pos cur st path'
  proof (cases cur)
    case (Some c)
    show ?thesis
      by (rule value_state_okI [of _ c _ _ pos])
        (use Some that start [of "descend_ref ob pos" c st] in simp_all)
  qed (simp add: none)
  show ?thesis
  proof (cases "path = []")
    case True
    obtain cur st where nx: "value_next lim excluded 0 [(ob, 0)] = (cur, st)"
      by fastforce
    then have "value_state_ok ob path (fresh_iter\<lparr>it_current := cur, it_stack := st\<rparr>)"
      using start0 [of "[]" cur st "[]"] True by (simp add: fresh_iter_def)
    moreover have "value_state_ok ob path (fresh_iter\<lparr>it_current := Some ob\<rparr>)"
      by (rule value_state_okI [of _ ob _ _ "[]"]) (simp_all add: fresh_iter_def True)
    moreover have "value_state_ok ob path fresh_iter"
      by (rule none) (simp add: fresh_iter_def)
    ultimately show ?thesis
      using True nx by (simp add: value_init_def)
  next
    case False
    have fresh: "value_state_ok ob path (fresh_iter\<lparr>it_stack := s\<rparr>)" "value_state_ok ob path fresh_iter" for s
      by (rule none, simp add: fresh_iter_def)+
    show ?thesis
    proof (cases "value_descend lim excluded 0 ob path")
      case (Scalar c)
      then obtain pos where "c = descend_ref ob pos" "names_along ob pos = path"
        using value_descend_names [OF Scalar, of c] by blast
      then have "value_state_ok ob path \<lparr>it_path = path, it_stack = [], it_current = Some c\<rparr>"
        by (intro value_state_okI [of _ c _ _ pos]) simp_all
      then show ?thesis
        using False Scalar fresh by (simp add: value_init_def)
    next
      case (Inside r)
      then obtain pos where pos: "r = descend_ref ob pos" "names_along ob pos = path"
        using value_descend_names [OF Inside, of r] by blast
      obtain cur st where nx: "value_next lim excluded 0 [(r, 0)] = (cur, st)"
        by fastforce
      have "value_state_ok ob path
          \<lparr>it_path = (if cur \<noteq> None then path else []), it_stack = st, it_current = cur\<rparr>"
        by (rule start0 [OF nx [unfolded pos(1)] pos(2)]) simp
      then show ?thesis
        using False Inside nx fresh by (simp add: value_init_def)
    next
      case (Stuck f)
      then show ?thesis
        using False fresh by (simp add: value_init_def)
    qed
  qed
qed

lemma value_step_ok:
  assumes "max_container_size lim \<le> SIZE_MAX" "value_state_ok ob path it"
  shows "value_state_ok ob path (value_step lim excluded it)"
proof (cases "it_current it")
  case None
  then show ?thesis
    using assms(2) by (simp add: value_step_def)
next
  case (Some c)
  obtain cur st where nx: "value_next lim excluded (length (it_path it)) (it_stack it) = (cur, st)"
    by fastforce
  show ?thesis
  proof (cases cur)
    case None
    then show ?thesis
      using Some nx by (simp add: value_step_def value_state_ok_def)
  next
    case new: (Some d)
    from assms(2) Some obtain pos where pos: "it_path it = path" "names_along ob pos = path"
      "it_stack it = [] \<and> c = descend_ref ob pos \<or>
        (\<exists>p i fs. it_stack it = (p, Suc i) # fs \<and> c = child_at p i \<and> chain (descend_ref ob pos) ((p, Suc i) # fs))"
      unfolding value_state_ok_def by blast
    have "it_stack it \<noteq> []"
      using nx new by (auto simp: value_next.simps)
    then have "chain (descend_ref ob pos) (it_stack it)"
      using pos(3) by auto
    then obtain p i fs where "st = (p, Suc i) # fs" "d = child_at p i" "chain (descend_ref ob pos) st"
      using value_next_chain [OF assms(1)] nx new by blast
    then show ?thesis
      using Some nx new pos(1,2) by (intro value_state_okI [of _ d _ _ pos]) (auto simp: value_step_def)
  qed
qed

text \<open>C21: Whatever object and key path a value iterator is started with, and after any number of
  steps, the current object stands below the object at the end of the key path, and the path the
  iterator reports (map keys and array indices, the key path first) is exactly the names on the
  way from the starting object to the current one.\<close>

theorem value_iterator_path:
  assumes "max_container_size lim \<le> SIZE_MAX"
    and "it_current ((value_step lim excluded ^^ n) (value_init lim excluded ob path)) = Some c"
  shows "\<exists>pos. c = descend_ref ob pos \<and>
    get_current_path ((value_step lim excluded ^^ n) (value_init lim excluded ob path)) = names_along ob pos \<and>
    prefix path (names_along ob pos)"
proof -
  let ?it = "(value_step lim excluded ^^ n) (value_init lim excluded ob path)"
  have "value_state_ok ob path ?it"
    by (induction n) (simp_all add: value_init_ok value_step_ok assms(1))
  then obtain pos where pos: "it_path ?it = path" "names_along ob pos = path"
    "it_stack ?it = [] \<and> c = descend_ref ob pos \<or>
      (\<exists>p i fs. it_stack ?it = (p, Suc i) # fs \<and> c = child_at p i \<and> chain (descend_ref ob pos) ((p, Suc i) # fs))"
    using assms(2) unfolding value_state_ok_def by blast
  from pos(3) show ?thesis
  proof (elim disjE exE conjE)
    assume "it_stack ?it = []" "c = descend_ref ob pos"
    then show ?thesis
      using assms(2) pos(1,2) by (intro exI [of _ pos]) (simp add: get_current_path_def)
  next
    fix p i fs
    assume st: "it_stack ?it = (p, Suc i) # fs" and c: "c = child_at p i"
      and ch: "chain (descend_ref ob pos) ((p, Suc i) # fs)"
    obtain q where q: "p = descend_ref (descend_ref ob pos) q"
      "path_entries (rev ((p, Suc i) # fs)) (child_at p i) = names_along (descend_ref ob pos) (q @ [i])"
      using chain_names [OF ch] by blast
    have "c = descend_ref ob (pos @ q @ [i])"
      using q(1) c by (simp add: descend_ref_append)
    moreover have "get_current_path ?it = path @ names_along (descend_ref ob pos) (q @ [i])"
      using assms(2) pos(1) st q(2) c by (simp add: get_current_path_def)
    ultimately show ?thesis
      using pos(2) by (intro exI [of _ "pos @ q @ [i]"]) (simp add: names_along_append descend_ref_append)
  qed
qed

theorem value_iterator_path_witness:
  "let lim = \<lparr>max_container_depth = 20, max_container_size = 256, max_string_length = 4096\<rparr>;
       leaf = Obj (Some ''b'') (Signed 1);
       ob = Obj None (Map (Arr 8 [Obj (Some ''a'') (Array (Arr 8 [Obj None (Map (Arr 8 [leaf]))]))]));
       it = (value_step lim {} ^^ 0) (value_init lim {} ([], ob) [''a''])
   in \<exists>pos. ([0, 0, 0], leaf) = descend_ref ([], ob) pos \<and> get_current_path it = names_along ([], ob) pos \<and>
        prefix [''a''] (names_along ([], ob) pos)"
  unfolding Let_def
  by (rule value_iterator_path) (simp, code_simp)

section \<open>The depth limit below a key path\<close>

text \<open>
  While the first object is searched, the key path is not yet recorded, so that its length does
  not count for the depth limit (\<open>src/iterator.cpp:164-178\<close>): with a limit of 3 the scalar of
  \<open>{a: [[[1]]]}\<close> is found below the path \<open>a\<close>, but not from the root.
\<close>

lemma key_path_escapes_depth:
  "let lim = \<lparr>max_container_depth = 3, max_container_size = 256, max_string_length = 4096\<rparr>;
       ob = ([], Obj None (Map (Arr 8 [Obj (Some ''a'') (Array (Arr 8 [Obj None (Array (Arr 8
              [Obj None (Array (Arr 8 [Obj None (Signed 1)]))]))]))])))
   in it_current (value_init lim {} ob [''a'']) = Some ([0, 0, 0, 0], Obj None (Signed 1)) \<and>
      it_current (value_init lim {} ob []) = None"
  by code_simp

end
