(* ===== verification/Object_Store.thy ===== *)
theory Object_Store
  imports Engine_Base "HOL-Library.AList"
begin

text \<open>
  The object store (\<open>src/object_store.hpp\<close>, \<open>src/object_store.cpp\<close>): the latest object of every
  address that the rules use, over all the batches given to a context, and the addresses of the
  last batch. The objects of a batch stay where the caller put them: the address of entry \<open>i\<close>
  of batch \<open>b\<close> is \<open>[b, i]\<close>, and \<open>batches\<close> counts the calls for that.
\<close>

record object_store =
  store_manifest :: manifest
  latest_batch :: "u32 set"
  objects :: "(u32 \<times> ref) list"
  objects_to_free :: "ddwaf_object list"
  obj_free :: bool
  batches :: nat

definition new_object_store :: "manifest \<Rightarrow> bool \<Rightarrow> object_store" where
  "new_object_store m free_fn =
     \<lparr>store_manifest = m, latest_batch = {}, objects = [], objects_to_free = [], obj_free = free_fn, batches = 0\<rparr>"

text \<open>The body of the loop over the entries of the map, and the loop.\<close>

definition entry_target :: "manifest \<Rightarrow> ddwaf_object \<Rightarrow> u32 option" where
  "entry_target m entry =
     (case parameterName entry of
        None \<Rightarrow> None
      | Some key \<Rightarrow> if length key = 0 then None else manifest_find m key)"

primrec store_loop :: "addr \<Rightarrow> nat \<Rightarrow> ddwaf_object list \<Rightarrow> object_store \<Rightarrow> object_store" where
  "store_loop base i [] st = st"
| "store_loop base i (entry # entries) st =
     store_loop base (Suc i) entries
       (case entry_target (store_manifest st) entry of
          None \<Rightarrow> st
        | Some target \<Rightarrow> st\<lparr>objects := AList.update target (base @ [i], entry) (objects st),
                            latest_batch := insert target (latest_batch st)\<rparr>)"

definition store_insert :: "object_store \<Rightarrow> ddwaf_object \<Rightarrow> bool \<times> object_store" where
  "store_insert st input =
     (let st1 = (if obj_free st then st\<lparr>objects_to_free := objects_to_free st @ [input]\<rparr> else st);
          st2 = st1\<lparr>latest_batch := {}, batches := batches st + 1\<rparr>
      in case payload input of
           Map entries \<Rightarrow>
             (if arr_nbEntries entries = 0 then (True, st2)
              else (case entries of
                      NullArr _ \<Rightarrow> (False, st2)
                    | Arr _ es \<Rightarrow> (True, store_loop [batches st] 0 es st2)))
         | _ \<Rightarrow> (False, st2))"

definition get_target :: "object_store \<Rightarrow> u32 \<Rightarrow> ref option" where
  "get_target st target = map_of (objects st) target"

definition is_new_target :: "object_store \<Rightarrow> u32 \<Rightarrow> bool" where
  "is_new_target st target \<longleftrightarrow> target \<in> latest_batch st"

definition has_new_targets :: "object_store \<Rightarrow> bool" where
  "has_new_targets st \<longleftrightarrow> \<not> Set.is_empty (latest_batch st)"

definition store_nonempty :: "object_store \<Rightarrow> bool" where
  "store_nonempty st \<longleftrightarrow> objects st \<noteq> []"

text \<open>What the destructor passes to the release function, in this order.\<close>

definition store_released :: "object_store \<Rightarrow> ddwaf_object list" where
  "store_released st = (if obj_free st then objects_to_free st else [])"

section \<open>What the store holds\<close>

text \<open>The entries of a batch that the rules use, with the identifier of their address.\<close>

definition used_entries :: "manifest \<Rightarrow> addr \<Rightarrow> nat \<Rightarrow> ddwaf_object list \<Rightarrow> (u32 \<times> ref) list" where
  "used_entries m base i es =
     concat (map (\<lambda>(j, e). case entry_target m e of None \<Rightarrow> [] | Some t \<Rightarrow> [(t, (base @ [j], e))])
       (enumerate i es))"

definition batch_entries :: "manifest \<Rightarrow> nat \<Rightarrow> ddwaf_object \<Rightarrow> (u32 \<times> ref) list" where
  "batch_entries m b input = (if is_map input then used_entries m [b] 0 (children input) else [])"

lemma used_entries_simps [simp]:
  "used_entries m base i [] = []"
  "used_entries m base i (e # es) =
     (case entry_target m e of None \<Rightarrow> [] | Some t \<Rightarrow> [(t, (base @ [i], e))]) @ used_entries m base (Suc i) es"
  by (simp_all add: used_entries_def)

lemma store_loop_holds:
  "map_of (objects (store_loop base i es st)) =
     map_of (objects st) ++ map_of (rev (used_entries (store_manifest st) base i es)) \<and>
   latest_batch (store_loop base i es st) =
     latest_batch st \<union> fst ` set (used_entries (store_manifest st) base i es) \<and>
   store_manifest (store_loop base i es st) = store_manifest st \<and>
   batches (store_loop base i es st) = batches st \<and>
   obj_free (store_loop base i es st) = obj_free st \<and>
   objects_to_free (store_loop base i es st) = objects_to_free st"
proof (induction es arbitrary: i st)
  case (Cons e es)
  show ?case
    by (cases "entry_target (store_manifest st) e") (simp_all add: Cons.IH update_conv' fun_upd_def map_add_def fun_eq_iff split: option.split)
qed simp

lemma store_insert_holds:
  assumes "store_insert st input = (ok, st')"
  shows "map_of (objects st') = map_of (objects st) ++ map_of (rev (batch_entries (store_manifest st) (batches st) input)) \<and>
    latest_batch st' = fst ` set (batch_entries (store_manifest st) (batches st) input) \<and>
    store_manifest st' = store_manifest st \<and> batches st' = batches st + 1 \<and> obj_free st' = obj_free st \<and>
    objects_to_free st' = objects_to_free st @ (if obj_free st then [input] else []) \<and>
    (ok \<longleftrightarrow> is_map input \<or> (\<exists>nm. input = Obj nm (Map (NullArr 0))))"
proof (cases input)
  case (Obj nm v)
  show ?thesis
  proof (cases v)
    case (Map a)
    show ?thesis
    proof (cases a)
      case (NullArr n)
      with assms show ?thesis
        by (auto simp: store_insert_def Let_def Obj Map batch_entries_def split: if_splits)
    next
      case (Arr c es)
      with assms show ?thesis
        by (cases "es = []"; cases "obj_free st")
          (simp_all add: store_insert_def Let_def Obj Map batch_entries_def, (elim conjE, hypsubst, simp add: store_loop_holds)+)
    qed
  qed (use assms in \<open>auto simp: store_insert_def Let_def Obj batch_entries_def\<close>)
qed

text \<open>The batches a context is given, one after the other.\<close>

primrec store_inserts :: "object_store \<Rightarrow> ddwaf_object list \<Rightarrow> object_store" where
  "store_inserts st [] = st"
| "store_inserts st (x # xs) = store_inserts (snd (store_insert st x)) xs"

abbreviation store_after :: "manifest \<Rightarrow> bool \<Rightarrow> ddwaf_object list \<Rightarrow> object_store" where
  "store_after m free_fn xs \<equiv> store_inserts (new_object_store m free_fn) xs"

lemma store_inserts_snoc: "store_inserts st (xs @ [x]) = snd (store_insert (store_inserts st xs) x)"
  by (induction xs arbitrary: st) simp_all

text \<open>C35: After any batches, the store answers for an address with the entry given last for it,
  over all batches; its new addresses are exactly those of the last batch; and the destructor
  releases every object given, malformed ones included, once and in order, when there is a
  release function.\<close>

theorem store_latest_wins:
  "get_target (store_after m free_fn xs) t =
      map_of (rev (concat (map (\<lambda>(b, x). batch_entries m b x) (enumerate 0 xs)))) t \<and>
   (is_new_target (store_after m free_fn (xs @ [x])) t \<longleftrightarrow> t \<in> fst ` set (batch_entries m (length xs) x)) \<and>
   store_released (store_after m free_fn xs) = (if free_fn then xs else [])"
proof -
  let ?st = "\<lambda>xs. store_after m free_fn xs"
  have inv: "map_of (objects (?st xs)) = map_of (rev (concat (map (\<lambda>(b, x). batch_entries m b x) (enumerate 0 xs)))) \<and>
    store_manifest (?st xs) = m \<and> batches (?st xs) = length xs \<and> obj_free (?st xs) = free_fn \<and>
    objects_to_free (?st xs) = (if free_fn then xs else [])" for xs
  proof (induction xs rule: rev_induct)
    case Nil
    then show ?case
      by (simp add: new_object_store_def)
  next
    case (snoc x xs)
    obtain ok st' where s: "store_insert (?st xs) x = (ok, st')"
      by fastforce
    then have "?st (xs @ [x]) = st'"
      by (simp add: store_inserts_snoc)
    then show ?case
      using store_insert_holds [OF s] snoc.IH by (simp add: enumerate_append_eq)
  qed
  obtain ok st' where s: "store_insert (?st xs) x = (ok, st')"
    by fastforce
  then have "?st (xs @ [x]) = st'"
    by (simp add: store_inserts_snoc)
  then have "latest_batch (?st (xs @ [x])) = fst ` set (batch_entries m (length xs) x)"
    using store_insert_holds [OF s] inv [of xs] by simp
  then show ?thesis
    using inv [of xs] by (auto simp: get_target_def is_new_target_def store_released_def)
qed

end
