(* ===== verification/Path_Trie.thy ===== *)
theory Path_Trie
  imports Main "HOL-Library.AList" "HOL-Library.Sublist"
begin

text \<open>
  The trie of key paths of an object filter (\<open>path_trie\<close> in \<open>src/exclusion/object_filter.hpp\<close>) and
  its traverser, which follows all the paths that a \<open>*\<close> leaves open at once.
\<close>

section \<open>The trie\<close>

text \<open>
  A node holds its children by key. No root stands for a trie without any path, a root without
  children for the empty path, which selects everything. The interned strings only own the keys.
\<close>

datatype trie_node = Node (trie_children: "(string \<times> trie_node) list")

type_synonym path_trie = "trie_node option"

definition get_child :: "trie_node \<Rightarrow> string \<Rightarrow> trie_node option" where
  "get_child n key = map_of (trie_children n) key"

definition is_terminal :: "trie_node \<Rightarrow> bool" where
  "is_terminal n \<longleftrightarrow> trie_children n = []"

text \<open>The child, whether it is new, and the node with it.\<close>

definition get_or_create_child :: "trie_node \<Rightarrow> string \<Rightarrow> trie_node \<times> bool \<times> trie_node" where
  "get_or_create_child n key =
     (case get_child n key of
        Some c \<Rightarrow> (c, False, n)
      | None \<Rightarrow> (Node [], True, Node (trie_children n @ [(key, Node [])])))"

definition set_child :: "trie_node \<Rightarrow> string \<Rightarrow> trie_node \<Rightarrow> trie_node" where
  "set_child n key c = Node (AList.update key c (trie_children n))"

text \<open>
  The loop over the components with what follows it; the caller stores the child that the loop
  has gone on with.
\<close>

primrec insert_from :: "string list \<Rightarrow> bool \<Rightarrow> trie_node \<Rightarrow> trie_node" where
  "insert_from [] last_is_new cur = (if \<not> last_is_new then Node [] else cur)"
| "insert_from (component # path) last_is_new cur =
     (let (node, is_new, cur') = get_or_create_child cur component in
      if \<not> is_new \<and> is_terminal node then cur'
      else set_child cur' component (insert_from path is_new node))"

definition trie_insert :: "path_trie \<Rightarrow> string list \<Rightarrow> path_trie" where
  "trie_insert root path = Some (insert_from path True (case root of None \<Rightarrow> Node [] | Some n \<Rightarrow> n))"

section \<open>The traverser\<close>

type_synonym traverser = "trie_node list"

datatype traverser_state = Not_Found | Found | Intermediate_Node

definition get_traverser :: "path_trie \<Rightarrow> traverser" where
  "get_traverser root = (case root of None \<Rightarrow> [] | Some n \<Rightarrow> [n])"

definition get_state :: "traverser \<Rightarrow> traverser_state" where
  "get_state tr =
     (if tr = [] then Not_Found
      else if length tr = 1 \<and> is_terminal (last tr) then Found
      else Intermediate_Node)"

text \<open>
  One node: the children for the keys in turn, up to a terminal one. \<open>descend\<close> tries the key and
  \<open>*\<close>, \<open>descend_wildcard\<close> only \<open>*\<close>.
\<close>

primrec try_children :: "string list \<Rightarrow> trie_node \<Rightarrow> traverser \<Rightarrow> trie_node + traverser" where
  "try_children [] cur_node next_nodes = Inr next_nodes"
| "try_children (key # keys) cur_node next_nodes =
     (case get_child cur_node key of
        None \<Rightarrow> try_children keys cur_node next_nodes
      | Some n \<Rightarrow>
          if is_terminal n then Inl n else try_children keys cur_node (next_nodes @ [n]))"

primrec descend_loop :: "string list \<Rightarrow> traverser \<Rightarrow> traverser \<Rightarrow> traverser" where
  "descend_loop keys [] next_nodes = next_nodes"
| "descend_loop keys (cur_node # cur_nodes) next_nodes =
     (case try_children keys cur_node next_nodes of
        Inl n \<Rightarrow> [n]
      | Inr next_nodes' \<Rightarrow> descend_loop keys cur_nodes next_nodes')"

definition descend :: "traverser \<Rightarrow> string \<Rightarrow> traverser" where
  "descend tr next_key =
     (if get_state tr \<noteq> Intermediate_Node then tr else descend_loop [next_key, ''*''] tr [])"

definition descend_wildcard :: "traverser \<Rightarrow> traverser" where
  "descend_wildcard tr =
     (if get_state tr \<noteq> Intermediate_Node then tr else descend_loop [''*''] tr [])"

section \<open>The paths of a trie\<close>

primrec walk :: "trie_node \<Rightarrow> string list \<Rightarrow> trie_node option" where
  "walk n [] = Some n"
| "walk n (key # keys) = (case get_child n key of None \<Rightarrow> None | Some c \<Rightarrow> walk c keys)"

definition holds :: "trie_node \<Rightarrow> string list \<Rightarrow> bool" where
  "holds n p \<longleftrightarrow> (\<exists>c. walk n p = Some c \<and> is_terminal c)"

lemma holds_Nil: "holds n [] \<longleftrightarrow> is_terminal n"
  by (simp add: holds_def)

lemma holds_Cons: "holds n (k # p) \<longleftrightarrow> (\<exists>c. get_child n k = Some c \<and> holds c p)"
  by (auto simp: holds_def split: option.splits)

lemma terminal_no_child: "is_terminal n \<Longrightarrow> get_child n k = None"
  by (simp add: is_terminal_def get_child_def)

lemma walk_append: "walk n (p @ q) = (case walk n p of None \<Rightarrow> None | Some c \<Rightarrow> walk c q)"
  by (induction p arbitrary: n) (auto split: option.splits)

lemma get_child_set [simp]: "get_child (set_child n k c) j = (if j = k then Some c else get_child n j)"
  by (simp add: get_child_def set_child_def update_conv')

lemma not_terminal_set [simp]: "\<not> is_terminal (set_child n k c)"
  by (simp add: is_terminal_def set_child_def)

lemma create_child:
  assumes "get_or_create_child n k = (c, is_new, n')"
  shows "get_child n' k = Some c \<and>
    (\<forall>j. j \<noteq> k \<longrightarrow> get_child n' j = get_child n j) \<and>
    (is_new \<longleftrightarrow> get_child n k = None) \<and> (is_new \<longrightarrow> c = Node []) \<and> (\<not> is_new \<longrightarrow> n' = n \<and> get_child n k = Some c)"
  using assms by (auto simp: get_or_create_child_def get_child_def map_add_def split: option.splits)

lemma holds_set:
  "holds (set_child n k c) q \<longleftrightarrow>
     (case q of [] \<Rightarrow> False | j # q' \<Rightarrow> if j = k then holds c q' else holds n q)"
  by (cases q) (auto simp: holds_Nil holds_Cons)

text \<open>What an insertion does to the paths of a trie.\<close>

lemma holds_insert_new: "holds (insert_from ks True (Node [])) q \<longleftrightarrow> q = ks"
proof (induction ks arbitrary: q)
  case Nil
  then show ?case
    by (cases q) (simp_all add: holds_Nil holds_Cons is_terminal_def get_child_def)
next
  case (Cons k ks)
  have "insert_from (k # ks) True (Node []) = set_child (Node [(k, Node [])]) k (insert_from ks True (Node []))"
    by (simp add: get_or_create_child_def get_child_def)
  moreover have "get_child (Node [(k, Node [])]) j = (if j = k then Some (Node []) else None)" for j
    by (simp add: get_child_def)
  ultimately show ?case
    by (cases q) (auto simp: holds_set Cons.IH holds_Cons)
qed

lemma holds_insert:
  assumes "\<not> is_terminal n" "\<not> new \<or> ks \<noteq> []"
  shows "holds (insert_from ks new n) q \<longleftrightarrow>
    (if \<exists>p. prefix p ks \<and> holds n p then holds n q else q = ks \<or> holds n q \<and> \<not> prefix ks q)"
  using assms
proof (induction ks arbitrary: n new q)
  case Nil
  then show ?case
    by (cases q) (auto simp: holds_Nil holds_Cons is_terminal_def get_child_def)
next
  case (Cons k ks)
  obtain c is_new n' where cr: "get_or_create_child n k = (c, is_new, n')"
    by (metis prod_cases3)
  note facts = create_child [OF cr]
  have pre: "(\<exists>p. prefix p (k # ks) \<and> holds n p) \<longleftrightarrow>
      (\<exists>d. get_child n k = Some d \<and> (\<exists>p. prefix p ks \<and> holds d p))"
    (is "?l \<longleftrightarrow> ?r")
  proof
    assume ?l
    then show ?r
      using Cons.prems(1) by (auto simp: prefix_Cons holds_Nil holds_Cons) blast
  next
    assume ?r
    then obtain d p where "get_child n k = Some d" "prefix p ks" "holds d p"
      by blast
    then show ?l
      by (intro exI [of _ "k # p"]) (simp add: holds_Cons)
  qed
  have step: "holds (insert_from (k # ks) new n) q \<longleftrightarrow>
      (case q of [] \<Rightarrow> False | j # q' \<Rightarrow> if j = k then holds (insert_from ks is_new c) q' else holds n q)"
    if "is_new \<or> \<not> is_terminal c"
  proof (cases q)
    case (Cons j q')
    then have "j \<noteq> k \<Longrightarrow> holds n' q = holds n q"
      using facts by (simp add: holds_Cons)
    with Cons that show ?thesis
      by (auto simp: cr holds_set)
  qed (use that in \<open>auto simp: cr holds_set\<close>)
  consider "is_new" | "\<not> is_new" "is_terminal c" | "\<not> is_new" "\<not> is_terminal c"
    by blast
  then show ?case
  proof cases
    case 1
    then have "get_child n k = None" "c = Node []"
      using facts by blast+
    then show ?thesis
      unfolding step [OF disjI1 [OF 1]] pre using 1 Cons.prems(1)
      by (cases q) (simp_all add: holds_Nil holds_Cons holds_insert_new)
  next
    case 2
    then have n: "n' = n" "get_child n k = Some c"
      using facts by blast+
    then have same: "insert_from (k # ks) new n = n"
      using 2 by (simp add: cr)
    have "\<exists>p. prefix p (k # ks) \<and> holds n p"
      using 2 n(2) by (intro exI [of _ "[k]"]) (simp add: holds_Cons holds_Nil)
    then show ?thesis
      by (simp only: same if_True)
  next
    case 3
    then have "get_child n k = Some c"
      using facts by blast
    then show ?thesis
      unfolding step [OF disjI2 [OF 3(2)]] pre using 3 Cons.prems(1) Cons.IH [of c False]
      by (cases q) (auto simp: holds_Nil holds_Cons)
  qed
qed


section \<open>What a traverser finds\<close>

text \<open>
  The keys on the way to an object; an entry without a key matches only \<open>*\<close>. A set of paths
  selects what stands at or below the end of one of them.
\<close>

definition key_matches :: "string \<Rightarrow> string option \<Rightarrow> bool" where
  "key_matches component key \<longleftrightarrow> component = ''*'' \<or> key = Some component"

definition selects :: "string list \<Rightarrow> string option list \<Rightarrow> bool" where
  "selects path ks \<longleftrightarrow> length path \<le> length ks \<and> list_all2 key_matches path (take (length path) ks)"

definition selected :: "string list list \<Rightarrow> string option list \<Rightarrow> bool" where
  "selected paths ks \<longleftrightarrow> (\<exists>path \<in> set paths. selects path ks)"

lemma selects_prefix:
  assumes "prefix p q" "selects q ks"
  shows "selects p ks"
proof -
  obtain r where q: "q = p @ r"
    using assms(1) by (auto simp: prefix_def)
  have "length p \<le> length ks"
    using assms(2) by (simp add: selects_def q)
  then have "list_all2 key_matches p (take (length p) ks) \<and> list_all2 key_matches r (take (length r) (drop (length p) ks))"
    using assms(2) list_all2_append [of p "take (length p) ks" key_matches r "take (length r) (drop (length p) ks)"]
    by (simp add: selects_def q take_add)
  then show ?thesis
    using \<open>length p \<le> length ks\<close> by (simp add: selects_def)
qed

lemma selects_extend: "selects p ks \<Longrightarrow> selects p (ks @ ks')"
  by (simp add: selects_def)

lemma selects_all: "list_all2 key_matches p ks \<Longrightarrow> selects p ks"
  using list_all2_lengthD by (fastforce simp: selects_def)

lemma selects_snoc:
  "selects p (ks @ [k]) \<longleftrightarrow> selects p ks \<or> list_all2 key_matches p (ks @ [k])"
proof -
  have "length p = Suc (length ks) \<Longrightarrow> take (length p) (ks @ [k]) = ks @ [k]"
    by simp
  then show ?thesis
    using selects_all [of p "ks @ [k]"] by (auto simp: selects_def le_Suc_eq)
qed

definition trie_paths :: "path_trie \<Rightarrow> string list set" where
  "trie_paths root = (case root of None \<Rightarrow> {} | Some n \<Rightarrow> {p. holds n p})"

primrec trie_inserts :: "path_trie \<Rightarrow> string list list \<Rightarrow> path_trie" where
  "trie_inserts root [] = root"
| "trie_inserts root (p # ps) = trie_inserts (trie_insert root p) ps"

lemma trie_insert_paths:
  assumes "p \<noteq> []" "\<forall>n. root = Some n \<longrightarrow> \<not> is_terminal n"
  shows "(\<exists>q \<in> trie_paths (trie_insert root p). selects q ks) \<longleftrightarrow>
      selects p ks \<or> (\<exists>q \<in> trie_paths root. selects q ks)"
    and "\<exists>n. trie_insert root p = Some n \<and> \<not> is_terminal n"
proof -
  have "(\<exists>q. holds (insert_from p True n) q \<and> selects q ks) \<longleftrightarrow> selects p ks \<or> (\<exists>q. holds n q \<and> selects q ks)"
    if n: "\<not> is_terminal n" for n
  proof (cases "\<exists>q. prefix q p \<and> holds n q")
    case True
    then show ?thesis
      using holds_insert [of n True p, OF n] assms(1) selects_prefix by auto
  next
    case False
    have "holds (insert_from p True n) q \<longleftrightarrow> q = p \<or> holds n q \<and> \<not> prefix p q" for q
      using holds_insert [of n True p q, OF n disjI2 [OF assms(1)]] unfolding if_not_P [OF False] .
    then show ?thesis
      by (metis selects_prefix)
  qed
  moreover have "(\<exists>q. holds (insert_from p True (Node [])) q \<and> selects q ks) \<longleftrightarrow> selects p ks"
    by (simp add: holds_insert_new)
  ultimately show "(\<exists>q \<in> trie_paths (trie_insert root p). selects q ks) \<longleftrightarrow>
      selects p ks \<or> (\<exists>q \<in> trie_paths root. selects q ks)"
    using assms(2) by (cases root) (simp_all add: trie_paths_def trie_insert_def)
  obtain k ks where p: "p = k # ks"
    using assms(1) by (cases p) auto
  have "\<not> is_terminal (insert_from p True n)" if "n = Node [] \<or> \<not> is_terminal n" for n
    using that by (auto simp: p get_or_create_child_def get_child_def split: option.splits)
  then show "\<exists>n. trie_insert root p = Some n \<and> \<not> is_terminal n"
    using assms(2) by (cases root) (simp_all add: trie_insert_def)
qed

lemma trie_inserts_paths:
  "[] \<notin> set ps \<Longrightarrow> \<forall>n. root = Some n \<longrightarrow> \<not> is_terminal n \<Longrightarrow>
   ((\<exists>q \<in> trie_paths (trie_inserts root ps). selects q ks) \<longleftrightarrow>
      selected ps ks \<or> (\<exists>q \<in> trie_paths root. selects q ks)) \<and>
   (\<forall>n. trie_inserts root ps = Some n \<longrightarrow> \<not> is_terminal n)"
proof (induction ps arbitrary: root)
  case (Cons p ps)
  have p: "p \<noteq> []"
    using Cons.prems(1) by auto
  note ins = trie_insert_paths [OF p Cons.prems(2)]
  have "\<forall>n. trie_insert root p = Some n \<longrightarrow> \<not> is_terminal n"
    using ins(2) by auto
  then show ?case
    using Cons.IH [of "trie_insert root p"] Cons.prems(1) ins(1) [of ks] by (auto simp: selected_def)
qed (simp add: selected_def)

text \<open>One step of the traverser, over the keys tried.\<close>

definition step_key :: "traverser \<Rightarrow> string option \<Rightarrow> traverser" where
  "step_key tr k = (case k of None \<Rightarrow> descend_wildcard tr | Some key \<Rightarrow> descend tr key)"

lemma try_children_result:
  "case try_children keys n next_nodes of
     Inl c \<Rightarrow> is_terminal c \<and> (\<exists>k \<in> set keys. get_child n k = Some c)
   | Inr ns \<Rightarrow> set ns = set next_nodes \<union> {c. \<exists>k \<in> set keys. get_child n k = Some c} \<and>
       (\<forall>k \<in> set keys. \<forall>c. get_child n k = Some c \<longrightarrow> \<not> is_terminal c)"
proof (induction keys arbitrary: next_nodes)
  case (Cons k keys)
  show ?case
  proof (cases "get_child n k")
    case None
    then show ?thesis
      using Cons.IH [of next_nodes] by (auto split: sum.splits)
  next
    case (Some c)
    then show ?thesis
      using Cons.IH [of "next_nodes @ [c]"] by (auto split: sum.splits)
  qed
qed simp

lemma descend_loop_result:
  "(if \<exists>n \<in> set tr. \<exists>k \<in> set keys. \<exists>c. get_child n k = Some c \<and> is_terminal c
    then \<exists>c. descend_loop keys tr ns = [c] \<and> is_terminal c
    else set (descend_loop keys tr ns) = set ns \<union> {c. \<exists>n \<in> set tr. \<exists>k \<in> set keys. get_child n k = Some c})"
proof (induction tr arbitrary: ns)
  case (Cons n tr)
  show ?case
  proof (cases "try_children keys n ns")
    case (Inl c)
    then show ?thesis
      using try_children_result [of keys n ns] by auto
  next
    case (Inr ns')
    then have r: "set ns' = set ns \<union> {c. \<exists>k \<in> set keys. get_child n k = Some c}"
      "\<forall>k \<in> set keys. \<forall>c. get_child n k = Some c \<longrightarrow> \<not> is_terminal c"
      using try_children_result [of keys n ns] by auto
    then have "(\<exists>m \<in> set (n # tr). \<exists>k \<in> set keys. \<exists>c. get_child m k = Some c \<and> is_terminal c) \<longleftrightarrow>
        (\<exists>m \<in> set tr. \<exists>k \<in> set keys. \<exists>c. get_child m k = Some c \<and> is_terminal c)"
      by auto
    then show ?thesis
      using Cons.IH [of ns'] r(1) Inr by (auto split: if_splits)
  qed
qed simp

lemma step_key_result:
  assumes "get_state tr = Intermediate_Node"
  shows "if \<exists>n \<in> set tr. \<exists>p c. key_matches p k \<and> get_child n p = Some c \<and> is_terminal c
    then \<exists>c. step_key tr k = [c] \<and> is_terminal c
    else set (step_key tr k) = {c. \<exists>n \<in> set tr. \<exists>p. key_matches p k \<and> get_child n p = Some c}"
proof -
  define keys where "keys = (case k of None \<Rightarrow> [''*''] | Some key \<Rightarrow> [key, ''*''])"
  have "step_key tr k = descend_loop keys tr []"
    using assms by (cases k) (simp_all add: step_key_def keys_def descend_def descend_wildcard_def)
  moreover have "(\<exists>p \<in> set keys. P p) \<longleftrightarrow> (\<exists>p. key_matches p k \<and> P p)" for P
    by (cases k) (auto simp: keys_def key_matches_def)
  ultimately show ?thesis
    using descend_loop_result [of tr keys "[]"] by simp
qed


definition traverse :: "traverser \<Rightarrow> string option list \<Rightarrow> traverser" where
  "traverse tr ks = foldl step_key tr ks"

lemma traverse_simps [simp]:
  "traverse tr [] = tr" "traverse tr (k # ks) = traverse (step_key tr k) ks"
  "traverse tr (ks @ [k]) = step_key (traverse tr ks) k"
  by (simp_all add: traverse_def)

lemma step_key_keeps: "get_state tr \<noteq> Intermediate_Node \<Longrightarrow> step_key tr k = tr"
  by (simp add: step_key_def descend_def descend_wildcard_def split: option.split)

lemma traverse_keeps: "get_state tr \<noteq> Intermediate_Node \<Longrightarrow> traverse tr ks = tr"
  by (induction ks) (simp_all add: step_key_keeps)

lemma walk_snoc: "walk n (p @ [k]) = Some c \<longleftrightarrow> (\<exists>m. walk n p = Some m \<and> get_child m k = Some c)"
  by (auto simp: walk_append split: option.splits)

lemma matches_snoc:
  "list_all2 key_matches q (ks @ [k]) \<longleftrightarrow> (\<exists>p c. q = p @ [c] \<and> list_all2 key_matches p ks \<and> key_matches c k)"
proof
  assume "list_all2 key_matches q (ks @ [k])"
  then obtain p r where "q = p @ r" "list_all2 key_matches p ks" "list_all2 key_matches r [k]"
    by (auto simp: list_all2_append2)
  then show "\<exists>p c. q = p @ [c] \<and> list_all2 key_matches p ks \<and> key_matches c k"
    by (auto simp: list_all2_Cons2)
qed (auto simp: list_all2_appendI)

lemma traverse_state:
  assumes "\<not> is_terminal root"
  shows "if \<exists>q. holds root q \<and> selects q ks then get_state (traverse [root] ks) = Found
    else (\<forall>n \<in> set (traverse [root] ks). \<not> is_terminal n) \<and>
      set (traverse [root] ks) = {n. \<exists>p. walk root p = Some n \<and> list_all2 key_matches p ks}"
proof (induction ks rule: rev_induct)
  case Nil
  then show ?case
    using assms by (auto simp: selects_def holds_Nil)
next
  case (snoc k ks)
  let ?tr = "traverse [root] ks"
  show ?case
  proof (cases "\<exists>q. holds root q \<and> selects q ks")
    case True
    then show ?thesis
      using snoc.IH by (auto simp: step_key_keeps selects_snoc)
  next
    case False
    then have tr: "\<forall>n \<in> set ?tr. \<not> is_terminal n"
      "set ?tr = {n. \<exists>p. walk root p = Some n \<and> list_all2 key_matches p ks}"
      using snoc.IH by (metis (lifting))+
    have sel: "(\<exists>q. holds root q \<and> selects q (ks @ [k])) \<longleftrightarrow>
        (\<exists>n \<in> set ?tr. \<exists>p c. key_matches p k \<and> get_child n p = Some c \<and> is_terminal c)" (is "?l \<longleftrightarrow> ?r")
    proof
      assume ?l
      then obtain q where q: "holds root q" "list_all2 key_matches q (ks @ [k])"
        using False selects_snoc by blast
      then obtain p c where "q = p @ [c]" "list_all2 key_matches p ks" "key_matches c k"
        unfolding matches_snoc by blast
      moreover from this(1) q(1) obtain m d where "walk root p = Some m" "get_child m c = Some d" "is_terminal d"
        unfolding holds_def walk_snoc by (auto simp: walk_snoc)
      ultimately show ?r
        unfolding tr(2) by blast
    next
      assume ?r
      then obtain p p' n c where "walk root p = Some n" "list_all2 key_matches p ks"
        "key_matches p' k" "get_child n p' = Some c" "is_terminal c"
        unfolding tr(2) by blast
      then have "holds root (p @ [p'])" "list_all2 key_matches (p @ [p']) (ks @ [k])"
        by (auto simp: holds_def walk_snoc list_all2_appendI)
      then show ?l
        using selects_all by blast
    qed
    have new: "{n. \<exists>p. walk root p = Some n \<and> list_all2 key_matches p (ks @ [k])} =
        {c. \<exists>n \<in> set ?tr. \<exists>p. key_matches p k \<and> get_child n p = Some c}"
    proof (rule set_eqI)
      fix x
      have "x \<in> {n. \<exists>p. walk root p = Some n \<and> list_all2 key_matches p (ks @ [k])} \<longleftrightarrow>
          (\<exists>p c. walk root (p @ [c]) = Some x \<and> list_all2 key_matches p ks \<and> key_matches c k)"
        unfolding matches_snoc by blast
      then show "x \<in> {n. \<exists>p. walk root p = Some n \<and> list_all2 key_matches p (ks @ [k])} \<longleftrightarrow>
          x \<in> {c. \<exists>n \<in> set ?tr. \<exists>p. key_matches p k \<and> get_child n p = Some c}"
        unfolding tr(2) walk_snoc by blast
    qed
    show ?thesis
    proof (cases "?tr = []")
      case True
      then have "step_key ?tr k = ?tr"
        by (simp add: step_key_keeps get_state_def)
      then show ?thesis
        unfolding traverse_simps(3) sel new using True by simp
    next
      case nonempty: False
      then have "get_state ?tr = Intermediate_Node"
        using tr(1) by (auto simp: get_state_def)
      from step_key_result [OF this, of k] show ?thesis
        unfolding traverse_simps(3) sel new by (auto simp: get_state_def split: if_splits)
    qed
  qed
qed

text \<open>
  The traverser of a trie finds exactly the objects whose keys one of the inserted paths selects,
  and it stops at the first such object on the way.
\<close>

lemma traverser_found:
  assumes "[] \<notin> set ps"
  shows "get_state (traverse (get_traverser (trie_inserts None ps)) ks) = Found \<longleftrightarrow> selected ps ks"
proof (cases "trie_inserts None ps")
  case None
  then show ?thesis
    using trie_inserts_paths [OF assms, of None ks]
    by (simp add: get_traverser_def traverse_keeps get_state_def trie_paths_def)
next
  case (Some n)
  then have n: "\<not> is_terminal n" "(\<exists>q. holds n q \<and> selects q ks) \<longleftrightarrow> selected ps ks"
    using trie_inserts_paths [OF assms, of None ks] by (simp_all add: trie_paths_def)
  show ?thesis
    using traverse_state [OF n(1), of ks] n(2) Some
    by (auto simp: get_traverser_def get_state_def split: if_splits)
qed

text \<open>
  The empty path: the comment of \<open>insert\<close> has it clear the trie, so that it selects everything
  (\<open>object_filter.hpp:177-178\<close>), but the flag it sets is the one that prevents the clearing; and a
  path inserted after it replaces it.
\<close>

lemma empty_path_forgotten:
  "trie_inserts None [[''a''], []] = trie_inserts None [[''a'']] \<and>
   trie_inserts None [[], [''a'']] = trie_inserts None [[''a'']] \<and>
   get_state (descend (get_traverser (trie_inserts None [[''a''], []])) ''b'') = Not_Found"
  by code_simp

end
