(* ===== verification/Object_Filter.thy ===== *)
theory Object_Filter
  imports Iterators Object_Store Path_Trie
begin

text \<open>
  The object filter (\<open>object_filter\<close> in \<open>src/exclusion/object_filter.hpp\<close> and
  \<open>src/exclusion/object_filter.cpp\<close>): the objects below the filtered addresses that one of the
  key paths selects.
\<close>

section \<open>The traversal of one object\<close>

type_synonym filter_frame = "ref \<times> nat \<times> traverser"

definition child_traverser :: "traverser \<Rightarrow> ddwaf_object \<Rightarrow> traverser" where
  "child_traverser tr child =
     (case parameterName child of
        None \<Rightarrow> descend_wildcard tr
      | Some key \<Rightarrow> if length key = 0 then descend_wildcard tr else descend tr key)"

definition filter_weight :: "filter_frame list \<Rightarrow> nat" where
  "filter_weight st = sum_list (map (\<lambda>(r, i, _). frame_weight (r, i)) st)"

lemma filter_weight_simps [simp]:
  "filter_weight [] = 0" "filter_weight ((r, i, tr) # st) = frame_weight (r, i) + filter_weight st"
  by (simp_all add: filter_weight_def)

function iterate_loop :: "object_limits \<Rightarrow> filter_frame list \<Rightarrow> addr set \<Rightarrow> addr set" where
  "iterate_loop lim [] objects_to_exclude = objects_to_exclude"
| "iterate_loop lim ((current, i, tr) # rest) objects_to_exclude =
     (if \<not> is_container (obj_of current) \<or> \<not> in_frame lim (current, i)
      then iterate_loop lim rest objects_to_exclude
      else let child = child_at current i; tr' = child_traverser tr (obj_of child) in
        case get_state tr' of
          Found \<Rightarrow> iterate_loop lim ((current, Suc i, tr) # rest) (insert (addr_of child) objects_to_exclude)
        | Not_Found \<Rightarrow> iterate_loop lim ((current, Suc i, tr) # rest) objects_to_exclude
        | Intermediate_Node \<Rightarrow>
            if is_container (obj_of child) \<and> Suc (length rest) < max_container_depth lim
            then iterate_loop lim ((child, 0, tr') # (current, Suc i, tr) # rest) objects_to_exclude
            else iterate_loop lim ((current, Suc i, tr) # rest) objects_to_exclude)"
  by pat_completeness auto
termination
proof (relation "measure (\<lambda>(lim, st, out). filter_weight st)", goal_cases)
  case (2 lim current i tr rest out)
  then show ?case
    by (simp add: frame_weight_def)
next
  case (5 lim current i tr rest out)
  then show ?case
    using frame_weight_next [of i current] frame_weight_push [of current i] by (simp add: in_frame_def)
qed (use frame_weight_next weight_pos in \<open>auto simp: in_frame_def\<close>)

declare iterate_loop.simps [simp del]

definition iterate_object :: "object_limits \<Rightarrow> traverser \<Rightarrow> ref option \<Rightarrow> addr set \<Rightarrow> addr set" where
  "iterate_object lim flt ob objects_to_exclude =
     (case ob of
        None \<Rightarrow> objects_to_exclude
      | Some r \<Rightarrow>
          (case get_state flt of
             Not_Found \<Rightarrow> objects_to_exclude
           | Found \<Rightarrow> insert (addr_of r) objects_to_exclude
           | Intermediate_Node \<Rightarrow>
               if \<not> is_container (obj_of r) then objects_to_exclude
               else iterate_loop lim [(r, 0, flt)] objects_to_exclude))"

section \<open>The filter\<close>

text \<open>The paths of each target; the list stands for the unspecified order of the hash map.\<close>

record object_filter =
  filter_limits :: object_limits
  target_paths :: "(u32 \<times> path_trie) list"
  filter_targets :: "u32 set"

definition new_object_filter :: "object_limits \<Rightarrow> object_filter" where
  "new_object_filter lim = \<lparr>filter_limits = lim, target_paths = [], filter_targets = {}\<rparr>"

definition filter_insert :: "object_filter \<Rightarrow> u32 \<Rightarrow> string list \<Rightarrow> object_filter" where
  "filter_insert f target key_path =
     (let trie = (case map_of (target_paths f) target of None \<Rightarrow> None | Some t \<Rightarrow> t) in
      f\<lparr>target_paths := AList.update target (trie_insert trie key_path) (target_paths f),
        filter_targets := insert target (filter_targets f)\<rparr>)"

text \<open>
  The loop over the targets. The cache and the timer are references: they keep their changes
  when the exception is thrown.
\<close>

type_synonym filter_cache = "u32 set"

primrec filter_loop ::
    "clock \<Rightarrow> object_limits \<Rightarrow> object_store \<Rightarrow> (u32 \<times> path_trie) list \<Rightarrow> addr set \<Rightarrow> filter_cache \<Rightarrow> timer
     \<Rightarrow> addr set run \<times> filter_cache \<times> timer" where
  "filter_loop clock lim store [] out cache deadline = (Return out, cache, deadline)"
| "filter_loop clock lim store (entry # entries) out cache deadline =
     (let (target, trie) = entry; (late, deadline') = expired clock deadline in
      if late then (Timeout_Exception, cache, deadline')
      else if target \<in> cache then filter_loop clock lim store entries out cache deadline'
      else (case get_target store target of
              None \<Rightarrow> filter_loop clock lim store entries out cache deadline'
            | Some r \<Rightarrow>
                filter_loop clock lim store entries (iterate_object lim (get_traverser trie) (Some r) out)
                  (insert target cache) deadline'))"

definition filter_match ::
    "clock \<Rightarrow> object_filter \<Rightarrow> object_store \<Rightarrow> filter_cache \<Rightarrow> timer \<Rightarrow> addr set run \<times> filter_cache \<times> timer" where
  "filter_match clock f store cache deadline =
     filter_loop clock (filter_limits f) store (target_paths f) {} cache deadline"

section \<open>What is excluded\<close>

text \<open>The keys on the way to a position, as the filter sees them.\<close>

definition entry_key :: "ddwaf_object \<Rightarrow> string option" where
  "entry_key ob = (case parameterName ob of None \<Rightarrow> None | Some key \<Rightarrow> if length key = 0 then None else Some key)"

primrec keys_along :: "ref \<Rightarrow> nat list \<Rightarrow> string option list" where
  "keys_along r [] = []"
| "keys_along r (i # pos) = entry_key (obj_of (child_at r i)) # keys_along (child_at r i) pos"

text \<open>The positions within the limits.\<close>

primrec visible :: "object_limits \<Rightarrow> ref \<Rightarrow> nat list \<Rightarrow> bool" where
  "visible lim r [] \<longleftrightarrow> True"
| "visible lim r (i # pos) \<longleftrightarrow> is_container (obj_of r) \<and> in_frame lim (r, i) \<and> visible lim (child_at r i) pos"

lemma child_traverser_step: "child_traverser tr ob = step_key tr (entry_key ob)"
  by (simp add: child_traverser_def step_key_def entry_key_def split: option.split)

text \<open>The positions that a traversal marks, from a child on that is looked at with a stack of size \<open>d\<close>.\<close>

primrec marks :: "object_limits \<Rightarrow> nat \<Rightarrow> traverser \<Rightarrow> ref \<Rightarrow> nat list \<Rightarrow> bool" where
  "marks lim d tr c [] \<longleftrightarrow> get_state tr = Found"
| "marks lim d tr c (i # pos) \<longleftrightarrow> get_state tr = Intermediate_Node \<and> is_container (obj_of c) \<and>
     d < max_container_depth lim \<and> in_frame lim (c, i) \<and>
     marks lim (Suc d) (child_traverser tr (obj_of (child_at c i))) (child_at c i) pos"

definition frame_marks :: "object_limits \<Rightarrow> nat \<Rightarrow> filter_frame \<Rightarrow> addr set" where
  "frame_marks lim d f = (case f of (r, i, tr) \<Rightarrow>
     {addr_of r @ k # pos |k pos. i \<le> k \<and> is_container (obj_of r) \<and> in_frame lim (r, k) \<and>
        marks lim d (child_traverser tr (obj_of (child_at r k))) (child_at r k) pos})"

primrec stack_marks :: "object_limits \<Rightarrow> filter_frame list \<Rightarrow> addr set" where
  "stack_marks lim [] = {}"
| "stack_marks lim (f # fs) = frame_marks lim (Suc (length fs)) f \<union> stack_marks lim fs"

lemma frame_marks_stop:
  "\<not> is_container (obj_of r) \<or> \<not> in_frame lim (r, i) \<Longrightarrow> frame_marks lim d (r, i, tr) = {}"
  by (auto simp: frame_marks_def in_frame_def)

lemma frame_marks_next:
  assumes "is_container (obj_of r)" "in_frame lim (r, i)"
  shows "frame_marks lim d (r, i, tr) =
    {addr_of (child_at r i) @ pos |pos. marks lim d (child_traverser tr (obj_of (child_at r i))) (child_at r i) pos} \<union>
    frame_marks lim d (r, Suc i, tr)"
proof -
  have "i \<le> k \<longleftrightarrow> k = i \<or> Suc i \<le> k" for k
    by auto
  then show ?thesis
    using assms by (auto simp: frame_marks_def)
qed

lemma child_marks:
  "{addr_of c @ pos |pos. marks lim d tr c pos} =
     (case get_state tr of
        Found \<Rightarrow> {addr_of c}
      | Not_Found \<Rightarrow> {}
      | Intermediate_Node \<Rightarrow>
          if is_container (obj_of c) \<and> d < max_container_depth lim then frame_marks lim (Suc d) (c, 0, tr) else {})"
proof -
  have split: "(\<exists>pos. x = addr_of c @ pos \<and> marks lim d tr c pos) \<longleftrightarrow>
      x = addr_of c \<and> marks lim d tr c [] \<or> (\<exists>i pos. x = addr_of c @ i # pos \<and> marks lim d tr c (i # pos))" for x
    by (metis append_Nil2 neq_Nil_conv)
  show ?thesis
    unfolding split set_eq_iff mem_Collect_eq
    by (cases "get_state tr") (auto simp: frame_marks_def)
qed

lemma iterate_loop_marks: "iterate_loop lim st out = out \<union> stack_marks lim st"
proof (induction lim st out rule: iterate_loop.induct)
  case (2 lim r i tr rest out)
  show ?case
  proof (cases "\<not> is_container (obj_of r) \<or> \<not> in_frame lim (r, i)")
    case True
    then show ?thesis
      using "2.IH"(1) by (simp add: iterate_loop.simps(2) frame_marks_stop)
  next
    case False
    note IH = "2.IH"(2-5) [OF False refl refl]
    from False have "is_container (obj_of r)" "in_frame lim (r, i)"
      by blast+
    note nx = frame_marks_next [OF this, of "Suc (length rest)" tr]
    show ?thesis
      using False IH
      by (cases "get_state (child_traverser tr (obj_of (child_at r i)))")
        (auto simp: iterate_loop.simps(2) nx child_marks Let_def simp del: addr_child_at obj_child_at)
  qed
qed (simp add: iterate_loop.simps)

lemma keys_along_child: "keys_along c (i # pos) = entry_key (obj_of (child_at c i)) # keys_along (child_at c i) pos"
  by simp

lemma marks_traverse:
  "marks lim d tr c pos \<longleftrightarrow> visible lim c pos \<and> (pos = [] \<or> d + length pos \<le> max_container_depth lim) \<and>
     get_state (traverse tr (keys_along c pos)) = Found \<and>
     (\<forall>n < length pos. get_state (traverse tr (keys_along c (take n pos))) = Intermediate_Node)"
proof (induction pos arbitrary: d tr c)
  case (Cons i pos)
  have all: "(\<forall>n < length (i # pos). P n) \<longleftrightarrow> P 0 \<and> (\<forall>n < length pos. P (Suc n))" for P
    using less_Suc_eq_0_disj by auto
  have len: "d < max_container_depth lim \<and> (pos = [] \<or> Suc d + length pos \<le> max_container_depth lim) \<longleftrightarrow>
      d + length (i # pos) \<le> max_container_depth lim"
    by (cases pos) auto
  show ?case
    unfolding all marks.simps Cons.IH child_traverser_step
    by (simp only: visible.simps keys_along.simps take_Suc_Cons take_0 traverse_simps(1,2) len [symmetric] list.distinct
        simp_thms conj_ac)
qed simp

lemma before_found:
  assumes "get_state (traverse tr (keys_along r pos)) = Found" "n < length pos"
    "get_state (traverse tr (keys_along r (take n pos))) \<noteq> Found"
  shows "get_state (traverse tr (keys_along r (take n pos))) = Intermediate_Node"
proof (rule ccontr)
  have keys: "keys_along r (p @ q) = keys_along r p @ keys_along (descend_ref r p) q" for p q
    by (induction p arbitrary: r) simp_all
  assume "get_state (traverse tr (keys_along r (take n pos))) \<noteq> Intermediate_Node"
  note stays = traverse_keeps [OF this]
  have "keys_along r pos = keys_along r (take n pos) @ keys_along (descend_ref r (take n pos)) (drop n pos)"
    using keys [of "take n pos" "drop n pos"] by simp
  then have "traverse tr (keys_along r pos) =
      traverse (traverse tr (keys_along r (take n pos))) (keys_along (descend_ref r (take n pos)) (drop n pos))"
    by (simp only: traverse_def foldl_append)
  then show False
    using assms(1,3) by (simp only: stays)
qed



section \<open>The cache\<close>

text \<open>
  The cache remembers the targets, not the objects: when an address is given again, its new value
  is no longer filtered (\<open>object_filter.cpp:102-104\<close>). And when the deadline passes in the middle,
  the targets seen so far are cached although their exclusions are lost with the exception.
\<close>

lemma filter_forgets_new_value:
  "let lim = \<lparr>max_container_depth = 20, max_container_size = 256, max_string_length = 4096\<rparr>;
       clock = (\<lambda>_. (0, 0, 0));
       ob = Obj None (Map (Arr 8 [Obj (Some ''query'') (Map (Arr 8 [Obj (Some ''x'') (Signed 1)]))]));
       m = snd (manifest_insert empty_manifest ''query'');
       f = filter_insert (new_object_filter lim) 1 [''x''];
       st1 = store_after m True [ob]; st2 = store_after m True [ob, ob];
       (r1, cache1, t1) = filter_match clock f st1 {} (new_timer clock 0 1000 16);
       (r2, cache2, t2) = filter_match clock f st2 cache1 t1
   in r1 = Return {[0, 0, 0]} \<and> is_new_target st2 1 \<and> r2 = Return {}"
  by code_simp

lemma filter_timeout_loses_exclusions:
  "let lim = \<lparr>max_container_depth = 20, max_container_size = 256, max_string_length = 4096\<rparr>;
       late = (\<lambda>i. (0, if i = 2 then 1 else 0, 0));
       entry = (\<lambda>k. Obj (Some k) (Map (Arr 8 [Obj (Some ''x'') (Signed 1)])));
       m = manifest_inserts empty_manifest [''a'', ''b''];
       st = store_after m True [Obj None (Map (Arr 8 [entry ''a'', entry ''b'']))];
       f = filter_insert (filter_insert (new_object_filter lim) 1 [''x'']) 2 [''x''];
       (r1, cache1, t1) = filter_match late f st {} (new_timer late 0 1000 1);
       (r2, cache2, t2) = filter_match late f st cache1 (new_timer late 3 1000 1)
   in r1 = Timeout_Exception \<and> r2 = Return {[0, 1, 0]}"
  by code_simp

end
