(* ===== verification/Ip_Utils.thy ===== *)
theory Ip_Utils
  imports Prelude
begin

text \<open>
  Addresses and networks (\<open>src/ip_utils.hpp\<close>, \<open>src/ip_utils.cpp\<close>). \<open>inet_pton\<close> of the system's
  network library is a parameter: the four or sixteen bytes it stores, when it returns 1.
\<close>

section \<open>The code\<close>

datatype address_family = Ipv4 | Ipv6 | Ipv4_Mapped_Ipv6

record ipaddr =
  ip_data :: "u8 list"
  ip_mask :: u8
  ip_type :: address_family

record inet =
  pton4 :: "string \<Rightarrow> u8 list option"
  pton6 :: "string \<Rightarrow> u8 list option"

text \<open>\<open>ipaddr ip{}\<close>.\<close>

definition zero_ipaddr :: ipaddr where
  "zero_ipaddr = \<lparr>ip_data = replicate 16 0, ip_mask = 0, ip_type = Ipv4\<rparr>"

abbreviation INET6_ADDRSTRLEN :: nat where "INET6_ADDRSTRLEN \<equiv> 46"

text \<open>Storing bytes at the start of the array.\<close>

definition overwrite :: "u8 list \<Rightarrow> u8 list \<Rightarrow> u8 list" where
  "overwrite bytes a = bytes @ drop (length bytes) a"

definition parse_ip :: "inet \<Rightarrow> string \<Rightarrow> ipaddr \<Rightarrow> bool \<times> ipaddr" where
  "parse_ip net ip out =
     (if length ip \<ge> INET6_ADDRSTRLEN then (False, out)
      else let ip_cstr = takeWhile (\<lambda>c. c \<noteq> NUL) ip in
        case pton4 net ip_cstr of
          Some bytes \<Rightarrow> (True, \<lparr>ip_data = overwrite bytes (ip_data out), ip_mask = 32, ip_type = Ipv4\<rparr>)
        | None \<Rightarrow>
            (case pton6 net ip_cstr of
               None \<Rightarrow> (False, out)
             | Some bytes \<Rightarrow> (True, \<lparr>ip_data = overwrite bytes (ip_data out), ip_mask = 128, ip_type = Ipv6\<rparr>)))"

definition ipv4_to_ipv6 :: "ipaddr \<Rightarrow> ipaddr" where
  "ipv4_to_ipv6 out =
     (if ip_type out \<noteq> Ipv4 then out
      else let d1 = (ip_data out)[10 := 0xff, 11 := 0xff];
               d2 = d1[12 := d1 ! 0, 13 := d1 ! 1, 14 := d1 ! 2, 15 := d1 ! 3];
               d3 = replicate 10 0 @ drop 10 d2
           in \<lparr>ip_data = d3, ip_mask = ip_mask out + 96, ip_type = Ipv4_Mapped_Ipv6\<rparr>)"

text \<open>
  \<open>std::stoi\<close>: white space, a sign, digits; what follows is ignored, and no digits is an
  exception. At most three characters are given, so that the value fits.
\<close>

definition digits_value :: "string \<Rightarrow> int" where
  "digits_value = foldl (\<lambda>v c. 10 * v + (of_char c - 48)) 0"

definition stoi :: "string \<Rightarrow> int option" where
  "stoi s =
     (let s1 = dropWhile isspace s;
          (neg, s2) = (case s1 of
             c # cs \<Rightarrow> if c = CHR ''-'' then (True, cs) else if c = CHR ''+'' then (False, cs) else (False, s1)
           | [] \<Rightarrow> (False, []));
          ds = takeWhile isdigit s2
      in if ds = [] then None else Some (if neg then - digits_value ds else digits_value ds))"

text \<open>The loop that clears the bytes after the first masked one.\<close>

function zero_loop :: "nat \<Rightarrow> u8 list \<Rightarrow> u8 list" where
  "zero_loop i d = (if i < 16 then zero_loop (Suc i) (d[i := 0]) else d)"
  by pat_completeness auto
termination by (relation "measure (\<lambda>(i, d). 16 - i)") auto

declare zero_loop.simps [simp del]

definition apply_mask :: "ipaddr \<Rightarrow> ipaddr" where
  "apply_mask out =
     (let byte_index = unat (ip_mask out div 8) in
      if byte_index < 16 then
        let d = (ip_data out)[byte_index :=
              ip_data out ! byte_index AND NOT (drop_bit (unat (ip_mask out AND 0x7)) 0xff)]
        in out\<lparr>ip_data := zero_loop (Suc byte_index) d\<rparr>
      else out)"

definition find_slash :: "string \<Rightarrow> nat option" where
  "find_slash str = find (\<lambda>i. str ! i = CHR ''/'') [0..<length str]"

definition parse_cidr :: "inet \<Rightarrow> string \<Rightarrow> ipaddr \<Rightarrow> bool \<times> ipaddr" where
  "parse_cidr net str out =
     (case find_slash str of
        Some slash_idx \<Rightarrow>
          (if slash_idx \<ge> INET6_ADDRSTRLEN then (False, out)
           else let mask_len = length str - slash_idx - 1 in
             if mask_len = 0 \<or> mask_len > 3 then (False, out)
             else let (ok, out) = parse_ip net (take slash_idx str) out in
               if \<not> ok then (False, out)
               else (case stoi (take mask_len (drop (slash_idx + 1) str)) of
                       None \<Rightarrow> (False, out)
                     | Some m \<Rightarrow>
                         if ip_type out = Ipv4 \<and> m > 32 \<or> ip_type out = Ipv6 \<and> m > 128 \<or> m < 0
                         then (False, out)
                         else (True, apply_mask (ipv4_to_ipv6 (out\<lparr>ip_mask := of_int m\<rparr>)))))
      | None \<Rightarrow>
          (let (ok, out) = parse_ip net str out in
           if \<not> ok then (False, out) else (True, apply_mask (ipv4_to_ipv6 out))))"

section \<open>The bits of an address\<close>

definition addr_bit :: "u8 list \<Rightarrow> nat \<Rightarrow> bool" where
  "addr_bit a k = (a ! (k div 8) AND drop_bit (k mod 8) 0x80 \<noteq> 0)"

lemma addr_bit_bit: "addr_bit a k \<longleftrightarrow> bit (a ! (k div 8)) (7 - k mod 8)"
proof -
  have m: "k mod 8 < 8"
    by simp
  have "\<forall>j \<in> set [0..<8]. drop_bit j (0x80 :: u8) = push_bit (7 - j) 1"
    by code_simp
  then have "drop_bit j (0x80 :: u8) = push_bit (7 - j) 1" if "j < 8" for j
    using that by simp
  then have "drop_bit (k mod 8) (0x80 :: u8) = push_bit (7 - k mod 8) 1"
    using m by blast
  moreover have "w AND push_bit n 1 = (if bit w n then push_bit n 1 else 0)" if "n < 8" for w :: u8 and n
    by (rule bit_word_eqI) (auto simp: bit_simps that)
  moreover have "\<forall>n \<in> set [0..<8]. push_bit n (1 :: u8) \<noteq> 0"
    by code_simp
  then have "push_bit (7 - k mod 8) (1 :: u8) \<noteq> 0"
    by (simp add: less_imp_diff_less)
  ultimately show ?thesis
    by (simp add: addr_bit_def)
qed

lemma zero_loop_nth: "length (zero_loop i d) = length d \<and>
   (k < length d \<longrightarrow> zero_loop i d ! k = (if i \<le> k \<and> k < 16 then 0 else d ! k))"
proof (induction i d rule: zero_loop.induct)
  case (1 i d)
  show ?case
  proof (cases "i < 16")
    case True
    with 1 show ?thesis
      by (subst (1 2) zero_loop.simps) (auto simp: nth_list_update)
  next
    case False
    then show ?thesis
      by (subst (1 2) zero_loop.simps) auto
  qed
qed

text \<open>Masking keeps the leading bits and clears the others.\<close>

lemma apply_mask_bits:
  assumes "length (ip_data out) = 16" "k < 128"
  shows "addr_bit (ip_data (apply_mask out)) k \<longleftrightarrow> k < unat (ip_mask out) \<and> addr_bit (ip_data out) k"
    and "length (ip_data (apply_mask out)) = 16"
    and "ip_mask (apply_mask out) = ip_mask out"
proof -
  let ?m = "unat (ip_mask out)"
  have idx: "unat (ip_mask out div 8) = ?m div 8"
    by (simp add: unat_div)
  have low: "unat (ip_mask out AND 0x7) = ?m mod 8"
  proof -
    have "ip_mask out AND 0x7 = take_bit 3 (ip_mask out)"
      by (simp add: take_bit_eq_mask mask_eq_exp_minus_1)
    then show ?thesis
      by (simp add: take_bit_eq_mod unat_mod)
  qed
  show "length (ip_data (apply_mask out)) = 16" "ip_mask (apply_mask out) = ip_mask out"
    using assms(1) by (simp_all add: apply_mask_def Let_def zero_loop_nth)
  show "addr_bit (ip_data (apply_mask out)) k \<longleftrightarrow> k < ?m \<and> addr_bit (ip_data out) k"
  proof (cases "?m div 8 < 16")
    case False
    then have "apply_mask out = out"
      by (simp add: apply_mask_def idx)
    moreover have "k < ?m"
      using assms(2) False by linarith
    ultimately show ?thesis
      by simp
  next
    case True
    let ?d = "(ip_data out)[?m div 8 := ip_data out ! (?m div 8) AND NOT (drop_bit (?m mod 8) 0xff)]"
    have data: "ip_data (apply_mask out) = zero_loop (Suc (?m div 8)) ?d"
      using True by (simp add: apply_mask_def idx low Let_def)
    have k: "k div 8 < 16" "length ?d = 16"
      using assms by simp_all
    have "\<forall>j \<in> set [0..<8]. \<forall>i \<in> set [0..<8]. bit (NOT (drop_bit j (0xff :: u8))) (7 - i) \<longleftrightarrow> i < j"
      by code_simp
    then have ff: "bit (NOT (drop_bit j (0xff :: u8))) (7 - i) \<longleftrightarrow> i < j" if "i < 8" "j < 8" for i j
      using that by simp
    consider "k div 8 < ?m div 8" | "k div 8 = ?m div 8" | "?m div 8 < k div 8"
      by linarith
    then show ?thesis
    proof cases
      case 1
      then have "k < ?m"
        by (metis div_le_mono leD le_less_linear)
      then show ?thesis
        using 1 k True zero_loop_nth [of "Suc (?m div 8)" ?d "k div 8"] by (simp add: addr_bit_def data)
    next
      case 2
      then have "zero_loop (Suc (?m div 8)) ?d ! (k div 8) = ip_data out ! (k div 8) AND NOT (drop_bit (?m mod 8) 0xff)"
        using k True assms(1) zero_loop_nth [of "Suc (?m div 8)" ?d "k div 8"] by simp
      moreover have "k < ?m \<longleftrightarrow> k mod 8 < ?m mod 8"
        using 2 by (metis add_less_cancel_left div_mult_mod_eq)
      moreover have "k mod 8 < 8"
        by simp
      ultimately show ?thesis
        using ff [of "k mod 8" "?m mod 8"] unfolding addr_bit_bit data by (simp only: bit_and_iff) auto
    next
      case 3
      then have "\<not> k < ?m"
        by (metis div_le_mono leD le_less_linear less_imp_le)
      then show ?thesis
        using 3 k zero_loop_nth [of "Suc (?m div 8)" ?d "k div 8"] by (simp add: addr_bit_def data)
    qed
  qed
qed

end
