(* ===== verification/Radix.thy ===== *)
theory Radix
  imports Ip_Utils
begin

text \<open>
  The radix tree behind the address lists (\<open>third_party/radixlib/radixlib.h\<close>,
  \<open>third_party/radixlib/radixlib.c\<close>): a binary trie over the bits of the addresses whose nodes
  without a prefix only branch. The parent pointers of the code are the path to the node in focus.
\<close>

section \<open>The code\<close>

type_synonym prefix_t = "u8 list \<times> nat"

datatype radix =
    Null
  | Radix_Node (rbit: nat) (rprefix: "prefix_t option") (rexpiration: u64) (rl: radix) (rr: radix)

text \<open>\<open>_comp_with_mask\<close>.\<close>

definition comp_with_mask :: "u8 list \<Rightarrow> u8 list \<Rightarrow> nat \<Rightarrow> bool" where
  "comp_with_mask a dest m =
     (take (m div 8) a = take (m div 8) dest \<and>
      (m mod 8 = 0 \<or>
       a ! (m div 8) AND push_bit (8 - m mod 8) (- 1) = dest ! (m div 8) AND push_bit (8 - m mod 8) (- 1)))"

text \<open>The descent of \<open>radix_matching_do\<close> with its stack, and the search through the stack.\<close>

fun match_stack :: "u8 list \<Rightarrow> nat \<Rightarrow> radix list \<Rightarrow> radix \<Rightarrow> radix list" where
  "match_stack a bitlen stack Null = stack"
| "match_stack a bitlen stack (Radix_Node b p e l r) =
     (let stack' = (if p \<noteq> None then Radix_Node b p e l r # stack else stack) in
      if b < bitlen then match_stack a bitlen stack' (if addr_bit a b then r else l) else stack')"

definition radix_matching_do :: "radix \<Rightarrow> prefix_t \<Rightarrow> radix option" where
  "radix_matching_do tree prefix =
     find (\<lambda>n. case rprefix n of None \<Rightarrow> False | Some (a, len) \<Rightarrow> comp_with_mask a (fst prefix) len)
       (match_stack (fst prefix) (snd prefix) [] tree)"

text \<open>
  The way from the root to a node: whether it goes right, the fields of the node left behind and
  its other child, innermost first.
\<close>

type_synonym step = "bool \<times> nat \<times> prefix_t option \<times> u64 \<times> radix"

definition step_bit :: "step \<Rightarrow> nat" where
  "step_bit s = fst (snd s)"

definition plug :: "radix \<Rightarrow> step \<Rightarrow> radix" where
  "plug t s = (case s of (right, b, p, e, other) \<Rightarrow>
     if right then Radix_Node b p e other t else Radix_Node b p e t other)"

definition unfocus :: "radix \<Rightarrow> step list \<Rightarrow> radix" where
  "unfocus t ctx = foldl plug t ctx"

text \<open>The parts of \<open>radix_put_if_absent\<close>: the descent, the first differing bit, the way back up.\<close>

fun put_down :: "nat \<Rightarrow> u8 list \<Rightarrow> nat \<Rightarrow> step list \<Rightarrow> radix \<Rightarrow> step list \<times> radix" where
  "put_down maxbits a bitlen ctx Null = (ctx, Null)"
| "put_down maxbits a bitlen ctx (Radix_Node b p e l r) =
     (if b < bitlen \<or> p = None then
        (if b < maxbits \<and> addr_bit a b then
           (if r = Null then (ctx, Radix_Node b p e l r)
            else put_down maxbits a bitlen ((True, b, p, e, l) # ctx) r)
         else
           (if l = Null then (ctx, Radix_Node b p e l r)
            else put_down maxbits a bitlen ((False, b, p, e, r) # ctx) l))
      else (ctx, Radix_Node b p e l r))"

function differ_loop :: "u8 list \<Rightarrow> u8 list \<Rightarrow> nat \<Rightarrow> nat \<Rightarrow> nat \<Rightarrow> nat" where
  "differ_loop a test check_bit i differ_bit =
     (if i * 8 < check_bit then
        (let r = a ! i XOR test ! i in
         if r = 0 then differ_loop a test check_bit (i + 1) ((i + 1) * 8)
         else i * 8 + (case find (\<lambda>j. r AND drop_bit j 0x80 \<noteq> 0) [0..<8] of Some j \<Rightarrow> j | None \<Rightarrow> 8))
      else differ_bit)"
  by pat_completeness auto
termination by (relation "measure (\<lambda>(a, test, c, i, d). c - i * 8)") auto

declare differ_loop.simps [simp del]

fun put_up :: "nat \<Rightarrow> step list \<Rightarrow> radix \<Rightarrow> step list \<times> radix" where
  "put_up differ_bit [] node = ([], node)"
| "put_up differ_bit (s # ctx) node =
     (if step_bit s \<ge> differ_bit then put_up differ_bit ctx (plug node s) else (s # ctx, node))"

text \<open>The result is the node the code returns, in focus, so that the caller can write to it.\<close>

definition put_at :: "nat \<Rightarrow> prefix_t \<Rightarrow> u8 list \<Rightarrow> nat \<Rightarrow> step list \<Rightarrow> radix \<Rightarrow> (step list \<times> radix) option" where
  "put_at maxbits prefix test_addr differ_bit ctx node =
     (case prefix of (a, bitlen) \<Rightarrow>
      case node of
        Null \<Rightarrow> None
      | Radix_Node b p e l r \<Rightarrow>
          if differ_bit = bitlen \<and> b = bitlen then
            Some (ctx, if p = None then Radix_Node b (Some prefix) e l r else node)
          else if b = differ_bit then
            (if b < maxbits \<and> addr_bit a b
             then Some ((True, b, p, e, l) # ctx, Radix_Node bitlen (Some prefix) 0 Null Null)
             else Some ((False, b, p, e, r) # ctx, Radix_Node bitlen (Some prefix) 0 Null Null))
          else if bitlen = differ_bit then
            (if bitlen < maxbits \<and> addr_bit test_addr bitlen
             then Some (ctx, Radix_Node bitlen (Some prefix) 0 Null node)
             else Some (ctx, Radix_Node bitlen (Some prefix) 0 node Null))
          else
            (if differ_bit < maxbits \<and> addr_bit a differ_bit
             then Some ((True, differ_bit, None, 0, node) # ctx, Radix_Node bitlen (Some prefix) 0 Null Null)
             else Some ((False, differ_bit, None, 0, node) # ctx, Radix_Node bitlen (Some prefix) 0 Null Null)))"

definition radix_put_if_absent :: "nat \<Rightarrow> radix \<Rightarrow> prefix_t \<Rightarrow> (step list \<times> radix) option" where
  "radix_put_if_absent maxbits tree prefix =
     (case tree of
        Null \<Rightarrow> Some ([], Radix_Node (snd prefix) (Some prefix) 0 Null Null)
      | Radix_Node _ _ _ _ _ \<Rightarrow>
          (let (a, bitlen) = prefix; (ctx, node) = put_down maxbits a bitlen [] tree in
           case rprefix node of
             None \<Rightarrow> None
           | Some (test_addr, _) \<Rightarrow>
               let check_bit = (if rbit node < bitlen then rbit node else bitlen);
                   differ_bit = min (differ_loop a test_addr check_bit 0 0) check_bit;
                   (ctx', node') = put_up differ_bit ctx node
               in put_at maxbits prefix test_addr differ_bit ctx' node'))"

text \<open>\<open>node->expiration = e\<close> on the node that is returned, and the tree with it.\<close>

definition set_expiration :: "u64 \<Rightarrow> step list \<times> radix \<Rightarrow> radix" where
  "set_expiration e focus = (case focus of (ctx, node) \<Rightarrow>
     unfocus (case node of Null \<Rightarrow> Null | Radix_Node b p _ l r \<Rightarrow> Radix_Node b p e l r) ctx)"

definition radix_set :: "nat \<Rightarrow> radix \<Rightarrow> prefix_t \<Rightarrow> u64 \<Rightarrow> radix option" where
  "radix_set maxbits tree prefix e = map_option (set_expiration e) (radix_put_if_absent maxbits tree prefix)"

section \<open>Bit strings\<close>

definition bits_of :: "prefix_t \<Rightarrow> bool list" where
  "bits_of p = map (addr_bit (fst p)) [0..<snd p]"

lemma length_bits_of [simp]: "length (bits_of p) = snd p"
  by (simp add: bits_of_def)

lemma nth_bits_of [simp]: "k < snd p \<Longrightarrow> bits_of p ! k = addr_bit (fst p) k"
  by (simp add: bits_of_def)

lemma take_bits_of: "take n (bits_of (a, m)) = bits_of (a, min n m)"
  by (cases "n \<le> m") (simp_all add: bits_of_def take_map)

lemma byte_eq_bits: "(x :: u8) = y \<longleftrightarrow> (\<forall>j < 8. bit x (7 - j) \<longleftrightarrow> bit y (7 - j))"
proof
  assume eq: "\<forall>j < 8. bit x (7 - j) \<longleftrightarrow> bit y (7 - j)"
  show "x = y"
  proof (rule bit_word_eqI)
    fix n
    assume "n < LENGTH(8)"
    then show "bit x n \<longleftrightarrow> bit y n"
      using eq [rule_format, of "7 - n"] by simp
  qed
qed simp

lemma bits_of_bytes:
  "8 * n \<le> 8 * length a \<Longrightarrow> length a = length b \<Longrightarrow>
   bits_of (a, 8 * n) = bits_of (b, 8 * n) \<longleftrightarrow> take n a = take n b"
proof -
  assume n: "8 * n \<le> 8 * length a" "length a = length b"
  have "bits_of (a, 8 * n) = bits_of (b, 8 * n) \<longleftrightarrow> (\<forall>k < 8 * n. addr_bit a k = addr_bit b k)"
    by (auto simp: bits_of_def)
  also have "\<dots> \<longleftrightarrow> (\<forall>i < n. \<forall>j < 8. addr_bit a (8 * i + j) = addr_bit b (8 * i + j))"
  proof
    assume "\<forall>i < n. \<forall>j < 8. addr_bit a (8 * i + j) = addr_bit b (8 * i + j)"
    then show "\<forall>k < 8 * n. addr_bit a k = addr_bit b k"
      by (metis less_mult_imp_div_less mod_less_divisor mult.commute mult_div_mod_eq zero_less_numeral)
  qed auto
  also have "\<dots> \<longleftrightarrow> (\<forall>i < n. a ! i = b ! i)"
    by (simp add: byte_eq_bits addr_bit_bit)
  also have "\<dots> \<longleftrightarrow> take n a = take n b"
    using n by (auto simp: list_eq_iff_nth_eq)
  finally show ?thesis .
qed

lemma masked_eq:
  assumes "s \<le> 8"
  shows "(x :: u8) AND push_bit (8 - s) (- 1) = y AND push_bit (8 - s) (- 1) \<longleftrightarrow>
    (\<forall>j < s. bit x (7 - j) \<longleftrightarrow> bit y (7 - j))"
proof -
  have "x AND push_bit (8 - s) (- 1) = y AND push_bit (8 - s) (- 1) \<longleftrightarrow>
      (\<forall>n < 8. 8 - s \<le> n \<longrightarrow> (bit x n \<longleftrightarrow> bit y n))"
    by (auto simp: bit_eq_iff bit_simps dest: bit_imp_le_length)
  also have "\<dots> \<longleftrightarrow> (\<forall>j < s. bit x (7 - j) \<longleftrightarrow> bit y (7 - j))"
  proof
    assume eq: "\<forall>j < s. bit x (7 - j) \<longleftrightarrow> bit y (7 - j)"
    show "\<forall>n < 8. 8 - s \<le> n \<longrightarrow> (bit x n \<longleftrightarrow> bit y n)"
    proof (intro allI impI)
      fix n :: nat
      assume "n < 8" "8 - s \<le> n"
      then show "bit x n \<longleftrightarrow> bit y n"
        using eq [rule_format, of "7 - n"] assms by auto
    qed
  qed (use assms in auto)
  finally show ?thesis .
qed

lemma all_less_add: "(\<forall>k < m + n. P k) \<longleftrightarrow> (\<forall>k < m. P k) \<and> (\<forall>j < n. P (m + j))" for m n :: nat
proof (intro iffI allI impI conjI)
  fix k
  assume "(\<forall>k < m. P k) \<and> (\<forall>j < n. P (m + j))" "k < m + n"
  then show "P k"
    by (cases "k < m") (auto dest: spec [of _ "k - m"])
qed auto

lemma comp_with_mask_bits:
  assumes "length a = 16" "length b = 16" "m \<le> 128"
  shows "comp_with_mask a b m \<longleftrightarrow> bits_of (a, m) = bits_of (b, m)"
proof -
  let ?q = "m div 8" and ?s = "m mod 8"
  have m: "m = 8 * ?q + ?s"
    by simp
  have "bits_of (a, m) = bits_of (b, m) \<longleftrightarrow> (\<forall>k < 8 * ?q + ?s. addr_bit a k = addr_bit b k)"
    using m by (auto simp: bits_of_def)
  also have "\<dots> \<longleftrightarrow> (\<forall>k < 8 * ?q. addr_bit a k = addr_bit b k) \<and>
      (\<forall>j < ?s. addr_bit a (8 * ?q + j) = addr_bit b (8 * ?q + j))"
    by (rule all_less_add)
  also have "(\<forall>k < 8 * ?q. addr_bit a k = addr_bit b k) \<longleftrightarrow> bits_of (a, 8 * ?q) = bits_of (b, 8 * ?q)"
    by (auto simp: bits_of_def)
  also have "\<dots> \<longleftrightarrow> take ?q a = take ?q b"
    using assms by (intro bits_of_bytes) auto
  also have "(\<forall>j < ?s. addr_bit a (8 * ?q + j) = addr_bit b (8 * ?q + j)) \<longleftrightarrow>
      (\<forall>j < ?s. bit (a ! ?q) (7 - j) \<longleftrightarrow> bit (b ! ?q) (7 - j))"
  proof -
    have "(8 * ?q + j) div 8 = ?q \<and> (8 * ?q + j) mod 8 = j" if "j < ?s" for j
      using that by (simp add: less_trans [OF that])
    then show ?thesis
      by (simp add: addr_bit_bit)
  qed
  also have "\<dots> \<longleftrightarrow> ?s = 0 \<or> a ! ?q AND push_bit (8 - ?s) (- 1) = b ! ?q AND push_bit (8 - ?s) (- 1)"
    by (subst masked_eq) auto
  finally show ?thesis
    by (simp add: comp_with_mask_def)
qed

text \<open>The first differing bit of two prefixes, within the bits compared.\<close>

definition agree :: "nat \<Rightarrow> bool list \<Rightarrow> bool list \<Rightarrow> bool" where
  "agree n xs ys \<longleftrightarrow> take n xs = take n ys"

lemma find_first_bit:
  fixes r :: u8
  assumes "r \<noteq> 0"
  shows "\<exists>j < 8. find (\<lambda>j. r AND drop_bit j 0x80 \<noteq> 0) [0..<8] = Some j \<and> bit r (7 - j) \<and>
    (\<forall>i < j. \<not> bit r (7 - i))"
proof -
  have bit: "r AND drop_bit j 0x80 \<noteq> 0 \<longleftrightarrow> bit r (7 - j)" if "j < 8" for j
    using addr_bit_bit [of "[r]" j] that by (simp add: addr_bit_def)
  obtain j where "j < 8" "bit r (7 - j)"
    using assms byte_eq_bits [of r 0] by auto
  then have "find (\<lambda>j. r AND drop_bit j 0x80 \<noteq> 0) [0..<8] \<noteq> None"
    using bit by (auto simp: find_None_iff)
  then obtain i where i: "find (\<lambda>j. r AND drop_bit j 0x80 \<noteq> 0) [0..<8] = Some i"
    by auto
  then have f: "i < 8" "r AND drop_bit i 0x80 \<noteq> 0" "\<forall>k < i. \<not> (r AND drop_bit k 0x80 \<noteq> 0)"
    by (auto simp: find_Some_iff)
  have "\<not> bit r (7 - k)" if "k < i" for k
    using bit [of k] f(1,3) that by (metis less_trans)
  then show ?thesis
    using i bit [OF f(1)] f(1,2) by blast
qed

lemma differ_loop_first:
  assumes "length a = 16" "length b = 16" "c \<le> 128"
  shows "(\<forall>k < i * 8. addr_bit a k = addr_bit b k) \<Longrightarrow> (i = 0 \<or> (i - 1) * 8 < c) \<Longrightarrow> d = i * 8 \<Longrightarrow>
    let f = min (differ_loop a b c i d) c in
      (\<forall>k < f. addr_bit a k = addr_bit b k) \<and> (f < c \<longrightarrow> addr_bit a f \<noteq> addr_bit b f)"
proof (induction a b c i d rule: differ_loop.induct)
  case (1 a b c i d)
  show ?case
  proof (cases "i * 8 < c")
    case False
    then show ?thesis
      using "1.prems" by (subst differ_loop.simps) (auto simp: min_def)
  next
    case True
    let ?r = "a ! i XOR b ! i"
    have r: "bit ?r n \<longleftrightarrow> bit (a ! i) n \<noteq> bit (b ! i) n" for n
      by (simp add: bit_xor_iff)
    have byte: "addr_bit a (i * 8 + j) = bit (a ! i) (7 - j)" "addr_bit b (i * 8 + j) = bit (b ! i) (7 - j)"
      if "j < 8" for j
      using that by (simp_all add: addr_bit_bit)
    show ?thesis
    proof (cases "?r = 0")
      case zero: True
      have "\<forall>k < (i + 1) * 8. addr_bit a k = addr_bit b k"
      proof (intro allI impI)
        fix k
        assume k: "k < (i + 1) * 8"
        show "addr_bit a k = addr_bit b k"
        proof (cases "k < i * 8")
          case False
          then have "k = i * 8 + (k - i * 8)" "k - i * 8 < 8"
            using k by auto
          then show ?thesis
            using byte [of "k - i * 8"] zero by (metis word_bw_comms(3) xor_self_eq bit_xor_iff r zero bit_0_eq bot_apply bot_bool_def)
        qed (use "1.prems" in simp)
      qed
      then show ?thesis
        using "1.IH" [OF True refl zero] True zero
        by (subst differ_loop.simps) (simp add: Let_def)
    next
      case False
      then obtain j where j: "j < 8" "find (\<lambda>j. ?r AND drop_bit j 0x80 \<noteq> 0) [0..<8] = Some j" "bit ?r (7 - j)"
        "\<forall>k < j. \<not> bit ?r (7 - k)"
        using find_first_bit by blast
      have "differ_loop a b c i d = i * 8 + j"
        using True False j(2) by (subst differ_loop.simps) (simp add: Let_def)
      moreover have "addr_bit a (i * 8 + j) \<noteq> addr_bit b (i * 8 + j)"
        using byte [OF j(1)] j(3) r by simp
      moreover have "addr_bit a k = addr_bit b k" if "k < i * 8 + j" for k
      proof (cases "k < i * 8")
        case False
        then have "k = i * 8 + (k - i * 8)" "k - i * 8 < j"
          using that by auto
        then show ?thesis
          using byte [of "k - i * 8"] j(1,4) r by (metis less_trans)
      qed (use "1.prems" in simp)
      ultimately show ?thesis
        by (auto simp: Let_def min_def)
    qed
  qed
qed

section \<open>The tree as a map from bit strings\<close>

primrec entries :: "radix \<Rightarrow> (bool list \<times> u64) set" where
  "entries Null = {}"
| "entries (Radix_Node b p e l r) =
     (case p of None \<Rightarrow> {} | Some q \<Rightarrow> {(bits_of q, e)}) \<union> entries l \<union> entries r"

abbreviation keys :: "radix \<Rightarrow> bool list set" where
  "keys t \<equiv> fst ` entries t"

definition valid_prefix :: "prefix_t \<Rightarrow> bool" where
  "valid_prefix q \<longleftrightarrow> length (fst q) = 16 \<and> snd q \<le> 128"

text \<open>
  The invariant: bits grow downwards, a node without a prefix branches, the keys below a node agree
  up to its bit and part there.
\<close>

primrec radix_wf :: "radix \<Rightarrow> bool" where
  "radix_wf Null \<longleftrightarrow> True"
| "radix_wf (Radix_Node b p e l r) \<longleftrightarrow>
     b \<le> 128 \<and> (\<forall>q. p = Some q \<longrightarrow> valid_prefix q \<and> snd q = b) \<and> (p = None \<longrightarrow> l \<noteq> Null \<and> r \<noteq> Null) \<and>
     radix_wf l \<and> radix_wf r \<and> (l \<noteq> Null \<longrightarrow> b < rbit l) \<and> (r \<noteq> Null \<longrightarrow> b < rbit r) \<and>
     (\<forall>xs \<in> keys l. b < length xs \<and> \<not> xs ! b) \<and> (\<forall>xs \<in> keys r. b < length xs \<and> xs ! b) \<and>
     (\<forall>xs \<in> keys (Radix_Node b p e l r). \<forall>ys \<in> keys (Radix_Node b p e l r). take b xs = take b ys)"

lemma keys_node: "keys (Radix_Node b p e l r) = (case p of None \<Rightarrow> {} | Some q \<Rightarrow> {bits_of q}) \<union> keys l \<union> keys r"
  by (simp add: image_Un split: option.split)

lemma wf_keys: "radix_wf t \<Longrightarrow> t \<noteq> Null \<Longrightarrow> keys t \<noteq> {} \<and> (\<forall>xs \<in> keys t. rbit t \<le> length xs) \<and> rbit t \<le> 128"
proof (induction t)
  case (Radix_Node b p e l r)
  have "\<forall>xs \<in> keys (Radix_Node b p e l r). b \<le> length xs"
    using Radix_Node.prems unfolding keys_node by (auto split: option.splits intro: less_imp_le)
  moreover have "keys (Radix_Node b p e l r) \<noteq> {}"
    using Radix_Node unfolding keys_node by (cases p) auto
  ultimately show ?case
    using Radix_Node.prems by simp
qed simp

lemma wf_lengths: "radix_wf t \<Longrightarrow> xs \<in> keys t \<Longrightarrow> length xs \<le> 128"
  by (induction t) (auto simp: valid_prefix_def keys_node split: option.splits)

lemma wf_agree: "radix_wf t \<Longrightarrow> xs \<in> keys t \<Longrightarrow> ys \<in> keys t \<Longrightarrow> take (rbit t) xs = take (rbit t) ys"
  by (cases t) auto

lemma wf_full: "radix_wf (Radix_Node b p e l r) \<Longrightarrow> \<not> b < 128 \<Longrightarrow> l = Null \<and> r = Null"
  using wf_keys [of l] wf_keys [of r] by fastforce

section \<open>Matching\<close>

lemma match_stack_append: "match_stack a n st t = match_stack a n [] t @ st"
proof (induction t arbitrary: st)
  case (Radix_Node b p e l r)
  let ?st = "\<lambda>st. if p \<noteq> None then Radix_Node b p e l r # st else st"
  have "match_stack a n (?st st) c = match_stack a n (?st []) c @ st" if "c = l \<or> c = r" for c
    using that Radix_Node.IH(1) [of "?st st"] Radix_Node.IH(1) [of "?st []"]
      Radix_Node.IH(2) [of "?st st"] Radix_Node.IH(2) [of "?st []"] by (auto split: if_splits)
  then show ?case
    by (simp add: Let_def)
qed simp

lemma find_append: "find Q (xs @ ys) = (case find Q xs of Some x \<Rightarrow> Some x | None \<Rightarrow> find Q ys)"
  by (induction xs) auto

definition longest :: "radix \<Rightarrow> bool list \<Rightarrow> radix option \<Rightarrow> bool" where
  "longest t xs res \<longleftrightarrow>
     (case res of
        None \<Rightarrow> \<forall>k \<in> keys t. take (length k) xs \<noteq> k
      | Some n \<Rightarrow> \<exists>k. (k, rexpiration n) \<in> entries t \<and> take (length k) xs = k \<and>
          (\<forall>k' \<in> keys t. take (length k') xs = k' \<longrightarrow> length k' \<le> length k))"

lemma longestI:
  "(k, rexpiration n) \<in> entries t \<Longrightarrow> take (length k) xs = k \<Longrightarrow>
   \<forall>k' \<in> keys t. take (length k') xs = k' \<longrightarrow> length k' \<le> length k \<Longrightarrow> longest t xs (Some n)"
  unfolding longest_def by auto

lemma matching_longest:
  assumes "length a = 16"
  shows "radix_wf t \<Longrightarrow> longest t (bits_of (a, 128)) (radix_matching_do t (a, 128))"
proof (induction t)
  case Null
  then show ?case
    by (simp add: radix_matching_do_def longest_def)
next
  case (Radix_Node b p e l r)
  let ?Q = "\<lambda>n. case rprefix n of None \<Rightarrow> False | Some (q, len) \<Rightarrow> comp_with_mask q a len"
  let ?t = "Radix_Node b p e l r" and ?xs = "bits_of (a, 128)"
  define own where "own = (if p \<noteq> None then [?t] else [])"
  have own: "find ?Q own = (case p of None \<Rightarrow> None | Some q \<Rightarrow> if take (length (bits_of q)) ?xs = bits_of q then Some ?t else None)"
  proof (cases p)
    case (Some q)
    then have q: "length (fst q) = 16" "snd q \<le> 128"
      using Radix_Node.prems by (auto simp: valid_prefix_def)
    have "comp_with_mask (fst q) a (snd q) \<longleftrightarrow> take (length (bits_of q)) ?xs = bits_of q"
      using comp_with_mask_bits [OF q(1) assms q(2)] q(2) by (auto simp: take_bits_of min_def)
    then show ?thesis
      by (cases q) (simp add: Some own_def)
  qed (simp add: own_def)
  show ?case
  proof (cases "b < 128")
    case False
    then have "l = Null" "r = Null"
      using wf_full [OF Radix_Node.prems] by auto
    moreover have "radix_matching_do ?t (a, 128) = find ?Q own"
      unfolding radix_matching_do_def fst_conv snd_conv using False by (simp add: own_def)
    ultimately show ?thesis
      using own by (auto simp: longest_def split: option.splits if_splits)
  next
    case True
    define c other where "c = (if addr_bit a b then r else l)" and "other = (if addr_bit a b then l else r)"
    have res: "radix_matching_do ?t (a, 128) =
        (case radix_matching_do c (a, 128) of Some n \<Rightarrow> Some n | None \<Rightarrow> find ?Q own)"
    proof -
      have "match_stack a 128 [] ?t = match_stack a 128 [] c @ own"
        using True match_stack_append [of a 128 own c] by (simp add: own_def c_def)
      then show ?thesis
        unfolding radix_matching_do_def fst_conv snd_conv by (simp only: find_append)
    qed
    have IH: "longest c ?xs (radix_matching_do c (a, 128))"
      using Radix_Node by (simp add: c_def)
    have ent: "entries ?t = (case p of None \<Rightarrow> {} | Some q \<Rightarrow> {(bits_of q, e)}) \<union> entries c \<union> entries other"
      by (auto simp: c_def other_def)
    have bit: "?xs ! b = addr_bit a b" "b < length ?xs"
      using True by (simp_all add: bits_of_def)
    have other: "take (length k) ?xs \<noteq> k" if "k \<in> keys other" for k
    proof -
      have "b < length k" "k ! b \<noteq> addr_bit a b"
        using that Radix_Node.prems by (auto simp: other_def split: if_splits)
      then show ?thesis
        using bit by (metis nth_take)
    qed
    have below: "b < length k" if "k \<in> keys c" for k
      using that Radix_Node.prems by (auto simp: c_def split: if_splits)
    have len: "length (bits_of q) = b" if "p = Some q" for q
      using that Radix_Node.prems by simp
    show ?thesis
    proof (cases "radix_matching_do c (a, 128)")
      case (Some n)
      then obtain k where k: "(k, rexpiration n) \<in> entries c" "take (length k) ?xs = k"
        "\<forall>k' \<in> keys c. take (length k') ?xs = k' \<longrightarrow> length k' \<le> length k"
        using IH by (auto simp: longest_def)
      then have "b < length k"
        using below by force
      then have "\<forall>k' \<in> keys ?t. take (length k') ?xs = k' \<longrightarrow> length k' \<le> length k"
        using k(3) other len unfolding ent by (auto simp: image_Un split: option.splits)
      then show ?thesis
        using k(1,2) Some unfolding longest_def res ent by auto
    next
      case None
      then have none: "\<forall>k \<in> keys c. take (length k) ?xs \<noteq> k"
        using IH by (simp add: longest_def)
      have res: "radix_matching_do ?t (a, 128) = find ?Q own"
        using None res by simp
      show ?thesis
      proof (cases "\<exists>q. p = Some q \<and> take (length (bits_of q)) ?xs = bits_of q")
        case True
        then obtain q where q: "p = Some q" "take (length (bits_of q)) ?xs = bits_of q"
          by blast
        then have "radix_matching_do ?t (a, 128) = Some ?t"
          using own res by simp
        moreover have "\<forall>k \<in> keys ?t. take (length k) ?xs = k \<longrightarrow> length k \<le> length (bits_of q)"
          using none other q unfolding ent image_Un by auto
        moreover have "(bits_of q, rexpiration ?t) \<in> entries ?t"
          using q by simp
        ultimately show ?thesis
          using q(2) longestI [of "bits_of q" ?t] by simp
      next
        case False
        then have "radix_matching_do ?t (a, 128) = None"
          using own res by (auto split: option.splits)
        moreover have "\<forall>k \<in> keys ?t. take (length k) ?xs \<noteq> k"
          using none other False unfolding ent image_Un by (auto split: option.splits)
        ultimately show ?thesis
          unfolding longest_def by simp
      qed
    qed
  qed
qed

section \<open>Insertion\<close>

definition step_dir :: "step \<Rightarrow> bool" where
  "step_dir s = fst s"

definition step_entries :: "step \<Rightarrow> (bool list \<times> u64) set" where
  "step_entries s = (case s of (_, _, p, e, other) \<Rightarrow>
     (case p of None \<Rightarrow> {} | Some q \<Rightarrow> {(bits_of q, e)}) \<union> entries other)"

lemma unfocus_simps [simp]: "unfocus t [] = t" "unfocus t (s # ctx) = unfocus (plug t s) ctx"
  by (simp_all add: unfocus_def)

lemma unfocus_append: "unfocus t (xs @ ys) = unfocus (unfocus t xs) ys"
  by (simp add: unfocus_def)

lemma plug_facts [simp]: "plug t s \<noteq> Null" "rbit (plug t s) = step_bit s"
  "entries (plug t s) = entries t \<union> step_entries s"
  by (cases s; auto simp: plug_def step_bit_def step_entries_def)+

lemma entries_unfocus: "entries (unfocus t ctx) = entries t \<union> \<Union> (step_entries ` set ctx)"
  by (induction ctx arbitrary: t) auto

text \<open>What the invariant says of a step above a subtree.\<close>

definition above :: "step \<Rightarrow> radix \<Rightarrow> bool" where
  "above s t \<longleftrightarrow> step_bit s < rbit t \<and>
     (\<forall>xs \<in> keys t. step_bit s < length xs \<and> xs ! step_bit s = step_dir s) \<and>
     (\<forall>xs \<in> fst ` step_entries s. length xs = step_bit s \<or> step_bit s < length xs \<and> xs ! step_bit s \<noteq> step_dir s)"

lemma plug_wf: "radix_wf (plug t s) \<Longrightarrow> t \<noteq> Null \<Longrightarrow> radix_wf t \<and> above s t"
  by (cases s)
    (auto simp: plug_def above_def step_bit_def step_dir_def step_entries_def split: if_splits option.splits)

lemma unfocus_wf: "radix_wf (unfocus t ctx) \<Longrightarrow> t \<noteq> Null \<Longrightarrow> radix_wf t \<and> (\<forall>s \<in> set ctx. above s t)"
proof (induction ctx arbitrary: t)
  case (Cons s ctx)
  have IH: "radix_wf (plug t s)" "\<forall>s' \<in> set ctx. above s' (plug t s)"
    using Cons.IH [of "plug t s"] Cons.prems(1) by simp_all
  note s = plug_wf [OF IH(1) Cons.prems(2)]
  have "above s' t" if "s' \<in> set ctx" for s'
    using IH(2) that s by (auto simp: above_def image_Un)
  then show ?case
    using s by simp
qed simp

text \<open>A subtree may be replaced by one that agrees with it on the bits above.\<close>

definition replaces :: "step \<Rightarrow> radix \<Rightarrow> radix \<Rightarrow> bool" where
  "replaces s t t' \<longleftrightarrow> step_bit s < rbit t' \<and>
     (\<forall>xs \<in> keys t'. step_bit s < length xs \<and>
        (\<exists>ys \<in> keys t. take (Suc (step_bit s)) xs = take (Suc (step_bit s)) ys))"

lemma plug_replace:
  assumes "radix_wf (plug t s)" "t \<noteq> Null" "radix_wf t'" "t' \<noteq> Null" "replaces s t t'"
  shows "radix_wf (plug t' s)"
proof -
  obtain d b p e other where s: "s = (d, b, p, e, other)"
    by (cases s) auto
  have ab: "above s t"
    using plug_wf [OF assms(1,2)] by blast
  have bit: "b < length xs \<and> xs ! b = d \<and> (\<exists>ys \<in> keys t. take b xs = take b ys)" if "xs \<in> keys t'" for xs
  proof -
    have "\<forall>xs \<in> keys t'. b < length xs \<and> (\<exists>ys \<in> keys t. take (Suc b) xs = take (Suc b) ys)"
      by (rule conjunct2 [OF assms(5) [unfolded replaces_def s step_bit_def fst_conv snd_conv]])
    from bspec [OF this that] obtain ys where ys: "ys \<in> keys t" "take (Suc b) xs = take (Suc b) ys" "b < length xs"
      by (elim conjE bexE) (rule that)
    then have "ys ! b = d" "b < length ys"
      using ab by (auto simp: above_def s step_bit_def step_dir_def)
    then have "xs ! b = d" "take b xs = take b ys"
      using ys(2,3) by (metis lessI nth_take, metis min.absorb1 le_Suc_eq order_refl take_take)
    then show ?thesis
      using ys by blast
  qed
  have key: "\<exists>zs \<in> keys (plug t s). take b xs = take b zs" if "xs \<in> keys (plug t' s)" for xs
  proof (cases "xs \<in> keys t'")
    case True
    then show ?thesis
      using bit [of xs] by (auto simp: image_Un)
  next
    case False
    then have "xs \<in> keys (plug t s)"
      using that by (simp add: image_Un)
    then show ?thesis
      by blast
  qed
  have agr: "\<forall>xs \<in> keys (plug t' s). \<forall>ys \<in> keys (plug t' s). take b xs = take b ys"
  proof (intro ballI)
    fix xs ys
    assume xy: "xs \<in> keys (plug t' s)" "ys \<in> keys (plug t' s)"
    have "rbit (plug t s) = b"
      by (simp add: s step_bit_def)
    then have agree: "take b zs = take b zs'" if "zs \<in> keys (plug t s)" "zs' \<in> keys (plug t s)" for zs zs'
      using wf_agree [OF assms(1) that] by simp
    from key [OF xy(1)] obtain zs where zs: "zs \<in> keys (plug t s)" "take b xs = take b zs"
      by (rule bexE) (rule that)
    from key [OF xy(2)] obtain zs' where zs': "zs' \<in> keys (plug t s)" "take b ys = take b zs'"
      by (rule bexE) (rule that)
    show "take b xs = take b ys"
      using agree [OF zs(1) zs'(1)] zs(2) zs'(2) by simp
  qed
  have lt: "b < rbit t'" and bit1: "\<forall>xs \<in> keys t'. b < length xs \<and> xs ! b = d"
  proof -
    show "b < rbit t'"
      using assms(5) by (simp add: replaces_def s step_bit_def)
    show "\<forall>xs \<in> keys t'. b < length xs \<and> xs ! b = d"
    proof
      fix xs
      assume "xs \<in> keys t'"
      from bit [OF this] show "b < length xs \<and> xs ! b = d"
        by (elim conjE) (rule conjI)
    qed
  qed
  have W: "b \<le> 128" "\<forall>q. p = Some q \<longrightarrow> valid_prefix q \<and> snd q = b" "p = None \<longrightarrow> other \<noteq> Null"
    "radix_wf other" "other \<noteq> Null \<longrightarrow> b < rbit other" "\<forall>xs \<in> keys other. b < length xs \<and> xs ! b \<noteq> d"
    by (cases d; use assms(1) in \<open>simp add: s plug_def\<close>)+
  show ?thesis
  proof (cases d)
    case True
    then have p: "plug t' s = Radix_Node b p e other t'"
      by (simp add: s plug_def)
    show ?thesis
      unfolding p radix_wf.simps
    proof (intro conjI)
      show "\<forall>xs \<in> keys (Radix_Node b p e other t'). \<forall>ys \<in> keys (Radix_Node b p e other t'). take b xs = take b ys"
        using agr unfolding p .
    qed (use W lt bit1 assms(3,4) True in auto)
  next
    case False
    then have p: "plug t' s = Radix_Node b p e t' other"
      by (simp add: s plug_def)
    show ?thesis
      unfolding p radix_wf.simps
    proof (intro conjI)
      show "\<forall>xs \<in> keys (Radix_Node b p e t' other). \<forall>ys \<in> keys (Radix_Node b p e t' other). take b xs = take b ys"
        using agr unfolding p .
    qed (use W lt bit1 assms(3,4) False in auto)
  qed
qed

lemma unfocus_replace:
  assumes "radix_wf (unfocus t ctx)" "t \<noteq> Null" "radix_wf t'" "t' \<noteq> Null" "\<forall>s \<in> set ctx. replaces s t t'"
  shows "radix_wf (unfocus t' ctx)"
  using assms
proof (induction ctx arbitrary: t t')
  case (Cons s ctx)
  have wf: "radix_wf (plug t s)" "\<forall>s' \<in> set ctx. above s' (plug t s)"
    using unfocus_wf [of "plug t s" ctx] Cons.prems(1) by simp_all
  have "radix_wf (plug t' s)"
    using plug_replace [OF wf(1) Cons.prems(2,3,4)] Cons.prems(5) by simp
  moreover have "replaces s' (plug t s) (plug t' s)" if "s' \<in> set ctx" for s'
  proof -
    have "above s' (plug t s)" "replaces s' t t'"
      using wf(2) that Cons.prems(5) by simp_all
    note ab = this(1) [unfolded above_def plug_facts image_Un] and rp = this(2) [unfolded replaces_def]
    have "step_bit s' < length xs \<and> (\<exists>ys \<in> keys t \<union> fst ` step_entries s.
        take (Suc (step_bit s')) xs = take (Suc (step_bit s')) ys)" if xs: "xs \<in> keys t' \<union> fst ` step_entries s" for xs
    proof (cases "xs \<in> keys t'")
      case True
      from bspec [OF conjunct2 [OF rp] True] show ?thesis
        by (meson UnI1)
    next
      case False
      then have "xs \<in> keys t \<union> fst ` step_entries s"
        using xs by simp
      then show ?thesis
        using ab by blast
    qed
    then show ?thesis
      using conjunct1 [OF ab] unfolding replaces_def plug_facts image_Un by simp
  qed
  ultimately show ?case
    using Cons.IH [of "plug t s" "plug t' s"] Cons.prems(1) by simp
qed simp

text \<open>The way down and the way back up.\<close>

definition follows :: "u8 list \<Rightarrow> step \<Rightarrow> bool" where
  "follows a s \<longleftrightarrow> (step_dir s \<longleftrightarrow> step_bit s < 128 \<and> addr_bit a (step_bit s))"

lemma put_down_focus:
  "radix_wf t \<Longrightarrow> t \<noteq> Null \<Longrightarrow> put_down 128 a n ctx t = (ctx', node) \<Longrightarrow>
   unfocus node ctx' = unfocus t ctx \<and> node \<noteq> Null \<and> rprefix node \<noteq> None \<and>
   (\<forall>s \<in> set ctx'. s \<in> set ctx \<or> follows a s) \<and>
   (rbit node < n \<longrightarrow> (if rbit node < 128 \<and> addr_bit a (rbit node) then rr node = Null else rl node = Null))"
proof (induction t arbitrary: ctx)
  case (Radix_Node b p e l r)
  show ?case
  proof (cases "b < n \<or> p = None")
    case False
    then show ?thesis
      using Radix_Node.prems(3) by auto
  next
    case True
    define right where "right \<longleftrightarrow> b < 128 \<and> addr_bit a b"
    show ?thesis
    proof (cases "if right then r = Null else l = Null")
      case stop: True
      then have "p \<noteq> None"
        using Radix_Node.prems(1) by (auto split: if_splits)
      then show ?thesis
        using True stop Radix_Node.prems(3) by (auto simp: right_def split: if_splits)
    next
      case False
      define s where "s = (right, b, p, e, if right then l else r)"
      have "follows a s"
        by (simp add: follows_def s_def step_dir_def step_bit_def right_def)
      moreover have "unfocus (if right then r else l) (s # ctx) = unfocus (Radix_Node b p e l r) ctx"
        by (simp add: s_def plug_def)
      moreover have "put_down 128 a n (s # ctx) (if right then r else l) = (ctx', node)"
        using True False Radix_Node.prems(3) by (auto simp: s_def right_def split: if_splits)
      ultimately show ?thesis
        using Radix_Node.IH(1) [of "s # ctx"] Radix_Node.IH(2) [of "s # ctx"] Radix_Node.prems(1) False
        by (auto split: if_splits)
    qed
  qed
qed simp

lemma put_up_focus:
  "put_up d ctx node = (ctx', node') \<Longrightarrow> node \<noteq> Null \<Longrightarrow>
   \<exists>up. ctx = up @ ctx' \<and> node' = unfocus node up \<and> (\<forall>s \<in> set up. d \<le> step_bit s) \<and>
     (ctx' \<noteq> [] \<longrightarrow> step_bit (hd ctx') < d)"
proof (induction ctx arbitrary: node)
  case (Cons s ctx)
  show ?case
  proof (cases "d \<le> step_bit s")
    case True
    then obtain up where "ctx = up @ ctx'" "node' = unfocus (plug node s) up" "\<forall>s \<in> set up. d \<le> step_bit s"
      "ctx' \<noteq> [] \<longrightarrow> step_bit (hd ctx') < d"
      using Cons.IH [of "plug node s"] Cons.prems by auto
    then show ?thesis
      using True by (intro exI [of _ "s # up"]) simp
  next
    case False
    then show ?thesis
      using Cons.prems by (intro exI [of _ "[]"]) auto
  qed
qed simp

text \<open>
  The node that is found or made, in the place of the highest node \<open>t\<close> whose bit is not above the
  first differing one, \<open>d\<close>; \<open>k\<close> is a key below it that the new key \<open>x\<close> was compared with.
\<close>

definition put_result :: "radix \<Rightarrow> bool list \<Rightarrow> u64 \<Rightarrow> nat \<Rightarrow> radix \<Rightarrow> bool" where
  "put_result t x e d t' \<longleftrightarrow> radix_wf t' \<and> t' \<noteq> Null \<and> d \<le> rbit t' \<and>
     entries t' = {(k, v) \<in> entries t. k \<noteq> x} \<union> {(x, e)}"

abbreviation leaf :: "prefix_t \<Rightarrow> u64 \<Rightarrow> radix" where
  "leaf q e \<equiv> Radix_Node (snd q) (Some q) e Null Null"

lemma leaf_wf: "valid_prefix q \<Longrightarrow> radix_wf (leaf q e)"
  by (simp add: valid_prefix_def)

lemma keys_subset_wf: "radix_wf t \<Longrightarrow> xs \<in> keys t \<Longrightarrow> ys \<in> keys t \<Longrightarrow> n \<le> rbit t \<Longrightarrow> take n xs = take n ys"
  using wf_agree [of t xs ys] by (metis min.absorb1 take_take)

lemma wf_branch:
  assumes "b \<le> 128" "\<forall>q. p = Some q \<longrightarrow> valid_prefix q \<and> snd q = b"
    "radix_wf t" "radix_wf u" "t \<noteq> Null" "p = None \<longrightarrow> u \<noteq> Null" "b < rbit t" "u \<noteq> Null \<longrightarrow> b < rbit u"
    "\<forall>xs \<in> keys t. b < length xs \<and> xs ! b = right" "\<forall>xs \<in> keys u. b < length xs \<and> xs ! b \<noteq> right"
    "\<forall>xs \<in> keys t \<union> keys u \<union> (case p of None \<Rightarrow> {} | Some q \<Rightarrow> {bits_of q}). take b xs = w"
  shows "radix_wf (if right then Radix_Node b p e u t else Radix_Node b p e t u)"
proof (cases right)
  case True
  have "take b xs = w" if "xs \<in> keys (Radix_Node b p e u t)" for xs
    using assms(11) that unfolding keys_node by blast
  then have agr: "\<forall>xs \<in> keys (Radix_Node b p e u t). \<forall>ys \<in> keys (Radix_Node b p e u t). take b xs = take b ys"
    by (intro ballI) (simp only:)
  have "radix_wf (Radix_Node b p e u t)"
    unfolding radix_wf.simps
  proof (intro conjI)
    show "\<forall>xs \<in> keys (Radix_Node b p e u t). \<forall>ys \<in> keys (Radix_Node b p e u t). take b xs = take b ys"
      by (rule agr)
  qed (use True assms(1-10) in auto)
  then show ?thesis
    unfolding if_P [OF True] .
next
  case False
  have "take b xs = w" if "xs \<in> keys (Radix_Node b p e t u)" for xs
    using assms(11) that unfolding keys_node by blast
  then have agr: "\<forall>xs \<in> keys (Radix_Node b p e t u). \<forall>ys \<in> keys (Radix_Node b p e t u). take b xs = take b ys"
    by (intro ballI) (simp only:)
  have "radix_wf (Radix_Node b p e t u)"
    unfolding radix_wf.simps
  proof (intro conjI)
    show "\<forall>xs \<in> keys (Radix_Node b p e t u). \<forall>ys \<in> keys (Radix_Node b p e t u). take b xs = take b ys"
      by (rule agr)
  qed (use False assms(1-10) in auto)
  then show ?thesis
    unfolding if_not_P [OF False] .
qed

lemma put_at_correct:
  assumes "radix_wf t" "t \<noteq> Null" "valid_prefix (a, n)" "bits_of (test, m) \<in> keys t"
    and x: "x = bits_of (a, n)"
    and d: "d \<le> n" "d \<le> rbit t" "take d x = take d (bits_of (test, m))"
    and differ: "d < n \<Longrightarrow> d < rbit t \<Longrightarrow> x ! d \<noteq> bits_of (test, m) ! d"
    and free: "d < n \<Longrightarrow> d = rbit t \<Longrightarrow> (if d < 128 \<and> addr_bit a d then rr t = Null else rl t = Null)"
  shows "\<exists>focus t'. put_at 128 (a, n) test d ctx t = Some focus \<and> set_expiration e focus = unfocus t' ctx \<and>
    put_result t x e d t'"
proof -
  obtain b p e0 l r where t: "t = Radix_Node b p e0 l r"
    using assms(2) by (cases t) auto
  let ?k = "bits_of (test, m)"
  have W: "b \<le> 128" "\<forall>q. p = Some q \<longrightarrow> valid_prefix q \<and> snd q = b" "p = None \<longrightarrow> l \<noteq> Null \<and> r \<noteq> Null"
    "radix_wf l" "radix_wf r" "l \<noteq> Null \<longrightarrow> b < rbit l" "r \<noteq> Null \<longrightarrow> b < rbit r"
    "\<forall>xs \<in> keys l. b < length xs \<and> \<not> xs ! b" "\<forall>xs \<in> keys r. b < length xs \<and> xs ! b"
    using assms(1) unfolding t radix_wf.simps by - (elim conjE, assumption)+
  have n: "n \<le> 128" "length x = n"
    using assms(3) by (simp_all add: valid_prefix_def x)
  have new: "radix_wf (leaf (a, n) e)"
    by (rule leaf_wf) (rule assms(3))
  have "rbit t = b"
    by (simp add: t)
  then have longer: "\<forall>xs \<in> keys t. b \<le> length xs"
    using wf_keys [OF assms(1,2)] by simp
  have kt: "keys t = (case p of None \<Rightarrow> {} | Some q \<Rightarrow> {bits_of q}) \<union> keys l \<union> keys r"
    unfolding t by (rule keys_node)
  have kl: "keys (leaf (a, n) e) = {x}"
    by (simp add: x)
  have lk: "b \<le> length ?k"
    by (rule bspec [OF longer assms(4)])
  have word: "take d xs = take d x" if "xs \<in> keys t" for xs
    using keys_subset_wf [OF assms(1) that assms(4) d(2)] d(3) by simp
  consider "d = n" "b = n" | "d < n" "b = d" | "d = n" "d < b" | "d < n" "d < b"
    using d(1,2) by (cases "d = n"; cases "b = d") (auto simp: t)
  then show ?thesis
  proof cases
    case 1
    define q where "q = (case p of None \<Rightarrow> (a, n) | Some q \<Rightarrow> q)"
    have q: "bits_of q = x" "valid_prefix q" "snd q = n"
    proof -
      have "bits_of q' = x" if "p = Some q'" for q'
      proof -
        have "bits_of q' \<in> keys t" "snd q' = n"
          using that W(2) 1 by (simp_all add: t)
        then show ?thesis
          using word [of "bits_of q'"] 1 n(2) by simp
      qed
      then show "bits_of q = x" "valid_prefix q" "snd q = n"
        using W(2) assms(3) 1 by (auto simp: q_def x split: option.split)
    qed
    have "put_at 128 (a, n) test d ctx t = Some (ctx, Radix_Node b (Some q) e0 l r)"
      using 1 by (auto simp: put_at_def t q_def split: option.split)
    moreover have "put_result t x e d (Radix_Node b (Some q) e l r)"
    proof -
      have sub: "keys (Radix_Node b (Some q) e l r) \<subseteq> insert x (keys t)"
        unfolding t keys_node using q(1) by auto
      have "take b xs = take b x" if "xs \<in> keys (Radix_Node b (Some q) e l r)" for xs
        using subsetD [OF sub that] word [of xs] 1 by blast
      then have agr: "\<forall>xs \<in> keys (Radix_Node b (Some q) e l r). \<forall>ys \<in> keys (Radix_Node b (Some q) e l r). take b xs = take b ys"
        by (intro ballI) (simp only:)
      have wf': "radix_wf (Radix_Node b (Some q) e l r)"
        unfolding radix_wf.simps
      proof (intro conjI)
        show "\<forall>xs \<in> keys (Radix_Node b (Some q) e l r). \<forall>ys \<in> keys (Radix_Node b (Some q) e l r). take b xs = take b ys"
          by (rule agr)
      qed (use W q 1 in auto)
      have nx: "x \<notin> keys l" "x \<notin> keys r"
        using W(8,9) n(2) 1 by blast+
      have ent: "entries (Radix_Node b (Some q) e l r) = {(k, v) \<in> entries t. k \<noteq> x} \<union> {(x, e)}"
      proof -
        have "p = Some q' \<Longrightarrow> bits_of q' = x" for q'
          using q(1) by (simp add: q_def)
        then have "{(k, v) \<in> entries t. k \<noteq> x} = {(k, v) \<in> entries l \<union> entries r. k \<noteq> x}"
          by (auto simp: t split: option.splits)
        also have "\<dots> = entries l \<union> entries r"
          using nx by force
        finally show ?thesis
          using q(1) by simp
      qed
      show ?thesis
        unfolding put_result_def by (intro conjI wf' ent) (use 1 in simp_all)
    qed
    ultimately show ?thesis
      by (intro exI [of _ "(ctx, Radix_Node b (Some q) e0 l r)"] exI [of _ "Radix_Node b (Some q) e l r"])
        (simp add: set_expiration_def)
  next
    case 2
    define right where "right \<longleftrightarrow> b < 128 \<and> addr_bit a b"
    define other where "other = (if right then l else r)"
    have right: "right \<longleftrightarrow> x ! b"
      using 2 n by (simp add: right_def x)
    define t' where "t' = (if right then Radix_Node b p e0 other (leaf (a, n) e) else Radix_Node b p e0 (leaf (a, n) e) other)"
    have null: "if right then r = Null else l = Null"
    proof -
      have "if d < 128 \<and> addr_bit a d then r = Null else l = Null"
        using free [OF 2(1)] 2(2) by (auto simp: t split: if_splits)
      then show ?thesis
        using 2(2) by (simp only: right_def)
    qed
    have pt: "put_at 128 (a, n) test d ctx t = Some ((right, b, p, e0, other) # ctx, leaf (a, n) 0)"
      using 2 by (simp add: put_at_def t right_def other_def)
    have ent: "entries t' = entries t \<union> {(x, e)}"
      using null by (auto simp: t'_def t x other_def)
    have wfo: "radix_wf other" "other \<noteq> Null \<longrightarrow> b < rbit other"
      "\<forall>xs \<in> keys other. b < length xs \<and> xs ! b \<noteq> right"
      using W right by (auto simp: other_def)
    have "radix_wf t'"
      unfolding t'_def
    proof (rule wf_branch [where w = "take b x"])
      have "p \<noteq> None"
        using W(3) null by (auto split: if_splits)
      then show "p = None \<longrightarrow> other \<noteq> Null"
        by blast
      show "\<forall>xs \<in> keys (leaf (a, n) e) \<union> keys other \<union> (case p of None \<Rightarrow> {} | Some q \<Rightarrow> {bits_of q}). take b xs = take b x"
      proof
        fix xs
        assume "xs \<in> keys (leaf (a, n) e) \<union> keys other \<union> (case p of None \<Rightarrow> {} | Some q \<Rightarrow> {bits_of q})"
        then have "xs = x \<or> xs \<in> keys t"
          unfolding kt kl other_def by (auto split: if_splits)
        then show "take b xs = take b x"
          using word 2(2) by blast
      qed
    qed (use W new wfo right n 2 in \<open>auto simp: x\<close>)
    moreover have "x \<notin> keys t"
    proof
      assume "x \<in> keys t"
      then have "x \<in> keys other \<or> (\<exists>q. p = Some q \<and> x = bits_of q)"
        using null unfolding kt other_def by (auto split: option.splits if_splits)
      then show False
        using wfo(3) right W(2) 2 n(2) by auto
    qed
    then have "{(k, v) \<in> entries t. k \<noteq> x} = entries t"
      by force
    ultimately have "put_result t x e d t'"
      using ent 2 by (auto simp: put_result_def t'_def)
    moreover have "set_expiration e ((right, b, p, e0, other) # ctx, leaf (a, n) 0) = unfocus t' ctx"
      by (simp add: set_expiration_def plug_def t'_def)
    ultimately show ?thesis
      using pt by blast
  next
    case 3
    define right where "right \<longleftrightarrow> ?k ! n"
    have nk: "n < length ?k"
      using 3 lk by simp
    have bit: "n < length xs \<and> xs ! n = right" if "xs \<in> keys t" for xs
    proof -
      have "take (Suc n) xs = take (Suc n) ?k"
        using 3 by (intro keys_subset_wf [OF assms(1) that assms(4)]) (simp add: t)
      then show ?thesis
        using longer that 3 nk unfolding right_def by (metis lessI nth_take order_less_le_trans)
    qed
    have n128: "n < 128"
      using 3 wf_keys [OF assms(1,2)] by (simp add: t)
    define t' where "t' = (if right then Radix_Node n (Some (a, n)) e Null t else Radix_Node n (Some (a, n)) e t Null)"
    have "radix_wf t'"
      unfolding t'_def
    proof (rule wf_branch [where w = x])
      show "\<forall>xs \<in> keys t \<union> keys Null \<union> (case Some (a, n) of None \<Rightarrow> {} | Some q \<Rightarrow> {bits_of q}). take n xs = x"
        using word 3(1) n(2) by (auto simp: x)
    qed (use assms(1-3) n bit 3 \<open>rbit t = b\<close> in simp_all)
    moreover have "x \<notin> keys t"
      using bit n(2) by auto
    then have "{(k, v) \<in> entries t. k \<noteq> x} = entries t"
      by force
    moreover have "entries t' = entries t \<union> {(x, e)}"
      by (auto simp: t'_def x)
    ultimately have "put_result t x e d t'"
      using 3 by (auto simp: put_result_def t'_def)
    moreover have "put_at 128 (a, n) test d ctx t =
        Some (ctx, if right then Radix_Node n (Some (a, n)) 0 Null t else Radix_Node n (Some (a, n)) 0 t Null)"
      using 3 nk n128 by (simp add: put_at_def t right_def)
    ultimately show ?thesis
      by (intro exI [of _ t'] exI, intro conjI) (assumption, auto simp: set_expiration_def t'_def)
  next
    case 4
    define right where "right \<longleftrightarrow> x ! d"
    have dk: "d < length ?k"
      using 4 lk by simp
    have bit: "d < length xs \<and> xs ! d \<noteq> right" if "xs \<in> keys t" for xs
    proof -
      have "take (Suc d) xs = take (Suc d) ?k"
        using 4 by (intro keys_subset_wf [OF assms(1) that assms(4)]) (simp add: t)
      moreover have "?k ! d \<noteq> x ! d"
        using differ 4 by (simp add: t)
      ultimately show ?thesis
        using longer that 4 dk unfolding right_def by (metis lessI nth_take order_less_le_trans)
    qed
    have dir: "right \<longleftrightarrow> d < 128 \<and> addr_bit a d"
      using 4 n by (simp add: right_def x)
    define t' where "t' = (if right then Radix_Node d None 0 t (leaf (a, n) e) else Radix_Node d None 0 (leaf (a, n) e) t)"
    have "radix_wf t'"
      unfolding t'_def
    proof (rule wf_branch [where w = "take d x"])
      show "\<forall>xs \<in> keys (leaf (a, n) e) \<union> keys t \<union> (case None of None \<Rightarrow> {} | Some q \<Rightarrow> {bits_of q}). take d xs = take d x"
        using word by (auto simp: x)
    qed (use assms(1,2) new n bit 4 \<open>rbit t = b\<close> kl right_def in simp_all)
    moreover have "x \<notin> keys t"
      using bit right_def by auto
    then have "{(k, v) \<in> entries t. k \<noteq> x} = entries t"
      by force
    moreover have "entries t' = entries t \<union> {(x, e)}"
      by (auto simp: t'_def x)
    ultimately have "put_result t x e d t'"
      using 4 by (auto simp: put_result_def t'_def)
    moreover have "put_at 128 (a, n) test d ctx t = Some ((right, d, None, 0, t) # ctx, leaf (a, n) 0)"
      using 4 dir by (simp add: put_at_def t)
    moreover have "set_expiration e ((right, d, None, 0, t) # ctx, leaf (a, n) 0) = unfocus t' ctx"
      by (simp add: set_expiration_def plug_def t'_def)
    ultimately show ?thesis
      by blast
  qed
qed

lemma rbit_unfocus: "up \<noteq> [] \<Longrightarrow> rbit (unfocus node up) = step_bit (last up)"
  by (cases up rule: rev_cases) (simp_all add: unfocus_append)

lemma unfocus_not_Null: "t \<noteq> Null \<Longrightarrow> unfocus t ctx \<noteq> Null"
  by (induction ctx arbitrary: t) simp_all

lemma steps_below:
  assumes "radix_wf (unfocus t ctx)" "ctx \<noteq> [] \<longrightarrow> step_bit (hd ctx) < d" "s \<in> set ctx"
  shows "step_bit s < d"
proof -
  obtain s0 rest where ctx: "ctx = s0 # rest"
    using assms(3) by (cases ctx) auto
  have "above s (plug t s0)" if "s \<in> set rest"
    using unfocus_wf [of "plug t s0" rest] assms(1) that by (simp add: ctx)
  then show ?thesis
    using assms(2,3) by (auto simp: ctx above_def)
qed

lemma wf_own:
  assumes "radix_wf t" "t \<noteq> Null" "rprefix t = Some q"
  shows "valid_prefix q \<and> snd q = rbit t \<and> bits_of q \<in> keys t"
proof -
  obtain b e l r where t: "t = Radix_Node b (Some q) e l r"
    using assms(2,3) by (cases t) auto
  have "\<forall>q'. Some q = Some q' \<longrightarrow> valid_prefix q' \<and> snd q' = b"
    using assms(1) unfolding t radix_wf.simps by (elim conjE)
  then show ?thesis
    by (simp add: t)
qed

lemma radix_set_correct:
  assumes "radix_wf tree" "valid_prefix q"
  shows "\<exists>t'. radix_set 128 tree q e = Some t' \<and> radix_wf t' \<and>
    entries t' = {(k, v) \<in> entries tree. k \<noteq> bits_of q} \<union> {(bits_of q, e)}"
proof (cases "tree = Null")
  case True
  then show ?thesis
    using leaf_wf [OF assms(2), of e]
    by (simp add: radix_set_def radix_put_if_absent_def set_expiration_def)
next
  case False
  obtain a n where q: "q = (a, n)"
    by fastforce
  define x where "x = bits_of (a, n)"
  have n: "length a = 16" "n \<le> 128" "length x = n"
    using assms(2) by (simp_all add: q valid_prefix_def x_def)
  obtain ctx node where down: "put_down 128 a n [] tree = (ctx, node)"
    by fastforce
  note F = put_down_focus [OF assms(1) False down]
  then have tree: "unfocus node ctx = tree" and node: "node \<noteq> Null"
    by simp_all
  obtain test m where test: "rprefix node = Some (test, m)"
    using F by auto
  define k where "k = bits_of (test, m)"
  have wfn: "radix_wf node" "\<forall>s \<in> set ctx. above s node"
    using unfocus_wf [of node ctx] assms(1) tree node by simp_all
  have m: "length test = 16" "m = rbit node" "m \<le> 128" "k \<in> keys node"
    using wf_own [OF wfn(1) node test] unfolding valid_prefix_def k_def fst_conv snd_conv
    by - (elim conjE, assumption)+
  define check where "check = (if rbit node < n then rbit node else n)"
  define d where "d = min (differ_loop a test check 0 0) check"
  have check: "check \<le> n" "check \<le> m" "check \<le> 128"
    using n(2) m(2) by (auto simp: check_def)
  have first: "\<forall>i < d. addr_bit a i = addr_bit test i" "d < check \<longrightarrow> addr_bit a d \<noteq> addr_bit test d"
    using differ_loop_first [OF n(1) m(1) check(3), of 0 0] by (simp_all add: d_def Let_def)
  have dle: "d \<le> check"
    by (simp add: d_def)
  have same: "x ! i = k ! i \<longleftrightarrow> addr_bit a i = addr_bit test i" if "i < check" for i
    using that check by (simp add: x_def k_def)
  have word: "take d x = take d k"
    using first(1) same dle check n(3) by (intro nth_equalityI) (auto simp: k_def)
  obtain ctx' t where up: "put_up d ctx node = (ctx', t)"
    by fastforce
  from put_up_focus [OF this node] obtain ups where ups: "ctx = ups @ ctx'" "t = unfocus node ups"
    "\<forall>s \<in> set ups. d \<le> step_bit s" "ctx' \<noteq> [] \<longrightarrow> step_bit (hd ctx') < d"
    by blast
  have tree': "unfocus t ctx' = tree"
    using tree by (simp add: ups(1,2) unfocus_append)
  have t: "t \<noteq> Null" "radix_wf t" "\<forall>s \<in> set ctx'. above s t"
    using unfocus_wf [of t ctx'] assms(1) tree' unfocus_not_Null [OF node] by (simp_all add: ups(2))
  have kt: "k \<in> keys t"
    using m(4) by (auto simp: ups(2) entries_unfocus)
  have top: "ups = [] \<and> t = node \<or>
      ups \<noteq> [] \<and> last ups \<in> set ctx \<and> rbit t = step_bit (last ups) \<and> above (last ups) node"
    using wfn(2) rbit_unfocus [of ups node] ups(1,2) by (cases "ups = []") auto
  have low: "rbit t \<le> rbit node" "d \<le> rbit t"
    using top ups(3) dle check(2) m(2) by (auto simp: above_def)
  have "\<exists>focus t'. put_at 128 (a, n) test d ctx' t = Some focus \<and> set_expiration e focus = unfocus t' ctx' \<and>
      put_result t x e d t'"
  proof (rule put_at_correct [OF t(2,1) _ kt [unfolded k_def] x_def _ low(2) word [unfolded k_def]])
    show "x ! d \<noteq> bits_of (test, m) ! d" if "d < n" "d < rbit t"
    proof -
      have "d < check"
        using that low(1) by (simp add: check_def)
      then show ?thesis
        using first(2) same k_def by simp
    qed
    show "if d < 128 \<and> addr_bit a d then rr t = Null else rl t = Null" if dn: "d < n" and dt: "d = rbit t"
    proof (cases "ups = []")
      case True
      then show ?thesis
        using F top dn dt by auto
    next
      case False
      then have s: "last ups \<in> set ctx" "d = step_bit (last ups)" "above (last ups) node"
        using top dt by auto
      then have "d < check" "k ! d = step_dir (last ups)"
        using dn m(4) unfolding above_def by (auto simp: check_def)
      moreover have "step_dir (last ups) = addr_bit a d"
        using F s(1,2) dn n(2) by (auto simp: follows_def)
      ultimately show ?thesis
        using first(2) check by (simp add: k_def)
    qed
  qed (use assms(2) q dle check in auto)
  then obtain focus t' where put: "put_at 128 (a, n) test d ctx' t = Some focus"
    "set_expiration e focus = unfocus t' ctx'" "put_result t x e d t'"
    by blast
  have run: "radix_set 128 tree q e = Some (unfocus t' ctx')"
  proof -
    have "radix_put_if_absent 128 tree q = Some focus"
      using False down test up put(1)
      by (cases tree) (auto simp: radix_put_if_absent_def q Let_def d_def check_def)
    then show ?thesis
      using put(2) by (simp add: radix_set_def)
  qed
  have below: "step_bit s < d" if "s \<in> set ctx'" for s
    using steps_below [of t ctx' d s] assms(1) tree' ups(4) that by simp
  have keys': "xs = x \<or> xs \<in> keys t" if "xs \<in> keys t'" for xs
    using put(3) that by (auto simp: put_result_def)
  have agree: "step_bit s < length x \<and> take (Suc (step_bit s)) x = take (Suc (step_bit s)) k" if "s \<in> set ctx'" for s
  proof -
    have "Suc (step_bit s) \<le> d"
      using below [OF that] by simp
    then show ?thesis
      using word dle check(1) n(3) by (metis Suc_le_lessD min.absorb1 order_less_le_trans take_take)
  qed
  have "replaces s t t'" if "s \<in> set ctx'" for s
    unfolding replaces_def
  proof
    show "step_bit s < rbit t'"
      using below [OF that] put(3) by (simp add: put_result_def)
    show "\<forall>xs \<in> keys t'. step_bit s < length xs \<and> (\<exists>ys \<in> keys t. take (Suc (step_bit s)) xs = take (Suc (step_bit s)) ys)"
    proof
      fix xs
      assume "xs \<in> keys t'"
      then consider "xs = x" | "xs \<in> keys t"
        using keys' by blast
      then show "step_bit s < length xs \<and> (\<exists>ys \<in> keys t. take (Suc (step_bit s)) xs = take (Suc (step_bit s)) ys)"
      proof cases
        case 1
        then show ?thesis
          using agree [OF that] kt by blast
      next
        case 2
        then have "step_bit s < length xs"
          using t(3) that unfolding above_def by blast
        then show ?thesis
          using 2 by blast
      qed
    qed
  qed
  then have wf: "radix_wf (unfocus t' ctx')"
    using unfocus_replace [of t ctx' t'] assms(1) tree' t(1) put(3) by (simp add: put_result_def)
  have fresh: "k' \<noteq> x" if "s \<in> set ctx'" "(k', v) \<in> step_entries s" for s k' v
  proof -
    have ab: "above s t"
      using t(3) that(1) by (rule bspec)
    have "k' \<in> fst ` step_entries s"
      using imageI [OF that(2), of fst] by simp
    from bspec [OF conjunct2 [OF conjunct2 [OF ab [unfolded above_def]]] this]
    consider "length k' = step_bit s" | "step_bit s < length k'" "k' ! step_bit s \<noteq> step_dir s"
      by (elim disjE conjE)
    moreover have "k ! step_bit s = step_dir s"
      using bspec [OF conjunct1 [OF conjunct2 [OF ab [unfolded above_def]]] kt] by (rule conjunct2)
    then have "x ! step_bit s = step_dir s"
      using arg_cong [OF conjunct2 [OF agree [OF that(1)]], of "\<lambda>xs. xs ! step_bit s"] by simp
    ultimately show ?thesis
      using conjunct1 [OF agree [OF that(1)]] by cases auto
  qed
  define C where "C = \<Union> (step_entries ` set ctx')"
  have "(x, v) \<notin> C" for v
    using fresh [of _ x v] by (auto simp: C_def)
  then have "entries (unfocus t' ctx') = {(k, v) \<in> entries tree. k \<noteq> x} \<union> {(x, e)}"
    using put(3) unfolding tree' [symmetric] entries_unfocus C_def [symmetric] put_result_def by auto
  then show ?thesis
    using run wf by (auto simp: x_def q)
qed

end
