(* ===== verification/Processors.thy ===== *)
theory Processors
  imports Objects Radix
begin

text \<open>
  The operators of the conditions (\<open>src/rule_processor/\<close>): exact match, address match, phrase
  match, regular expressions, SQL injection and XSS. The matching libraries (libinjection, the
  Aho-Corasick automaton, RE2), \<open>inet_pton\<close> and the system clock are parameters.
\<close>

section \<open>Events of a condition and libraries\<close>

record event_match =
  resolved :: string
  matched :: string
  operator_name :: string
  operator_value :: string
  match_source :: string
  match_key_path :: "string list"

text \<open>
  What the libraries answer: the fingerprint of an injection; whether an automaton can be made of
  the phrases with their lengths, and the positions it reports; whether a regular expression is
  well formed, the part that is at fault if not, and the leftmost match; the seconds of the system clock.
\<close>

record libs =
  libinjection_sqli :: "string \<Rightarrow> string option"
  libinjection_xss :: "string \<Rightarrow> bool"
  ac_create_ok :: "string list \<Rightarrow> u32 list \<Rightarrow> bool"
  ac_match :: "string list \<Rightarrow> u32 list \<Rightarrow> string \<Rightarrow> int \<times> int"
  re2_ok :: "string \<Rightarrow> bool \<Rightarrow> bool"
  re2_error_arg :: "string \<Rightarrow> bool \<Rightarrow> string"
  re2_match :: "string \<Rightarrow> bool \<Rightarrow> string \<Rightarrow> string option"
  lib_inet :: inet
  system_now :: u64

datatype processor =
    Exact_Match "(string \<times> u64) list"
  | Ip_Match "radix option"
  | Is_Sqli
  | Is_Xss
  | Phrase_Match "string list" "u32 list"
  | Regex_Match string nat bool

fun processor_name :: "processor \<Rightarrow> string" where
  "processor_name (Exact_Match _) = ''exact_match''"
| "processor_name (Ip_Match _) = ''ip_match''"
| "processor_name Is_Sqli = ''is_sqli''"
| "processor_name Is_Xss = ''is_xss''"
| "processor_name (Phrase_Match _ _) = ''phrase_match''"
| "processor_name (Regex_Match _ _ _) = ''match_regex''"

fun processor_to_string :: "processor \<Rightarrow> string" where
  "processor_to_string (Regex_Match pattern _ _) = pattern"
| "processor_to_string _ = []"

definition make_event :: "processor \<Rightarrow> string \<Rightarrow> string \<Rightarrow> event_match" where
  "make_event p res mat =
     \<lparr>resolved = res, matched = mat, operator_name = processor_name p, operator_value = processor_to_string p,
      match_source = [], match_key_path = []\<rparr>"

section \<open>The constructors\<close>

datatype processor_error = Invalid_Argument | Runtime_Error | Parsing_Error string

text \<open>\<open>emplace\<close> keeps the value of a key that is there.\<close>

definition emplace :: "'k \<Rightarrow> 'v \<Rightarrow> ('k \<times> 'v) list \<Rightarrow> ('k \<times> 'v) list" where
  "emplace k v m = (if map_of m k = None then m @ [(k, v)] else m)"

definition exact_match_of_strings :: "string list \<Rightarrow> processor" where
  "exact_match_of_strings data = Exact_Match (fold (\<lambda>str. emplace str 0) data [])"

definition exact_match_of_data :: "(string \<times> u64) list \<Rightarrow> processor" where
  "exact_match_of_data data = Exact_Match (fold (\<lambda>(str, expiration). emplace str expiration) data [])"

primrec ip_match_loop :: "inet \<Rightarrow> radix \<Rightarrow> (string \<times> u64) list \<Rightarrow> radix option" where
  "ip_match_loop net tree [] = Some tree"
| "ip_match_loop net tree (entry # ip_list) =
     (let (str, expiration) = entry; (ok, ip) = parse_cidr net str zero_ipaddr in
      if ok then do { tree' \<leftarrow> radix_set 128 tree (ip_data ip, unat (ip_mask ip)) expiration;
                      ip_match_loop net tree' ip_list }
      else ip_match_loop net tree ip_list)"

definition ip_match_of_data :: "inet \<Rightarrow> (string \<times> u64) list \<Rightarrow> processor option" where
  "ip_match_of_data net ip_list = map_option (\<lambda>t. Ip_Match (Some t)) (ip_match_loop net Null ip_list)"

definition ip_match_of_strings :: "inet \<Rightarrow> string list \<Rightarrow> processor option" where
  "ip_match_of_strings net ip_list = ip_match_of_data net (map (\<lambda>str. (str, 0)) ip_list)"

definition new_phrase_match :: "libs \<Rightarrow> string list \<Rightarrow> u32 list \<Rightarrow> processor_error + processor" where
  "new_phrase_match env pattern lengths =
     (if length pattern \<noteq> length lengths then Inl Invalid_Argument
      else if \<not> ac_create_ok env pattern lengths then Inl Runtime_Error
      else Inr (Phrase_Match pattern lengths))"

definition new_regex_match :: "libs \<Rightarrow> string \<Rightarrow> nat \<Rightarrow> bool \<Rightarrow> processor_error + processor" where
  "new_regex_match env regex_str min_length case_sensitive =
     (if re2_ok env regex_str case_sensitive then Inr (Regex_Match regex_str min_length case_sensitive)
      else Inl (Parsing_Error (''invalid regular expression: '' @ re2_error_arg env regex_str case_sensitive)))"

section \<open>Matching\<close>

text \<open>A string view: no string when its pointer is null.\<close>

type_synonym view = "string option"

definition expired_at :: "libs \<Rightarrow> u64 \<Rightarrow> bool" where
  "expired_at env expiration \<longleftrightarrow> expiration > 0 \<and> expiration < system_now env"

definition match_exact :: "libs \<Rightarrow> processor \<Rightarrow> (string \<times> u64) list \<Rightarrow> string \<Rightarrow> event_match option" where
  "match_exact env p vals str =
     (if vals = [] \<or> str = [] then None
      else (case map_of vals str of
              None \<Rightarrow> None
            | Some expiration \<Rightarrow> if expired_at env expiration then None else Some (make_event p str str)))"

definition match_ip :: "libs \<Rightarrow> processor \<Rightarrow> radix option \<Rightarrow> string \<Rightarrow> event_match option" where
  "match_ip env p rtree str =
     (case rtree of
        None \<Rightarrow> None
      | Some tree \<Rightarrow>
          if str = [] then None
          else (let (ok, ip0) = parse_ip (lib_inet env) str zero_ipaddr; ip = ipv4_to_ipv6 ip0 in
                if \<not> ok then None
                else (case radix_matching_do tree (ip_data ip, 128) of
                        None \<Rightarrow> None
                      | Some node \<Rightarrow>
                          if expired_at env (rexpiration node) then None else Some (make_event p str str))))"

definition match_phrase ::
    "libs \<Rightarrow> processor \<Rightarrow> string list \<Rightarrow> u32 list \<Rightarrow> string \<Rightarrow> event_match option" where
  "match_phrase env p phrases lengths pattern =
     (if pattern = [] then None
      else (let (b, e) = ac_match env phrases lengths (take (length pattern mod 2 ^ 32) pattern) in
        if \<not> (b \<ge> 0 \<and> e \<ge> 0 \<and> b < e) then None
        else Some (make_event p pattern
          (if length pattern > nat e then take (nat (e - b + 1)) (drop (nat b) pattern) else []))))"

definition match_regex :: "libs \<Rightarrow> processor \<Rightarrow> string \<Rightarrow> nat \<Rightarrow> bool \<Rightarrow> string \<Rightarrow> event_match option" where
  "match_regex env p regex min_length case_sensitive pattern =
     (if \<not> re2_ok env regex case_sensitive \<or> length pattern < min_length then None
      else (case re2_match env regex case_sensitive pattern of
              None \<Rightarrow> None
            | Some m \<Rightarrow> Some (make_event p pattern m)))"

definition match_sqli :: "libs \<Rightarrow> string \<Rightarrow> event_match option" where
  "match_sqli env pattern =
     (if pattern = [] then None
      else (case libinjection_sqli env pattern of
              None \<Rightarrow> None
            | Some fingerprint \<Rightarrow> Some (make_event Is_Sqli pattern fingerprint)))"

definition match_xss :: "libs \<Rightarrow> string \<Rightarrow> event_match option" where
  "match_xss env pattern =
     (if pattern = [] then None
      else if \<not> libinjection_xss env pattern then None else Some (make_event Is_Xss pattern []))"

fun processor_match :: "libs \<Rightarrow> processor \<Rightarrow> view \<Rightarrow> event_match option" where
  "processor_match env p None = None"
| "processor_match env (Exact_Match vals) (Some str) = match_exact env (Exact_Match vals) vals str"
| "processor_match env (Ip_Match rtree) (Some str) = match_ip env (Ip_Match rtree) rtree str"
| "processor_match env Is_Sqli (Some str) = match_sqli env str"
| "processor_match env Is_Xss (Some str) = match_xss env str"
| "processor_match env (Phrase_Match ps ls) (Some str) = match_phrase env (Phrase_Match ps ls) ps ls str"
| "processor_match env (Regex_Match r n c) (Some str) = match_regex env (Regex_Match r n c) r n c str"

text \<open>
  \<open>base::match_object\<close> takes \<open>stringValue\<close> and \<open>nbEntries\<close> whatever the type of the object is: for
  a number the pointer is the number itself, and the length 0.
\<close>

definition processor_match_object :: "libs \<Rightarrow> processor \<Rightarrow> ddwaf_object \<Rightarrow> event_match option option" where
  "processor_match_object env p ob =
     (case payload ob of
        Invalid \<Rightarrow> Some None
      | Str None _ \<Rightarrow> Some None
      | Str (Some a) n \<Rightarrow> if n \<le> length a then Some (processor_match env p (Some (take n a))) else None
      | Signed v \<Rightarrow> Some (if v = 0 then None else processor_match env p (Some []))
      | Unsigned v \<Rightarrow> Some (if v = 0 then None else processor_match env p (Some []))
      | Bool b \<Rightarrow> Some (if b then processor_match env p (Some []) else None)
      | _ \<Rightarrow> None)"

section \<open>Address matching\<close>

text \<open>What the manual of \<open>inet_pton\<close> says: an address has four or sixteen bytes.\<close>

definition inet_ok :: "inet \<Rightarrow> bool" where
  "inet_ok lib \<longleftrightarrow> (\<forall>s b. pton4 lib s = Some b \<longrightarrow> length b = 4) \<and> (\<forall>s b. pton6 lib s = Some b \<longrightarrow> length b = 16)"

lemma parse_ip_data:
  assumes "inet_ok lib" "length (ip_data out) = 16" "parse_ip lib s out = (True, ip)"
  shows "length (ip_data ip) = 16 \<and> (ip_type ip = Ipv4 \<and> ip_mask ip = 32 \<or> ip_type ip = Ipv6 \<and> ip_mask ip = 128)"
  using assms by (auto simp: parse_ip_def inet_ok_def overwrite_def Let_def split: if_splits option.splits)

lemma ipv4_to_ipv6_data: "length (ip_data ip) = 16 \<Longrightarrow> length (ip_data (ipv4_to_ipv6 ip)) = 16"
  by (simp add: ipv4_to_ipv6_def Let_def)

lemma zero_ipaddr_data [simp]: "length (ip_data zero_ipaddr) = 16"
  by (simp add: zero_ipaddr_def)

lemma ipv4_mask:
  "(ip_type ip = Ipv4 \<and> ip_mask ip \<le> 32 \<or> ip_type ip = Ipv6 \<and> ip_mask ip \<le> 128) \<Longrightarrow>
   unat (ip_mask (ipv4_to_ipv6 ip)) \<le> 128"
proof -
  assume ip: "ip_type ip = Ipv4 \<and> ip_mask ip \<le> 32 \<or> ip_type ip = Ipv6 \<and> ip_mask ip \<le> 128"
  show ?thesis
  proof (cases "ip_type ip = Ipv4")
    case True
    then have "unat (ip_mask ip) \<le> 32"
      using ip by (auto simp: word_le_nat_alt)
    then have "unat (ip_mask ip + 96) = unat (ip_mask ip) + 96"
      by (subst unat_plus_if') auto
    then show ?thesis
      using True \<open>unat (ip_mask ip) \<le> 32\<close> by (simp add: ipv4_to_ipv6_def Let_def)
  next
    case False
    then show ?thesis
      using ip by (simp add: ipv4_to_ipv6_def word_le_nat_alt)
  qed
qed

lemma parse_cidr_valid:
  assumes "inet_ok lib" "parse_cidr lib s zero_ipaddr = (True, ip)"
  shows "valid_prefix (ip_data ip, unat (ip_mask ip))"
proof -
  have ok: "length (ip_data (apply_mask (ipv4_to_ipv6 ip'))) = 16 \<and>
      unat (ip_mask (apply_mask (ipv4_to_ipv6 ip'))) \<le> 128"
    if "length (ip_data ip') = 16" "ip_type ip' = Ipv4 \<and> ip_mask ip' \<le> 32 \<or> ip_type ip' = Ipv6 \<and> ip_mask ip' \<le> 128" for ip'
    using apply_mask_bits(2,3) [OF ipv4_to_ipv6_data [OF that(1)], of 0] ipv4_mask [OF that(2)] by simp
  have small: "of_int m \<le> (of_int k :: u8)" if "0 \<le> m" "m \<le> k" "k \<le> 128" for m k
    using that by (simp add: word_le_def unsigned_of_int take_bit_int_eq_self)
  show ?thesis
  proof (cases "find_slash s")
    case None
    obtain b ip' where "parse_ip lib s zero_ipaddr = (b, ip')"
      by fastforce
    then show ?thesis
      using assms(2) None parse_ip_data [OF assms(1), of zero_ipaddr s ip'] ok [of ip']
      by (auto simp: parse_cidr_def valid_prefix_def split: if_splits)
  next
    case (Some i)
    obtain b ip' where p: "parse_ip lib (take i s) zero_ipaddr = (b, ip')"
      by fastforce
    let ?suffix = "take (length s - i - 1) (drop (i + 1) s)"
    obtain m where st: "stoi ?suffix = Some m"
      using assms(2) Some p by (cases "stoi ?suffix") (auto simp: parse_cidr_def Let_def split: if_splits)
    then have m: "b" "0 \<le> m" "ip_type ip' = Ipv4 \<Longrightarrow> m \<le> 32" "ip_type ip' = Ipv6 \<Longrightarrow> m \<le> 128"
      "ip = apply_mask (ipv4_to_ipv6 (ip'\<lparr>ip_mask := of_int m\<rparr>))"
      using assms(2) Some p by (auto simp: parse_cidr_def Let_def split: if_splits)
    then show ?thesis
      using parse_ip_data [OF assms(1), of zero_ipaddr "take i s" ip'] p
        ok [of "ip'\<lparr>ip_mask := of_int m\<rparr>"] small [of m 32] small [of m 128]
      by (auto simp: valid_prefix_def)
  qed
qed

text \<open>The networks of a list with their expirations, and the bits of an address.\<close>

definition networks :: "inet \<Rightarrow> (string \<times> u64) list \<Rightarrow> (bool list \<times> u64) list" where
  "networks lib ips = concat (map (\<lambda>(s, e). case parse_cidr lib s zero_ipaddr of (ok, ip) \<Rightarrow>
     if ok then [(bits_of (ip_data ip, unat (ip_mask ip)), e)] else []) ips)"

definition address_bits :: "inet \<Rightarrow> string \<Rightarrow> bool list option" where
  "address_bits lib s = (case parse_ip lib s zero_ipaddr of (ok, ip) \<Rightarrow>
     if ok then Some (bits_of (ip_data (ipv4_to_ipv6 ip), 128)) else None)"

lemma ip_match_loop_entries:
  assumes "inet_ok lib"
  shows "radix_wf tree \<Longrightarrow> entries tree = {(k, v). m k = Some v} \<Longrightarrow>
    \<exists>t. ip_match_loop lib tree ips = Some t \<and> radix_wf t \<and>
      entries t = {(k, v). (m ++ map_of (rev (networks lib ips))) k = Some v}"
proof (induction ips arbitrary: tree m)
  case (Cons entry ips)
  obtain s e where entry: "entry = (s, e)"
    by fastforce
  obtain ok ip where p: "parse_cidr lib s zero_ipaddr = (ok, ip)"
    by fastforce
  let ?q = "(ip_data ip, unat (ip_mask ip))"
  show ?case
  proof (cases ok)
    case True
    then have "valid_prefix ?q"
      using parse_cidr_valid [OF assms] p by simp
    from radix_set_correct [OF Cons.prems(1) this, of e] obtain t' where t':
      "radix_set 128 tree ?q e = Some t'" "radix_wf t'"
      "entries t' = {(k, v) \<in> entries tree. k \<noteq> bits_of ?q} \<union> {(bits_of ?q, e)}"
      by blast
    have "entries t' = {(k, v). (m(bits_of ?q \<mapsto> e)) k = Some v}"
      unfolding t'(3) Cons.prems(2) by (auto split: if_splits)
    from Cons.IH [OF t'(2) this] obtain t where t: "ip_match_loop lib t' ips = Some t" "radix_wf t"
      "entries t = {(k, v). (m(bits_of ?q \<mapsto> e) ++ map_of (rev (networks lib ips))) k = Some v}"
      by (elim exE conjE) (rule that)
    moreover have "m ++ map_of (rev (networks lib (entry # ips))) =
        m(bits_of ?q \<mapsto> e) ++ map_of (rev (networks lib ips))"
      using p True by (simp add: entry networks_def)
    moreover have "ip_match_loop lib tree (entry # ips) = ip_match_loop lib t' ips"
      using t'(1) p True by (simp add: entry)
    ultimately show ?thesis
      by (intro exI [of _ t]) (simp only: simp_thms)
  next
    case False
    then show ?thesis
      using Cons.IH [OF Cons.prems] p by (simp add: entry networks_def)
  qed
qed (simp add: networks_def)

text \<open>
  The most specific network that contains an address decides: the longest prefix of its bits, with
  the expiration given last for it.
\<close>

definition most_specific :: "(bool list \<times> u64) list \<Rightarrow> bool list \<Rightarrow> bool list \<Rightarrow> u64 \<Rightarrow> bool" where
  "most_specific nets a k e \<longleftrightarrow> map_of (rev nets) k = Some e \<and> take (length k) a = k \<and>
     (\<forall>k' \<in> fst ` set nets. take (length k') a = k' \<longrightarrow> length k' \<le> length k)"

text \<open>C5: An address list never fails to be built, and it matches a string exactly when the string
  is an address and the most specific network of the list that contains it has not expired; an
  IPv4 address counts as the IPv6 address it is mapped to. The event reports the string.\<close>

theorem ip_match_most_specific:
  assumes "inet_ok (lib_inet env)" "str \<noteq> []"
  shows "\<exists>p. ip_match_of_data (lib_inet env) ips = Some p \<and>
    processor_match env p (Some str) =
      (if \<exists>a k e. address_bits (lib_inet env) str = Some a \<and> most_specific (networks (lib_inet env) ips) a k e \<and>
            \<not> expired_at env e
       then Some (make_event p str str) else None)"
proof -
  let ?nets = "networks (lib_inet env) ips"
  obtain t where t: "ip_match_loop (lib_inet env) Null ips = Some t" "radix_wf t"
    "entries t = {(k, v). map_of (rev ?nets) k = Some v}"
    using ip_match_loop_entries [OF assms(1), of Null Map.empty ips] by auto
  let ?p = "Ip_Match (Some t)"
  have keys: "keys t = fst ` set ?nets"
  proof -
    have "keys t = dom (map_of (rev ?nets))"
      unfolding t(3) by (force simp: dom_def image_iff)
    then show ?thesis
      by (simp add: dom_map_of_conv_image_fst)
  qed
  obtain ok ip where ip: "parse_ip (lib_inet env) str zero_ipaddr = (ok, ip)"
    by fastforce
  have "processor_match env ?p (Some str) =
      (if \<exists>a k e. address_bits (lib_inet env) str = Some a \<and> most_specific ?nets a k e \<and> \<not> expired_at env e
       then Some (make_event ?p str str) else None)"
  proof (cases ok)
    case False
    then show ?thesis
      using ip assms(2) by (simp add: match_ip_def address_bits_def Let_def)
  next
    case True
    let ?a = "ip_data (ipv4_to_ipv6 ip)"
    have "length ?a = 16"
      using parse_ip_data [OF assms(1), of zero_ipaddr str ip] ip True ipv4_to_ipv6_data by simp
    note best = matching_longest [OF this t(2)]
    have ab: "address_bits (lib_inet env) str = Some (bits_of (?a, 128))"
      using ip True by (simp add: address_bits_def)
    show ?thesis
    proof (cases "radix_matching_do t (?a, 128)")
      case None
      then have "\<not> most_specific ?nets (bits_of (?a, 128)) k e" for k e
        using best unfolding longest_def most_specific_def keys
        by (auto dest!: map_of_SomeD) force
      then show ?thesis
        using ip True None assms(2) ab by (simp add: match_ip_def Let_def)
    next
      case (Some n)
      obtain k where k: "(k, rexpiration n) \<in> entries t" "take (length k) (bits_of (?a, 128)) = k"
        "\<forall>k' \<in> fst ` set ?nets. take (length k') (bits_of (?a, 128)) = k' \<longrightarrow> length k' \<le> length k"
        using best Some unfolding longest_def keys by auto
      have "most_specific ?nets (bits_of (?a, 128)) k' e \<longleftrightarrow> k' = k \<and> e = rexpiration n" for k' e
      proof
        assume ms: "most_specific ?nets (bits_of (?a, 128)) k' e"
        then have "k' \<in> fst ` set ?nets" "k \<in> fst ` set ?nets"
          using k(1) unfolding most_specific_def keys [symmetric] t(3) by force+
        then have "length k' = length k"
          using ms k(2,3) unfolding most_specific_def by (meson le_antisym)
        then have "k' = k"
          using ms k(2) unfolding most_specific_def by metis
        then show "k' = k \<and> e = rexpiration n"
          using ms k(1) unfolding most_specific_def t(3) by simp
      qed (use k t(3) in \<open>auto simp: most_specific_def\<close>)
      then show ?thesis
        using ip True Some assms(2) ab by (simp add: match_ip_def Let_def)
    qed
  qed
  then show ?thesis
    using t(1) by (simp add: ip_match_of_data_def)
qed

text \<open>Libraries that find nothing, and know one address.\<close>

definition no_libs :: libs where
  "no_libs = \<lparr>libinjection_sqli = (\<lambda>_. None), libinjection_xss = (\<lambda>_. False), ac_create_ok = (\<lambda>_ _. True),
     ac_match = (\<lambda>_ _ _. (-1, -1)), re2_ok = (\<lambda>_ _. True), re2_error_arg = (\<lambda>_ _. []), re2_match = (\<lambda>_ _ _. None),
     lib_inet = \<lparr>pton4 = (\<lambda>s. if s = ''1.2.3.4'' then Some [1, 2, 3, 4] else if s = ''1.2.3.0'' then Some [1, 2, 3, 0] else None),
              pton6 = (\<lambda>_. None)\<rparr>,
     system_now = 1000\<rparr>"

theorem ip_match_most_specific_witness:
  "\<exists>p. ip_match_of_data (lib_inet no_libs) [(''1.2.3.0/24'', 0)] = Some p \<and>
     processor_match no_libs p (Some ''1.2.3.4'') =
       (if \<exists>a k e. address_bits (lib_inet no_libs) ''1.2.3.4'' = Some a \<and>
             most_specific (networks (lib_inet no_libs) [(''1.2.3.0/24'', 0)]) a k e \<and> \<not> expired_at no_libs e
        then Some (make_event p ''1.2.3.4'' ''1.2.3.4'') else None)"
  by (rule ip_match_most_specific) (simp_all add: inet_ok_def no_libs_def)

text \<open>
  A network that has expired hides a wider one that has not (\<open>ip_match.cpp:75-87\<close>): only the most
  specific one is looked at.
\<close>

lemma expired_network_hides_wider:
  "let wide = ip_match_of_data (lib_inet no_libs) [(''1.2.3.0/24'', 0)];
       both = ip_match_of_data (lib_inet no_libs) [(''1.2.3.0/24'', 0), (''1.2.3.4/32'', 1)]
   in processor_match no_libs (the wide) (Some ''1.2.3.4'') \<noteq> None \<and>
      processor_match no_libs (the both) (Some ''1.2.3.4'') = None"
  by code_simp

text \<open>A mask may have other characters after its digits, which \<open>stoi\<close> ignores.\<close>

lemma cidr_trailing_characters:
  "parse_cidr (lib_inet no_libs) ''1.2.3.4/8x'' zero_ipaddr = parse_cidr (lib_inet no_libs) ''1.2.3.4/8'' zero_ipaddr"
  by code_simp

section \<open>Exact match\<close>

lemma map_of_emplace: "map_of (emplace k v m) = [k \<mapsto> v] ++ map_of m"
  by (cases "map_of m k") (auto simp: emplace_def map_add_def fun_eq_iff split: option.split)

lemma emplace_not_Nil: "emplace k v m \<noteq> []"
  by (auto simp: emplace_def)

lemma fold_emplace: "map_of (fold (\<lambda>(k, v). emplace k v) data m) = map_of data ++ map_of m"
proof (induction data arbitrary: m)
  case (Cons e data)
  obtain k v where e: "e = (k, v)"
    by fastforce
  have "map_of data ++ ([k \<mapsto> v] ++ map_of m) = map_of (e # data) ++ map_of m"
    by (simp add: e)
  then show ?case
    using Cons.IH [of "emplace k v m"] by (simp add: e map_of_emplace fun_upd_def)
qed simp

lemma fold_emplace_Nil: "fold (\<lambda>(k, v). emplace k v) data m = [] \<longleftrightarrow> data = [] \<and> m = []"
proof (induction data arbitrary: m)
  case (Cons e data)
  show ?case
    using Cons.IH [of "emplace (fst e) (snd e) m"] by (cases e) (simp add: emplace_not_Nil)
qed simp

text \<open>C36: An exact match made of values with expirations matches exactly the strings that occur
  among the values, unless they are empty or the expiration given first for them is over; it
  reports the string.\<close>

theorem exact_match_first_entry:
  "processor_match env (exact_match_of_data data) (Some str) =
     (if str \<noteq> [] \<and> (\<exists>e. map_of data str = Some e \<and> \<not> expired_at env e)
      then Some (make_event (exact_match_of_data data) str str) else None)"
proof -
  define m where "m = fold (\<lambda>(k, v). emplace k v) data []"
  have m: "map_of m = map_of data" "m = [] \<longleftrightarrow> data = []"
    by (simp_all add: m_def fold_emplace fold_emplace_Nil)
  show ?thesis
    unfolding exact_match_of_data_def m_def [symmetric]
    using m by (cases "map_of data str") (auto simp: match_exact_def)
qed

text \<open>
  The two kinds of lists disagree on an entry that is given twice: the exact match keeps the
  first expiration, the address match the last.
\<close>

lemma duplicate_entries_disagree:
  "processor_match no_libs (exact_match_of_data [(''1.2.3.4'', 1), (''1.2.3.4'', 0)]) (Some ''1.2.3.4'') = None \<and>
   processor_match no_libs (the (ip_match_of_data (lib_inet no_libs) [(''1.2.3.4'', 1), (''1.2.3.4'', 0)])) (Some ''1.2.3.4'') \<noteq> None"
  by code_simp

section \<open>Phrases and numbers\<close>

text \<open>
  The positions of a phrase are inclusive, as the length of the reported string shows; the test
  \<open>match_begin < match_end\<close> drops the phrases of one character.
\<close>

lemma one_character_phrase_dropped:
  "processor_match (no_libs\<lparr>ac_match := (\<lambda>_ _ _. (0, 0))\<rparr>) (Phrase_Match [''a''] [1]) (Some ''a'') = None \<and>
   processor_match (no_libs\<lparr>ac_match := (\<lambda>_ _ _. (0, 1))\<rparr>) (Phrase_Match [''ab''] [2]) (Some ''ab'') \<noteq> None"
  by (simp_all add: match_phrase_def)


end
