(* ===== verification/Condition.thy ===== *)
theory Condition
  imports Transformer Cutoff Iterators Object_Store Processors
begin

text \<open>
  A condition of a rule (\<open>src/condition.hpp\<close>, \<open>src/condition.cpp\<close>): its targets, the
  transformers of the values, and the operator.
\<close>

section \<open>The code\<close>

text \<open>
  Everything outside the repository that an evaluation uses: the matching libraries, the memory and
  the Unicode library of the transformers, and the clock.
\<close>

record engine_env =
  env_libs :: libs
  env_xf :: environment
  env_clock :: clock

record target_type =
  root :: u32
  target_name :: string
  key_path :: "string list"

datatype data_source = Values | Keys

text \<open>The caches tell conditions apart by their pointer.\<close>

record condition =
  cond_ptr :: nat
  cond_targets :: "target_type list"
  transformers :: "transform_id list"
  cond_processor :: "processor option"
  data_id :: string
  cond_limits :: object_limits
  cond_source :: data_source

text \<open>The string view of \<open>stringValue\<close> with a length.\<close>

definition view_of :: "buf option \<Rightarrow> nat \<Rightarrow> view option" where
  "view_of sv len = (case sv of None \<Rightarrow> Some None | Some a \<Rightarrow> if len \<le> length a then Some (Some (take len a)) else None)"

definition string_cutoff :: "buf option \<Rightarrow> nat \<Rightarrow> nat \<Rightarrow> nat option" where
  "string_cutoff sv len maximum =
     (case sv of None \<Rightarrow> if len \<le> maximum then Some len else None | Some a \<Rightarrow> find_string_cutoff a len maximum)"

text \<open>
  \<open>match_object\<close>. The read-only calls may write to the string of the input; what they leave is
  what is matched here, but the store itself is not changed in this model.
\<close>

definition match_object ::
    "engine_env \<Rightarrow> condition \<Rightarrow> processor \<Rightarrow> ddwaf_object \<Rightarrow> event_match option option" where
  "match_object env c p ob =
     do { (transform_required, ob') \<leftarrow>
            (if transformers c = [] then Some (False, ob)
             else do { (b, p') \<leftarrow> doesNeedTransform (env_xf env) (transformers c) (Some ob); Some (b, the p') });
          (case payload ob' of
             Str sv n \<Rightarrow>
               do { len \<leftarrow> string_cutoff sv n (max_string_length (cond_limits c));
                    v \<leftarrow> view_of sv len;
                    if transformers c = [] \<or> \<not> transform_required then Some (processor_match (env_libs env) p v)
                    else do {
                      made \<leftarrow> ddwaf_object_stringl (malloc (env_xf env)) (Some (Obj None Invalid)) sv len;
                      copy \<leftarrow> made;
                      (transformFailed, copy') \<leftarrow> run_transformers (env_xf env) (transformers c) copy;
                      if transformFailed then Some (processor_match (env_libs env) p v)
                      else processor_match_object (env_libs env) p copy' } }
           | _ \<Rightarrow> None) }"

text \<open>
  \<open>match_target\<close>, for both iterators: how to step, the type and the object. The loop has no bound
  in the code; not returning is \<open>None\<close>, as undefined behaviour is.
\<close>

partial_function (option) match_target ::
    "(iter \<Rightarrow> iter) \<Rightarrow> (iter \<Rightarrow> obj_type option) \<Rightarrow> (iter \<Rightarrow> ddwaf_object option) \<Rightarrow>
     (ddwaf_object \<Rightarrow> event_match option option) \<Rightarrow> clock \<Rightarrow> iter \<Rightarrow> timer
     \<Rightarrow> (event_match option run \<times> timer) option" where
  "match_target step type_fn deref match_fn clock it deadline =
     (if it_current it = None then Some (Return None, deadline)
      else let (late, deadline') = expired clock deadline in
        if late then Some (Timeout_Exception, deadline')
        else if type_fn it \<noteq> Some OBJ_STRING
        then match_target step type_fn deref match_fn clock (step it) deadline'
        else do {
          ob \<leftarrow> deref it;
          r \<leftarrow> match_fn ob;
          (case r of
             None \<Rightarrow> match_target step type_fn deref match_fn clock (step it) deadline'
           | Some m \<Rightarrow> Some (Return (Some (m\<lparr>match_key_path := get_current_path it\<rparr>)), deadline')) })"

declare match_target.simps [code]

definition value_deref :: "iter \<Rightarrow> ddwaf_object option" where
  "value_deref it = map_option obj_of (it_current it)"

definition get_processor :: "condition \<Rightarrow> (string \<Rightarrow> processor option) \<Rightarrow> processor option" where
  "get_processor c dynamic_processors =
     (if cond_processor c \<noteq> None \<or> data_id c = [] then cond_processor c
      else (case dynamic_processors (data_id c) of None \<Rightarrow> cond_processor c | Some p \<Rightarrow> Some p))"

definition match_one_target ::
    "engine_env \<Rightarrow> condition \<Rightarrow> processor \<Rightarrow> ref \<Rightarrow> string list \<Rightarrow> addr set \<Rightarrow> timer
     \<Rightarrow> (event_match option run \<times> timer) option" where
  "match_one_target env c p ob path objects_excluded deadline =
     (case cond_source c of
        Keys \<Rightarrow> match_target (key_step (cond_limits c) objects_excluded)
                  (\<lambda>it. key_type it) key_deref
                  (match_object env c p) (env_clock env) (key_init (cond_limits c) objects_excluded ob path) deadline
      | Values \<Rightarrow> match_target (value_step (cond_limits c) objects_excluded)
                  (\<lambda>it. Some (value_type it)) value_deref
                  (match_object env c p) (env_clock env) (value_init (cond_limits c) objects_excluded ob path) deadline)"

primrec match_targets ::
    "engine_env \<Rightarrow> condition \<Rightarrow> processor \<Rightarrow> object_store \<Rightarrow> addr set \<Rightarrow> bool \<Rightarrow> target_type list \<Rightarrow> timer
     \<Rightarrow> (event_match option run \<times> timer) option" where
  "match_targets env c p store objects_excluded run_on_new [] deadline = Some (Return None, deadline)"
| "match_targets env c p store objects_excluded run_on_new (t # ts) deadline =
     (let (late, deadline') = expired (env_clock env) deadline in
      if late then Some (Timeout_Exception, deadline')
      else if run_on_new \<and> \<not> is_new_target store (root t)
      then match_targets env c p store objects_excluded run_on_new ts deadline'
      else (case get_target store (root t) of
              None \<Rightarrow> match_targets env c p store objects_excluded run_on_new ts deadline'
            | Some ob \<Rightarrow> do {
                (r, deadline'') \<leftarrow> match_one_target env c p ob (key_path t) objects_excluded deadline';
                (case r of
                   Timeout_Exception \<Rightarrow> Some (Timeout_Exception, deadline'')
                 | Return None \<Rightarrow> match_targets env c p store objects_excluded run_on_new ts deadline''
                 | Return (Some m) \<Rightarrow> Some (Return (Some (m\<lparr>match_source := target_name t\<rparr>)), deadline'')) }))"

definition condition_match ::
    "engine_env \<Rightarrow> condition \<Rightarrow> object_store \<Rightarrow> addr set \<Rightarrow> bool \<Rightarrow> (string \<Rightarrow> processor option) \<Rightarrow> timer
     \<Rightarrow> (event_match option run \<times> timer) option" where
  "condition_match env c store objects_excluded run_on_new dynamic_processors deadline =
     (case get_processor c dynamic_processors of
        None \<Rightarrow> Some (Return None, deadline)
      | Some p \<Rightarrow> match_targets env c p store objects_excluded run_on_new (cond_targets c) deadline)"

section \<open>The iterations\<close>

text \<open>The states of an iteration, at most \<open>n\<close>, and the first match among them.\<close>

primrec states :: "(iter \<Rightarrow> iter) \<Rightarrow> nat \<Rightarrow> iter \<Rightarrow> iter list" where
  "states step 0 it = []"
| "states step (Suc n) it = (if it_current it = None then [] else it # states step n (step it))"

primrec first_match ::
    "(iter \<Rightarrow> obj_type option) \<Rightarrow> (iter \<Rightarrow> ddwaf_object option) \<Rightarrow> (ddwaf_object \<Rightarrow> event_match option option)
     \<Rightarrow> iter list \<Rightarrow> event_match option option" where
  "first_match type_fn deref match_fn [] = Some None"
| "first_match type_fn deref match_fn (it # its) =
     (if type_fn it \<noteq> Some OBJ_STRING then first_match type_fn deref match_fn its
      else do { ob \<leftarrow> deref it; r \<leftarrow> match_fn ob;
                (case r of None \<Rightarrow> first_match type_fn deref match_fn its
                 | Some m \<Rightarrow> Some (Some (m\<lparr>match_key_path := get_current_path it\<rparr>))) })"

text \<open>A deadline that no reading of the clock reaches.\<close>

definition never_late :: "clock \<Rightarrow> timer \<Rightarrow> bool" where
  "never_late clock t \<longleftrightarrow> timer_ok t \<and> \<not> expired_flag t \<and> (\<forall>i. monotonic_now (clock i) < t_end t)"

lemma never_late_expired: "never_late clock t \<Longrightarrow> \<exists>t'. expired clock t = (False, t') \<and> never_late clock t'"
proof -
  assume t: "never_late clock t"
  obtain b t' where e: "expired clock t = (b, t')"
    by fastforce
  from expired_ok [OF _ e] t have
    "timer_ok t'" "b = expired_flag t'" "t_end t' = t_end t"
    "b \<longrightarrow> expired_flag t \<or> (\<exists>i \<in> {readings t..<readings t'}. t_end t \<le> monotonic_now (clock i))"
    by (auto simp: never_late_def)
  then show ?thesis
    using t e by (force simp: never_late_def not_le [symmetric])
qed

text \<open>
  What the loop relies on: an iterator stands on the first of the objects it has left, and a step
  leaves the others.
\<close>

locale iteration =
  fixes step :: "iter \<Rightarrow> iter" and ok :: "iter \<Rightarrow> bool" and rest :: "iter \<Rightarrow> ref list"
  assumes rest_end: "ok it \<Longrightarrow> it_current it = None \<Longrightarrow> rest it = []"
    and rest_step: "ok it \<Longrightarrow> it_current it = Some c \<Longrightarrow> rest it = c # rest (step it) \<and> ok (step it)"
begin

lemma rest_nil: "ok it \<Longrightarrow> rest it = [] \<Longrightarrow> it_current it = None"
  using rest_step [of it] by (cases "it_current it") auto

lemma states_rest:
  "ok it \<Longrightarrow> map (\<lambda>it. the (it_current it)) (states step n it) = take n (rest it)"
proof (induction n arbitrary: it)
  case (Suc n)
  show ?case
  proof (cases "it_current it")
    case None
    then show ?thesis
      using rest_end [OF Suc.prems] by simp
  next
    case (Some c)
    with rest_step [OF Suc.prems Some] Suc.IH [of "step it"] show ?thesis
      by simp
  qed
qed simp

text \<open>
  The loop ends: unless the deadline passes, with the first match among all the objects of the
  iteration.
\<close>

lemma loop_first_match:
  "ok it \<Longrightarrow> never_late clock dl \<Longrightarrow>
   \<exists>dl'. never_late clock dl' \<and>
     match_target step type_fn deref match_fn clock it dl =
       map_option (\<lambda>r. (Return r, dl')) (first_match type_fn deref match_fn (states step (length (rest it)) it))"
proof (induction "length (rest it)" arbitrary: it dl)
  case 0
  then have "it_current it = None"
    by (simp add: rest_nil)
  then show ?case
    using 0 by (intro exI [of _ dl]) (simp add: match_target.simps)
next
  case (Suc n)
  then obtain c where c: "it_current it = Some c"
    using rest_end by fastforce
  note nx = rest_step [OF Suc.prems(1) c]
  then have n: "n = length (rest (step it))" "ok (step it)"
    using Suc.hyps(2) by simp_all
  obtain dl1 where dl1: "expired clock dl = (False, dl1)" "never_late clock dl1"
    using never_late_expired [OF Suc.prems(2)] by blast
  obtain dl2 where IH: "never_late clock dl2"
    "match_target step type_fn deref match_fn clock (step it) dl1 =
       map_option (\<lambda>r. (Return r, dl2)) (first_match type_fn deref match_fn (states step n (step it)))"
    using Suc.hyps(1) [OF n dl1(2)] n(1) by auto
  note unroll = match_target.simps [of step type_fn deref match_fn clock it dl]
  have first: "first_match type_fn deref match_fn (states step (length (rest it)) it) =
      first_match type_fn deref match_fn (it # states step n (step it))"
    using c Suc.hyps(2) [symmetric] by simp
  show ?case
  proof (cases "type_fn it \<noteq> Some OBJ_STRING")
    case True
    then show ?thesis
      using IH unfolding first unroll by (intro exI [of _ dl2]) (simp add: c dl1(1))
  next
    case str: False
    show ?thesis
    proof (cases "Option.bind (deref it) match_fn")
      case None
      then show ?thesis
        using str dl1(2) unfolding first unroll
        by (intro exI [of _ dl1]) (auto simp: c dl1(1) split: option.splits bind_splits)
    next
      case (Some r)
      then obtain ob where ob: "deref it = Some ob" "match_fn ob = Some r"
        by (auto split: bind_splits)
      show ?thesis
      proof (cases r)
        case None
        then show ?thesis
          using str IH ob unfolding first unroll by (intro exI [of _ dl2]) (simp add: c dl1(1))
      next
        case (Some m)
        then show ?thesis
          using str dl1(2) ob unfolding first unroll by (intro exI [of _ dl1]) (simp add: c dl1(1))
      qed
    qed
  qed
qed

text \<open>Whatever the clock says, the loop ends when its calls do.\<close>

lemma loop_ends:
  assumes "\<forall>it' \<in> set (states step (length (rest it)) it). type_fn it' = Some OBJ_STRING \<longrightarrow>
      Option.bind (deref it') match_fn \<noteq> None"
  shows "ok it \<Longrightarrow> match_target step type_fn deref match_fn clock it dl \<noteq> None"
  using assms
proof (induction "length (rest it)" arbitrary: it dl)
  case 0
  then have "it_current it = None"
    by (simp add: rest_nil)
  then show ?case
    by (simp add: match_target.simps)
next
  case (Suc n)
  then obtain c where c: "it_current it = Some c"
    using rest_end by fastforce
  note nx = rest_step [OF Suc.prems(1) c]
  then have n: "n = length (rest (step it))" "ok (step it)"
    using Suc.hyps(2) by simp_all
  have all: "set (states step (length (rest it)) it) = insert it (set (states step (length (rest (step it))) (step it)))"
    using c Suc.hyps(2) [symmetric] n(1) by simp
  have "match_target step type_fn deref match_fn clock (step it) dl' \<noteq> None" for dl'
    using Suc.hyps(1) [OF n] Suc.prems(2) unfolding all by blast
  moreover have "type_fn it = Some OBJ_STRING \<Longrightarrow> \<exists>ob r. deref it = Some ob \<and> match_fn ob = Some r"
    using Suc.prems(2) unfolding all by (auto split: bind_splits)
  ultimately show ?case
    by (subst match_target.simps) (auto simp: c Let_def split: prod.split option.split)
qed

end

text \<open>Both iterators of the code are such iterations.\<close>

definition value_rest :: "object_limits \<Rightarrow> addr set \<Rightarrow> iter \<Rightarrow> ref list" where
  "value_rest lim excluded it =
     (case it_current it of None \<Rightarrow> []
      | Some c \<Rightarrow> c # stack_scalars lim excluded (length (it_path it)) (it_stack it))"

interpretation value_iteration: iteration "value_step lim excluded" "\<lambda>_. True" "value_rest lim excluded"
  for lim excluded
proof unfold_locales
  fix it :: iter and c
  assume c: "it_current it = Some c"
  obtain cur st where nx: "value_next lim excluded (length (it_path it)) (it_stack it) = (cur, st)"
    by fastforce
  then show "value_rest lim excluded it = c # value_rest lim excluded (value_step lim excluded it) \<and> True"
    using c value_next_scalars [OF nx] by (auto simp: value_rest_def value_step_def split: option.splits)
qed (simp add: value_rest_def)

definition key_rest :: "object_limits \<Rightarrow> addr set \<Rightarrow> iter \<Rightarrow> ref list" where
  "key_rest lim excluded it =
     (case it_current it of None \<Rightarrow> []
      | Some c \<Rightarrow> c # left_keys lim excluded (length (it_path it)) (Some (addr_of c)) (it_stack it))"

definition key_ok :: "object_limits \<Rightarrow> addr set \<Rightarrow> iter \<Rightarrow> bool" where
  "key_ok lim excluded it \<longleftrightarrow>
     (\<forall>c. it_current it = Some c \<longrightarrow> key_state_ok lim excluded (Some (addr_of c)) (it_stack it))"

interpretation key_iteration: iteration "key_step lim excluded" "key_ok lim excluded" "key_rest lim excluded"
  for lim excluded
proof unfold_locales
  fix it :: iter and c
  assume ok: "key_ok lim excluded it" and c: "it_current it = Some c"
  then have state: "key_state_ok lim excluded (Some (addr_of c)) (it_stack it)"
    by (simp add: key_ok_def)
  obtain cur st where nx: "key_next lim excluded (length (it_path it)) (Some (addr_of c)) (it_stack it) = (cur, st)"
    by fastforce
  from key_next_correct [OF state nx] show "key_rest lim excluded it = c # key_rest lim excluded (key_step lim excluded it)
      \<and> key_ok lim excluded (key_step lim excluded it)"
    using c nx by (auto simp: key_rest_def key_ok_def key_step_def key_outcome_def split: option.splits)
qed (simp add: key_rest_def)

lemma key_init_ok: "key_ok lim excluded (key_init lim excluded ob path)"
proof -
  have start: "key_ok lim excluded \<lparr>it_path = path', it_stack = st, it_current = cur\<rparr>"
    if "key_next lim excluded 0 None [(r, 0)] = (cur, st)" for r cur st path'
  proof -
    have "key_state_ok lim excluded None [(r, 0)]"
      by (simp add: key_state_ok_def passed_def)
    from key_next_correct [OF this that] show ?thesis
      by (auto simp: key_ok_def key_outcome_def split: option.splits)
  qed
  have none: "key_ok lim excluded it" if "it_current it = None" for it
    using that by (simp add: key_ok_def)
  obtain cur st where nx: "key_next lim excluded 0 None [(ob, 0)] = (cur, st)"
    by fastforce
  have "key_ok lim excluded (case key_descend lim excluded ob path of
      Inside final \<Rightarrow> (let (cur, st) = key_next lim excluded 0 None [(final, 0)]
        in \<lparr>it_path = (if cur \<noteq> None then path else []), it_stack = st, it_current = cur\<rparr>)
    | Stuck f \<Rightarrow> fresh_iter\<lparr>it_stack := [f]\<rparr> | Scalar c \<Rightarrow> fresh_iter)"
    by (auto simp: none fresh_iter_def start split: descent.split prod.split)
  then show ?thesis
    using nx start [OF nx, of "[]"] none by (simp add: key_init_def fresh_iter_def)
qed

section \<open>What a condition finds\<close>

text \<open>Everything an iterator of the condition stands on below a target.\<close>

definition visited :: "condition \<Rightarrow> addr set \<Rightarrow> ref \<Rightarrow> string list \<Rightarrow> iter list" where
  "visited c excluded ob path =
     (let lim = cond_limits c; vi = value_init lim excluded ob path; ki = key_init lim excluded ob path in
      case cond_source c of
        Keys \<Rightarrow> states (key_step lim excluded) (length (key_rest lim excluded ki)) ki
      | Values \<Rightarrow> states (value_step lim excluded) (length (value_rest lim excluded vi)) vi)"

definition scan_target ::
    "engine_env \<Rightarrow> condition \<Rightarrow> processor \<Rightarrow> ref \<Rightarrow> string list \<Rightarrow> addr set \<Rightarrow> event_match option option" where
  "scan_target env c p ob path excluded =
     (case cond_source c of
        Keys \<Rightarrow> first_match key_type key_deref (match_object env c p) (visited c excluded ob path)
      | Values \<Rightarrow> first_match (\<lambda>it. Some (value_type it)) value_deref (match_object env c p) (visited c excluded ob path))"

text \<open>The target answers with what the iteration of its object finds first.\<close>

primrec scan ::
    "engine_env \<Rightarrow> condition \<Rightarrow> processor \<Rightarrow> object_store \<Rightarrow> addr set \<Rightarrow> bool \<Rightarrow> target_type list
     \<Rightarrow> event_match option option" where
  "scan env c p store excluded run_on_new [] = Some None"
| "scan env c p store excluded run_on_new (t # ts) =
     (if run_on_new \<and> \<not> is_new_target store (root t) then scan env c p store excluded run_on_new ts
      else (case get_target store (root t) of
              None \<Rightarrow> scan env c p store excluded run_on_new ts
            | Some ob \<Rightarrow> do {
                r \<leftarrow> scan_target env c p ob (key_path t) excluded;
                (case r of None \<Rightarrow> scan env c p store excluded run_on_new ts
                 | Some m \<Rightarrow> Some (Some (m\<lparr>match_source := target_name t\<rparr>))) }))"

definition condition_scan ::
    "engine_env \<Rightarrow> (string \<Rightarrow> processor option) \<Rightarrow> addr set \<Rightarrow> object_store \<Rightarrow> bool \<Rightarrow> condition \<Rightarrow> event_match option option" where
  "condition_scan env dynamic_processors excluded store run_on_new c =
     (case get_processor c dynamic_processors of
        None \<Rightarrow> Some None | Some p \<Rightarrow> scan env c p store excluded run_on_new (cond_targets c))"

lemma match_one_target_scan:
  assumes "never_late (env_clock env) dl"
  shows "\<exists>dl'. never_late (env_clock env) dl' \<and>
    match_one_target env c p ob path excluded dl =
      map_option (\<lambda>r. (Return r, dl')) (scan_target env c p ob path excluded)"
proof (cases "cond_source c")
  case Values
  show ?thesis
    using value_iteration.loop_first_match [OF TrueI assms]
    by (simp add: match_one_target_def scan_target_def visited_def Values Let_def)
next
  case Keys
  show ?thesis
    using key_iteration.loop_first_match [OF key_init_ok assms]
    by (simp add: match_one_target_def scan_target_def visited_def Keys Let_def)
qed

lemma match_targets_scan:
  "never_late (env_clock env) dl \<Longrightarrow> \<exists>dl'. never_late (env_clock env) dl' \<and>
     match_targets env c p store excluded run_on_new ts dl =
       map_option (\<lambda>r. (Return r, dl')) (scan env c p store excluded run_on_new ts)"
proof (induction ts arbitrary: dl)
  case (Cons t ts)
  obtain dl1 where dl1: "expired (env_clock env) dl = (False, dl1)" "never_late (env_clock env) dl1"
    using never_late_expired [OF Cons.prems] by blast
  note IH = Cons.IH
  consider (skip) "run_on_new \<and> \<not> is_new_target store (root t) \<or> get_target store (root t) = None"
    | (look) ob where "\<not> (run_on_new \<and> \<not> is_new_target store (root t))" "get_target store (root t) = Some ob"
    by fastforce
  then show ?case
  proof cases
    case skip
    then show ?thesis
      using IH [OF dl1(2)] dl1 by auto
  next
    case look
    obtain dl2 where dl2: "never_late (env_clock env) dl2"
      "match_one_target env c p ob (key_path t) excluded dl1 =
         map_option (\<lambda>r. (Return r, dl2)) (scan_target env c p ob (key_path t) excluded)"
      using match_one_target_scan [OF dl1(2)] by blast
    have step: "match_targets env c p store excluded run_on_new (t # ts) dl =
        do { (r, dl'') \<leftarrow> match_one_target env c p ob (key_path t) excluded dl1;
             (case r of Timeout_Exception \<Rightarrow> Some (Timeout_Exception, dl'')
              | Return None \<Rightarrow> match_targets env c p store excluded run_on_new ts dl''
              | Return (Some m) \<Rightarrow> Some (Return (Some (m\<lparr>match_source := target_name t\<rparr>)), dl'')) }"
      using look dl1 by (simp only: match_targets.simps Let_def prod.case if_False option.case)
    have scan_step: "scan env c p store excluded run_on_new (t # ts) =
        do { r \<leftarrow> scan_target env c p ob (key_path t) excluded;
             (case r of None \<Rightarrow> scan env c p store excluded run_on_new ts
              | Some m \<Rightarrow> Some (Some (m\<lparr>match_source := target_name t\<rparr>))) }"
      using look by (simp only: scan.simps if_False option.case)
    show ?thesis
      unfolding step scan_step dl2(2) using IH [OF dl2(1)] dl2(1)
      by (cases "scan_target env c p ob (key_path t) excluded") (auto split: option.split)
  qed
qed auto

lemma condition_match_scan:
  assumes "never_late (env_clock env) dl"
  shows "\<exists>dl'. never_late (env_clock env) dl' \<and>
    condition_match env c store excluded run_on_new dynamic_processors dl =
      map_option (\<lambda>r. (Return r, dl')) (condition_scan env dynamic_processors excluded store run_on_new c)"
  using assms match_targets_scan [OF assms]
  by (auto simp: condition_match_def condition_scan_def split: option.split)

section \<open>When a condition fires\<close>

text \<open>The strings that a condition matches below a target, and the key of an entry as one.\<close>

definition strings_of :: "condition \<Rightarrow> addr set \<Rightarrow> ref \<Rightarrow> string list \<Rightarrow> ddwaf_object option list" where
  "strings_of c excluded ob path =
     (case cond_source c of
        Keys \<Rightarrow> map key_deref (filter (\<lambda>it. key_type it = Some OBJ_STRING) (visited c excluded ob path))
      | Values \<Rightarrow> map value_deref (filter (\<lambda>it. value_type it = OBJ_STRING) (visited c excluded ob path)))"

lemma first_match_defined:
  "\<forall>it \<in> set its. ty it = Some OBJ_STRING \<longrightarrow> Option.bind (deref it) f \<noteq> None \<Longrightarrow> first_match ty deref f its \<noteq> None"
  by (induction its) (auto split: bind_splits option.split)

lemma first_match_hit:
  "first_match ty deref f its = Some r \<Longrightarrow>
   \<forall>it \<in> set its. ty it = Some OBJ_STRING \<longrightarrow> Option.bind (deref it) f \<noteq> None \<Longrightarrow>
   r \<noteq> None \<longleftrightarrow> (\<exists>it \<in> set its. ty it = Some OBJ_STRING \<and> (\<exists>m. Option.bind (deref it) f = Some (Some m)))"
proof (induction its arbitrary: r)
  case (Cons it its)
  show ?case
  proof (cases "ty it = Some OBJ_STRING")
    case False
    then show ?thesis
      using Cons by simp
  next
    case True
    then obtain ob r' where b: "deref it = Some ob" "f ob = Some r'"
      using Cons.prems(2) by (auto split: bind_splits)
    then show ?thesis
      using Cons True by (cases r') auto
  qed
qed simp

lemma scan_target_fires:
  assumes "\<forall>s \<in> set (strings_of c excluded ob path). Option.bind s (match_object env c p) \<noteq> None"
  shows "\<exists>r. scan_target env c p ob path excluded = Some r \<and>
    (r \<noteq> None \<longleftrightarrow> (\<exists>s \<in> set (strings_of c excluded ob path). \<exists>m. Option.bind s (match_object env c p) = Some (Some m)))"
proof (cases "cond_source c")
  case Values
  let ?ty = "\<lambda>it. Some (value_type it)" and ?its = "visited c excluded ob path"
  have all: "\<forall>it \<in> set ?its. ?ty it = Some OBJ_STRING \<longrightarrow> Option.bind (value_deref it) (match_object env c p) \<noteq> None"
    using assms by (simp add: strings_of_def Values)
  obtain r where "first_match ?ty value_deref (match_object env c p) ?its = Some r"
    using first_match_defined [OF all] by auto
  then show ?thesis
    using first_match_hit [OF _ all] by (auto simp: scan_target_def strings_of_def Values)
next
  case Keys
  let ?its = "visited c excluded ob path"
  have all: "\<forall>it \<in> set ?its. key_type it = Some OBJ_STRING \<longrightarrow> Option.bind (key_deref it) (match_object env c p) \<noteq> None"
    using assms by (simp add: strings_of_def Keys)
  obtain r where "first_match key_type key_deref (match_object env c p) ?its = Some r"
    using first_match_defined [OF all] by auto
  then show ?thesis
    using first_match_hit [OF _ all] by (auto simp: scan_target_def strings_of_def Keys)
qed

text \<open>The targets that a call looks at, with their objects.\<close>

definition looked_at :: "object_store \<Rightarrow> bool \<Rightarrow> target_type list \<Rightarrow> (target_type \<times> ref) list" where
  "looked_at store run_on_new ts =
     [(t, ob). t \<leftarrow> ts, \<not> (run_on_new \<and> \<not> is_new_target store (root t)), ob \<leftarrow> (case get_target store (root t) of None \<Rightarrow> [] | Some ob \<Rightarrow> [ob])]"

lemma scan_fires:
  "\<forall>(t, ob) \<in> set (looked_at store run_on_new ts). \<forall>s \<in> set (strings_of c excluded ob (key_path t)).
     Option.bind s (match_object env c p) \<noteq> None \<Longrightarrow>
   \<exists>r. scan env c p store excluded run_on_new ts = Some r \<and>
     (r \<noteq> None \<longleftrightarrow> (\<exists>(t, ob) \<in> set (looked_at store run_on_new ts). \<exists>s \<in> set (strings_of c excluded ob (key_path t)).
        \<exists>m. Option.bind s (match_object env c p) = Some (Some m)))"
proof (induction ts)
  case (Cons t ts)
  consider (skip) "run_on_new \<and> \<not> is_new_target store (root t) \<or> get_target store (root t) = None"
    | (look) ob where "\<not> (run_on_new \<and> \<not> is_new_target store (root t))" "get_target store (root t) = Some ob"
    by fastforce
  then show ?case
  proof cases
    case skip
    then have la: "looked_at store run_on_new (t # ts) = looked_at store run_on_new ts"
      and sc: "scan env c p store excluded run_on_new (t # ts) = scan env c p store excluded run_on_new ts"
      by (auto simp: looked_at_def)
    show ?thesis
      using Cons unfolding la sc by blast
  next
    case look
    then have la: "looked_at store run_on_new (t # ts) = (t, ob) # looked_at store run_on_new ts"
      by (simp add: looked_at_def)
    have IH: "\<exists>r. scan env c p store excluded run_on_new ts = Some r \<and>
       (r \<noteq> None \<longleftrightarrow> (\<exists>(t, ob) \<in> set (looked_at store run_on_new ts). \<exists>s \<in> set (strings_of c excluded ob (key_path t)).
          \<exists>m. Option.bind s (match_object env c p) = Some (Some m)))"
      using Cons.prems unfolding la by (intro Cons.IH) simp
    obtain r where r: "scan_target env c p ob (key_path t) excluded = Some r"
      "r \<noteq> None \<longleftrightarrow> (\<exists>s \<in> set (strings_of c excluded ob (key_path t)). \<exists>m. Option.bind s (match_object env c p) = Some (Some m))"
      using scan_target_fires [of c excluded ob "key_path t" env p] Cons.prems unfolding la by auto
    have sc: "scan env c p store excluded run_on_new (t # ts) =
        (case r of None \<Rightarrow> scan env c p store excluded run_on_new ts
         | Some m \<Rightarrow> Some (Some (m\<lparr>match_source := target_name t\<rparr>)))"
      using look r(1) by (simp only: scan.simps if_False option.case) simp
    show ?thesis
      unfolding la sc using IH r(2) by (cases r) auto
  qed
qed (simp add: looked_at_def)

text \<open>The objects that the iterators go through when the target has no key path.\<close>

definition value_objects :: "object_limits \<Rightarrow> addr set \<Rightarrow> ref \<Rightarrow> ref list" where
  "value_objects lim excluded ob =
     (if addr_of ob \<in> excluded then []
      else if is_scalar (obj_of ob) then [ob]
      else if is_container (obj_of ob) \<and> max_container_depth lim > 0 then scalars_below lim excluded 1 ob
      else [])"

definition key_objects :: "object_limits \<Rightarrow> addr set \<Rightarrow> ref \<Rightarrow> ref list" where
  "key_objects lim excluded ob =
     (if addr_of ob \<notin> excluded \<and> is_container (obj_of ob) \<and> max_container_depth lim > 0
      then keys_below lim excluded 1 ob else [])"

lemma value_init_rest: "value_rest lim excluded (value_init lim excluded ob []) = value_objects lim excluded ob"
proof -
  obtain cur st where nx: "value_next lim excluded 0 [(ob, 0)] = (cur, st)"
    by fastforce
  have "scalars_below lim excluded 1 ob =
      (case cur of None \<Rightarrow> [] | Some r \<Rightarrow> r # stack_scalars lim excluded 0 st)"
    using value_next_scalars [OF nx] by (simp add: scalars_below_frame)
  then show ?thesis
    using nx by (auto simp: value_rest_def value_objects_def value_init_def fresh_iter_def stack_scalars.simps(1)
        split: option.split)
qed

lemma key_init_rest: "key_rest lim excluded (key_init lim excluded ob []) = key_objects lim excluded ob"
proof -
  obtain cur st where nx: "key_next lim excluded 0 None [(ob, 0)] = (cur, st)"
    by fastforce
  have ok: "key_state_ok lim excluded None [(ob, 0)]" "left_keys lim excluded 0 None [(ob, 0)] = keys_below lim excluded 1 ob"
    by (simp_all add: key_state_ok_def passed_def left_keys_def keys_below_frame Let_def)
  note c = key_next_correct [OF ok(1) nx, unfolded ok(2) key_outcome_def]
  then show ?thesis
    using nx by (auto simp: key_rest_def key_objects_def key_init_def fresh_iter_def split: option.splits)
qed

lemma states_current: "it \<in> set (states step n it0) \<Longrightarrow> it_current it \<noteq> None"
  by (induction n arbitrary: it0) (auto split: if_splits)

definition key_string :: "ref \<Rightarrow> ddwaf_object option" where
  "key_string r = (case parameterName (obj_of r) of None \<Rightarrow> None | Some k \<Rightarrow> Some (Obj None (Str (Some k) (length k))))"

definition candidates :: "condition \<Rightarrow> addr set \<Rightarrow> ref \<Rightarrow> ddwaf_object list" where
  "candidates c excluded ob =
     (case cond_source c of
        Values \<Rightarrow> filter (\<lambda>s. obj_type s = OBJ_STRING) (map obj_of (value_objects (cond_limits c) excluded ob))
      | Keys \<Rightarrow> List.map_filter key_string (key_objects (cond_limits c) excluded ob))"

lemma strings_of_candidates: "strings_of c excluded ob [] = map Some (candidates c excluded ob)"
proof (cases "cond_source c")
  case Values
  let ?lim = "cond_limits c" and ?its = "visited c excluded ob []"
  have cur: "map (\<lambda>it. the (it_current it)) ?its = value_objects ?lim excluded ob"
    using value_iteration.states_rest [OF TrueI, of ?lim excluded _ "value_init ?lim excluded ob []"]
    by (simp add: visited_def Values Let_def value_init_rest)
  have all: "\<forall>it \<in> set ?its. it_current it \<noteq> None"
    using states_current by (auto simp: visited_def Values Let_def)
  have mapped: "map value_deref (filter (\<lambda>it. value_type it = OBJ_STRING) its) =
      map Some (filter (\<lambda>s. obj_type s = OBJ_STRING) (map obj_of (map (\<lambda>it. the (it_current it)) its)))"
    if "\<forall>it \<in> set its. it_current it \<noteq> None" for its
    using that by (induction its) (auto simp: value_type_def value_deref_def)
  show ?thesis
    using mapped [OF all] by (simp add: cur strings_of_def candidates_def Values)
next
  case Keys
  let ?lim = "cond_limits c" and ?its = "visited c excluded ob []"
  have cur: "map (\<lambda>it. the (it_current it)) ?its = key_objects ?lim excluded ob"
    using key_iteration.states_rest [OF key_init_ok [of ?lim excluded ob "[]"]]
    by (simp add: visited_def Keys Let_def key_init_rest)
  have all: "\<forall>it \<in> set ?its. it_current it \<noteq> None"
    using states_current by (auto simp: visited_def Keys Let_def)
  have mapped: "map key_deref (filter (\<lambda>it. key_type it = Some OBJ_STRING) its) =
      map Some (List.map_filter key_string (map (\<lambda>it. the (it_current it)) its))"
    if "\<forall>it \<in> set its. it_current it \<noteq> None" for its
    using that
  proof (induction its)
    case (Cons it its)
    then obtain a x where "it_current it = Some (a, x)"
      by auto
    with Cons show ?case
      by (cases "parameterName x")
        (simp_all add: key_type_def key_deref_def key_string_def ddwaf_object_stringl_nc_def List.map_filter_simps)
  qed (simp add: List.map_filter_simps)
  show ?thesis
    using mapped [OF all] by (simp add: cur strings_of_def candidates_def Keys)
qed


text \<open>A map with the string one level below, and a condition on its address.\<close>

definition sample_env :: engine_env where
  "sample_env = \<lparr>env_libs = no_libs,
     env_xf = \<lparr>malloc = (\<lambda>_. True), unicode = \<lparr>decompose_char = (\<lambda>c _. (1, [c])), get_category = (\<lambda>_. 0),
       has_casefold = (\<lambda>_. False), cp_toupper = id, cp_tolower = id\<rparr>\<rparr>,
     env_clock = (\<lambda>_. (0, 0, 0))\<rparr>"

definition sample_timer :: timer where
  "sample_timer = \<lparr>t_start = 0, t_end = 1000, syscall_period = 16, calls = 1, expired_flag = False, readings = 1\<rparr>"

lemma sample_never_late: "never_late (env_clock sample_env) sample_timer"
  by (simp add: never_late_def sample_env_def sample_timer_def monotonic_now_def timer_ok_def word_le_nat_alt)

definition sample_condition :: condition where
  "sample_condition = \<lparr>cond_ptr = 0, cond_targets = [\<lparr>root = 1, target_name = ''body'', key_path = []\<rparr>],
     transformers = [], cond_processor = Some (Exact_Match [(''evil'', 0)]), data_id = [],
     cond_limits = \<lparr>max_container_depth = 20, max_container_size = 256, max_string_length = 4096\<rparr>,
     cond_source = Values\<rparr>"

definition sample_input :: "string \<Rightarrow> ddwaf_object" where
  "sample_input s = Obj None (Map (Arr 8 [Obj (Some ''body'') (Map (Arr 8 [Obj (Some ''k'') (Str (Some s) (length s))]))]))"

definition sample_manifest :: manifest where
  "sample_manifest = snd (manifest_insert empty_manifest ''body'')"

definition sample_store :: object_store where
  "sample_store = snd (store_insert (new_object_store sample_manifest False) (sample_input ''evil''))"


end
