(* ===== verification/Rule.thy ===== *)
theory Rule
  imports Condition
begin

text \<open>
  A rule and its cache (\<open>src/rule.hpp\<close>, \<open>src/rule.cpp\<close>): which conditions have matched in the
  batches given so far, and the event that is being put together.
\<close>

section \<open>The code\<close>

record event =
  event_id :: string
  event_name :: string
  event_type :: string
  event_category :: string
  event_actions :: "string list"
  event_matches :: "event_match list"

definition empty_event :: event where
  "empty_event = \<lparr>event_id = [], event_name = [], event_type = [], event_category = [], event_actions = [], event_matches = []\<rparr>"

text \<open>Rules and conditions are told apart by their pointer.\<close>

record rule =
  rule_ptr :: nat
  enabled :: bool
  rule_id :: string
  rule_name :: string
  tags :: "(string \<times> string) list"
  conditions :: "condition list"
  actions :: "string list"

type_synonym condition_cache = "nat \<rightharpoonup> bool"

record rule_cache =
  cache_result :: bool
  cache_conditions :: condition_cache
  cache_event :: event

definition new_rule_cache :: rule_cache where
  "new_rule_cache = \<lparr>cache_result = False, cache_conditions = Map.empty, cache_event = empty_event\<rparr>"

definition get_tag :: "rule \<Rightarrow> string \<Rightarrow> string" where
  "get_tag r tag = (case map_of (tags r) tag of None \<Rightarrow> [] | Some v \<Rightarrow> v)"

definition toggle :: "rule \<Rightarrow> bool \<Rightarrow> rule" where
  "toggle r val = r\<lparr>enabled := val\<rparr>"

text \<open>
  The loop over the conditions: whether all of them hold, the cache and the matches of the event.
  \<open>match_fn\<close> is the call of \<open>condition::match\<close>; what it throws leaves the cache and the matches as
  they are at that moment.
\<close>

type_synonym condition_call = "condition \<Rightarrow> bool \<Rightarrow> timer \<Rightarrow> (event_match option run \<times> timer) option"

primrec conditions_loop ::
    "condition_call \<Rightarrow> condition list \<Rightarrow> condition_cache \<Rightarrow> event_match list \<Rightarrow> timer
     \<Rightarrow> (bool run \<times> condition_cache \<times> event_match list \<times> timer) option" where
  "conditions_loop match_fn [] cache ms deadline = Some (Return True, cache, ms, deadline)"
| "conditions_loop match_fn (cond # conds) cache ms deadline =
     (if cache (cond_ptr cond) = Some True then conditions_loop match_fn conds cache ms deadline
      else let run_on_new = (cache (cond_ptr cond) \<noteq> None);
               cache1 = (if run_on_new then cache else cache(cond_ptr cond \<mapsto> False)) in
        do { (opt_match, deadline') \<leftarrow> match_fn cond run_on_new deadline;
             (case opt_match of
                Timeout_Exception \<Rightarrow> Some (Timeout_Exception, cache1, ms, deadline')
              | Return None \<Rightarrow> Some (Return False, cache1(cond_ptr cond \<mapsto> False), ms, deadline')
              | Return (Some m) \<Rightarrow>
                  conditions_loop match_fn conds (cache1(cond_ptr cond \<mapsto> True)) (ms @ [m]) deadline') })"

definition complete_event :: "rule \<Rightarrow> event \<Rightarrow> event" where
  "complete_event r ev =
     ev\<lparr>event_id := rule_id r, event_name := rule_name r, event_type := get_tag r ''type'',
        event_category := get_tag r ''category'', event_actions := event_actions ev @ actions r\<rparr>"

text \<open>\<open>rule::match\<close> over the calls of its conditions. A moved event keeps its views and has no lists.\<close>

definition rule_match_with ::
    "condition_call \<Rightarrow> rule \<Rightarrow> rule_cache \<Rightarrow> timer \<Rightarrow> (event option run \<times> rule_cache \<times> timer) option" where
  "rule_match_with match_fn r cache deadline =
     (if cache_result cache then Some (Return None, cache, deadline)
      else do {
        (res, conds, ms, deadline') \<leftarrow>
          conditions_loop match_fn (conditions r) (cache_conditions cache) (event_matches (cache_event cache)) deadline;
        let cache1 = cache\<lparr>cache_conditions := conds, cache_event := (cache_event cache)\<lparr>event_matches := ms\<rparr>\<rparr>;
            ev = complete_event r (cache_event cache1)
        in (case res of
              Timeout_Exception \<Rightarrow> Some (Timeout_Exception, cache1, deadline')
            | Return False \<Rightarrow> Some (Return None, cache1, deadline')
            | Return True \<Rightarrow> Some (Return (Some ev),
                cache1\<lparr>cache_result := True, cache_event := ev\<lparr>event_actions := [], event_matches := []\<rparr>\<rparr>, deadline')) })"

definition rule_match ::
    "engine_env \<Rightarrow> rule \<Rightarrow> object_store \<Rightarrow> rule_cache \<Rightarrow> addr set \<Rightarrow> (string \<Rightarrow> processor option) \<Rightarrow> timer
     \<Rightarrow> (event option run \<times> rule_cache \<times> timer) option" where
  "rule_match env r store cache objects_excluded dynamic_processors deadline =
     rule_match_with (\<lambda>c run_on_new. condition_match env c store objects_excluded run_on_new dynamic_processors)
       r cache deadline"

section \<open>The conditions without the clock\<close>

text \<open>The same loop over answers instead of calls.\<close>

primrec answers_loop ::
    "(condition \<Rightarrow> bool \<Rightarrow> event_match option option) \<Rightarrow> condition list \<Rightarrow> condition_cache \<Rightarrow> event_match list
     \<Rightarrow> (bool \<times> condition_cache \<times> event_match list) option" where
  "answers_loop answer [] cache ms = Some (True, cache, ms)"
| "answers_loop answer (c # cs) cache ms =
     (if cache (cond_ptr c) = Some True then answers_loop answer cs cache ms
      else do { r \<leftarrow> answer c (cache (cond_ptr c) \<noteq> None);
                (case r of
                   None \<Rightarrow> Some (False, cache(cond_ptr c \<mapsto> False), ms)
                 | Some m \<Rightarrow> answers_loop answer cs (cache(cond_ptr c \<mapsto> True)) (ms @ [m])) })"

text \<open>A call that answers as long as the deadline does not pass.\<close>

locale timely =
  fixes call :: condition_call
    and answer :: "condition \<Rightarrow> bool \<Rightarrow> event_match option option"
    and clock :: clock
  assumes in_time: "never_late clock dl \<Longrightarrow>
    \<exists>dl'. never_late clock dl' \<and> call c run_on_new dl = map_option (\<lambda>r. (Return r, dl')) (answer c run_on_new)"
begin

lemma loop_answers:
  "never_late clock dl \<Longrightarrow> \<exists>dl'. never_late clock dl' \<and>
     conditions_loop call cs cache ms dl =
       map_option (\<lambda>(b, cache', ms'). (Return b, cache', ms', dl')) (answers_loop answer cs cache ms)"
proof (induction cs arbitrary: cache ms dl)
  case (Cons c cs)
  show ?case
  proof (cases "cache (cond_ptr c) = Some True")
    case True
    then show ?thesis
      using Cons.IH [OF Cons.prems] by simp
  next
    case False
    obtain dl1 where dl1: "never_late clock dl1"
      "call c (cache (cond_ptr c) \<noteq> None) dl = map_option (\<lambda>r. (Return r, dl1)) (answer c (cache (cond_ptr c) \<noteq> None))"
      using in_time [OF Cons.prems] by blast
    have upd: "(if cache (cond_ptr c) \<noteq> None then cache else cache(cond_ptr c \<mapsto> False))(cond_ptr c \<mapsto> b) = cache(cond_ptr c \<mapsto> b)" for b
      by simp
    note loop = conditions_loop.simps(2) [of call c cs cache ms dl, unfolded Let_def dl1(2) upd]
      answers_loop.simps(2) [of answer c cs cache ms]
    show ?thesis
    proof (cases "answer c (cache (cond_ptr c) \<noteq> None)")
      case None
      then show ?thesis
        using False dl1(1) unfolding loop by auto
    next
      case (Some r)
      then show ?thesis
        using False dl1(1) Cons.IH [OF dl1(1)] unfolding loop by (cases r) auto
    qed
  qed
qed auto

lemma rule_answers:
  assumes "never_late clock dl"
  shows "\<exists>dl'. never_late clock dl' \<and>
    rule_match_with call r cache dl =
      (if cache_result cache then Some (Return None, cache, dl')
       else map_option (\<lambda>(b, conds, ms).
         let cache1 = cache\<lparr>cache_conditions := conds, cache_event := (cache_event cache)\<lparr>event_matches := ms\<rparr>\<rparr>;
             ev = complete_event r (cache_event cache1)
         in if b then (Return (Some ev), cache1\<lparr>cache_result := True, cache_event := ev\<lparr>event_actions := [], event_matches := []\<rparr>\<rparr>, dl')
            else (Return None, cache1, dl'))
         (answers_loop answer (conditions r) (cache_conditions cache) (event_matches (cache_event cache))))"
proof (cases "cache_result cache")
  case True
  then show ?thesis
    using assms by (auto simp: rule_match_with_def)
next
  case False
  obtain dl' where dl': "never_late clock dl'"
    "conditions_loop call (conditions r) (cache_conditions cache) (event_matches (cache_event cache)) dl =
       map_option (\<lambda>(b, cache', ms'). (Return b, cache', ms', dl'))
         (answers_loop answer (conditions r) (cache_conditions cache) (event_matches (cache_event cache)))"
    using loop_answers [OF assms] by blast
  show ?thesis
  proof (cases "answers_loop answer (conditions r) (cache_conditions cache) (event_matches (cache_event cache))")
    case None
    then show ?thesis
      using dl' False by (auto simp: rule_match_with_def)
  next
    case (Some x)
    then show ?thesis
      using dl' False by (cases x; cases "fst x") (auto simp: rule_match_with_def Let_def)
  qed
qed

end

interpretation condition_call: timely
  "\<lambda>c run_on_new. condition_match env c store excluded run_on_new dyn"
  "\<lambda>c run_on_new. condition_scan env dyn excluded store run_on_new c"
  "env_clock env"
  for env store excluded dyn
  by unfold_locales (rule condition_match_scan)

text \<open>The reference: every condition looks at all its targets.\<close>

interpretation full_call: timely
  "\<lambda>c run_on_new. condition_match env c store excluded False dyn"
  "\<lambda>c run_on_new. condition_scan env dyn excluded store False c"
  "env_clock env"
  for env store excluded dyn
  by unfold_locales (rule condition_match_scan)

section \<open>The cache is exact\<close>

text \<open>
  A condition that has found nothing in the objects of a store need only look at the new targets of
  the next one, when the others have kept their objects.
\<close>

lemma scan_new_targets:
  "scan env c p store excluded False ts = Some None \<Longrightarrow>
   \<forall>t. \<not> is_new_target store' t \<longrightarrow> get_target store' t = get_target store t \<Longrightarrow>
   scan env c p store' excluded True ts = scan env c p store' excluded False ts"
proof (induction ts)
  case (Cons t ts)
  have rest: "scan env c p store excluded False ts = Some None"
    using Cons.prems(1) by (auto split: option.splits bind_splits)
  have old: "scan_target env c p ob (key_path t) excluded = Some None" if "get_target store (root t) = Some ob" for ob
    using Cons.prems(1) that by (auto split: option.splits bind_splits)
  show ?case
  proof (cases "is_new_target store' (root t)")
    case True
    then show ?thesis
      unfolding scan.simps Cons.IH [OF rest Cons.prems(2)] by simp
  next
    case False
    then show ?thesis
      using Cons.IH [OF rest Cons.prems(2)] Cons.prems(2) old by (auto split: option.split)
  qed
qed simp

lemma condition_scan_new:
  assumes "condition_scan env dyn excluded store False c = Some None" "store_insert store input = (ok, store')"
  shows "condition_scan env dyn excluded store' True c = condition_scan env dyn excluded store' False c"
proof -
  have "\<forall>t. \<not> is_new_target store' t \<longrightarrow> get_target store' t = get_target store t"
    using store_insert_holds [OF assms(2)]
    by (simp add: is_new_target_def get_target_def map_add_def map_of_eq_None_iff [THEN iffD2] split: option.split)
  then show ?thesis
    using assms(1) scan_new_targets by (auto simp: condition_scan_def split: option.split)
qed

text \<open>
  The conditions are cached from the first on: the first one that is not known to hold may be known
  to fail, and nothing is known of the others.
\<close>

primrec in_order :: "condition list \<Rightarrow> condition_cache \<Rightarrow> bool" where
  "in_order [] cache \<longleftrightarrow> True"
| "in_order (c # cs) cache \<longleftrightarrow>
     (if cache (cond_ptr c) = Some True then in_order cs cache
      else \<forall>d \<in> set cs. cache (cond_ptr d) = Some False \<longrightarrow> cond_ptr d = cond_ptr c)"

lemma in_order_new: "\<forall>c \<in> set cs. cache (cond_ptr c) \<noteq> Some False \<Longrightarrow> in_order cs cache"
  by (induction cs) auto

text \<open>Every condition known to fail has nothing in the store.\<close>

definition failed_ok :: "(condition \<Rightarrow> event_match option option) \<Rightarrow> condition list \<Rightarrow> condition_cache \<Rightarrow> bool" where
  "failed_ok full cs cache \<longleftrightarrow> (\<forall>c \<in> set cs. cache (cond_ptr c) = Some False \<longrightarrow> full c = Some None)"

lemma answers_agree:
  assumes "\<forall>c \<in> set cs. cache (cond_ptr c) = Some False \<longrightarrow> answer c True = answer c False"
    and "inj_on cond_ptr (set cs)"
  shows "answers_loop answer cs cache ms = answers_loop (\<lambda>c _. answer c False) cs cache ms"
  using assms
proof (induction cs arbitrary: cache ms)
  case (Cons c cs)
  have first: "answer c (cache (cond_ptr c) \<noteq> None) = answer c False" if "cache (cond_ptr c) \<noteq> Some True"
    using Cons.prems(1) that by (cases "cache (cond_ptr c)") auto
  have IH: "answers_loop answer cs cache' ms' = answers_loop (\<lambda>c _. answer c False) cs cache' ms'"
    if "\<And>d. d \<in> set cs \<Longrightarrow> cache' (cond_ptr d) = Some False \<Longrightarrow> cache (cond_ptr d) = Some False" for cache' ms'
    using that Cons.prems by (intro Cons.IH) auto
  show ?case
  proof (cases "cache (cond_ptr c) = Some True")
    case True
    then show ?thesis
      using IH [of cache] by simp
  next
    case False
    have "answers_loop answer cs (cache(cond_ptr c \<mapsto> True)) ms' =
        answers_loop (\<lambda>c _. answer c False) cs (cache(cond_ptr c \<mapsto> True)) ms'" for ms'
      by (rule IH) (auto split: if_splits)
    then show ?thesis
      using first [OF False] False by (auto split: option.split bind_split)
  qed
qed simp

lemma answers_state:
  assumes "answers_loop (\<lambda>c _. full c) cs cache ms = Some (b, cache', ms')"
    and "in_order cs cache" "inj_on cond_ptr (set cs)"
  shows "in_order cs cache' \<and> failed_ok full cs cache' \<and>
    (\<forall>k. cache k = Some True \<longrightarrow> cache' k = Some True) \<and>
    (\<forall>k. k \<notin> cond_ptr ` set cs \<longrightarrow> cache' k = cache k)"
  using assms
proof (induction cs arbitrary: cache ms)
  case (Cons c cs)
  have inj: "inj_on cond_ptr (set cs)"
    using Cons.prems(3) by simp
  have other: "d = c" if "d \<in> set cs" "cond_ptr d = cond_ptr c" for d
    using Cons.prems(3) that by (auto simp: inj_on_def)
  show ?case
  proof (cases "cache (cond_ptr c) = Some True")
    case True
    then have run: "answers_loop (\<lambda>c _. full c) cs cache ms = Some (b, cache', ms')" "in_order cs cache"
      using Cons.prems(1,2) by simp_all
    from Cons.IH [OF this inj] have IH: "in_order cs cache'" "failed_ok full cs cache'"
      "\<forall>k. cache k = Some True \<longrightarrow> cache' k = Some True" "\<forall>k. k \<notin> cond_ptr ` set cs \<longrightarrow> cache' k = cache k"
      by - (elim conjE, assumption)+
    then have "cache' (cond_ptr c) = Some True"
      using True by simp
    with IH show ?thesis
      by (simp add: failed_ok_def)
  next
    case False
    with Cons.prems(1) obtain r where r: "full c = Some r"
      by (auto split: bind_splits)
    show ?thesis
    proof (cases r)
      case None
      then have c': "cache' = cache(cond_ptr c \<mapsto> False)"
        using Cons.prems(1) r False by simp
      have later: "cond_ptr d = cond_ptr c" if "d \<in> set cs" "cache' (cond_ptr d) = Some False" for d
        using that Cons.prems(2) False unfolding c' by (auto split: if_splits)
      have "full d = Some None" if "d \<in> set (c # cs)" "cache' (cond_ptr d) = Some False" for d
        using that r None other [OF _ later] by (cases "d = c") auto
      then have "failed_ok full (c # cs) cache'"
        by (simp add: failed_ok_def)
      moreover have first: "cache' (cond_ptr c) \<noteq> Some True"
        by (simp add: c')
      have "in_order (c # cs) cache'"
        unfolding in_order.simps if_not_P [OF first] by (intro ballI impI later)
      moreover have "\<forall>k. cache k = Some True \<longrightarrow> cache' k = Some True"
        using False by (simp add: c')
      moreover have "\<forall>k. k \<notin> cond_ptr ` set (c # cs) \<longrightarrow> cache' k = cache k"
        by (simp add: c')
      ultimately show ?thesis
        by - (intro conjI; assumption)
    next
      case (Some m)
      let ?cache = "cache(cond_ptr c \<mapsto> True)"
      have run: "answers_loop (\<lambda>c _. full c) cs ?cache (ms @ [m]) = Some (b, cache', ms')"
        using Cons.prems(1) r False Some by simp
      have "in_order cs ?cache"
        using Cons.prems(2) False by (intro in_order_new) auto
      from Cons.IH [OF run this inj] have IH: "in_order cs cache'" "failed_ok full cs cache'"
        "\<forall>k. ?cache k = Some True \<longrightarrow> cache' k = Some True" "\<forall>k. k \<notin> cond_ptr ` set cs \<longrightarrow> cache' k = ?cache k"
        by - (elim conjE, assumption)+
      then have "cache' (cond_ptr c) = Some True" "\<forall>k. cache k = Some True \<longrightarrow> cache' k = Some True"
        by simp_all
      with IH show ?thesis
        by (simp add: failed_ok_def)
    qed
  qed
qed (simp add: failed_ok_def)

text \<open>The answers of a rule to the batches of a context, each with its deadline.\<close>

primrec rule_history ::
    "(object_store \<Rightarrow> condition_call) \<Rightarrow> rule \<Rightarrow> object_store \<Rightarrow> rule_cache \<Rightarrow> (ddwaf_object \<times> timer) list
     \<Rightarrow> event option run list option" where
  "rule_history match_fn r store cache [] = Some []"
| "rule_history match_fn r store cache (batch # given) =
     (let store' = snd (store_insert store (fst batch)) in
      do { (res, cache', _) \<leftarrow> rule_match_with (match_fn store') r cache (snd batch);
           rest \<leftarrow> rule_history match_fn r store' cache' given;
           Some (res # rest) })"

abbreviation cached_calls :: "engine_env \<Rightarrow> addr set \<Rightarrow> (string \<Rightarrow> processor option) \<Rightarrow> object_store \<Rightarrow> condition_call" where
  "cached_calls env excluded dyn store \<equiv> (\<lambda>c run_on_new. condition_match env c store excluded run_on_new dyn)"

abbreviation full_calls :: "engine_env \<Rightarrow> addr set \<Rightarrow> (string \<Rightarrow> processor option) \<Rightarrow> object_store \<Rightarrow> condition_call" where
  "full_calls env excluded dyn store \<equiv> (\<lambda>c run_on_new. condition_match env c store excluded False dyn)"

definition rule_cache_ok :: "engine_env \<Rightarrow> addr set \<Rightarrow> (string \<Rightarrow> processor option) \<Rightarrow> rule \<Rightarrow> object_store \<Rightarrow> rule_cache \<Rightarrow> bool" where
  "rule_cache_ok env excluded dyn r store cache \<longleftrightarrow> cache_result cache \<or>
     in_order (conditions r) (cache_conditions cache) \<and>
     failed_ok (condition_scan env dyn excluded store False) (conditions r) (cache_conditions cache)"

lemma new_rule_cache_ok: "rule_cache_ok env excluded dyn r store new_rule_cache"
  by (simp add: rule_cache_ok_def new_rule_cache_def in_order_new failed_ok_def)

text \<open>One batch: both evaluations give the same answer and the same cache, which is right for the new store.\<close>

lemma rule_batch:
  assumes "rule_cache_ok env excluded dyn r store cache" "inj_on cond_ptr (set (conditions r))"
    and ins: "store_insert store input = (ok, store')"
    and late: "never_late (env_clock env) dl"
  shows "rel_option (\<lambda>(res, cache1, _) (res', cache1', _). res = res' \<and> cache1 = cache1' \<and>
      rule_cache_ok env excluded dyn r store' cache1)
    (rule_match_with (cached_calls env excluded dyn store') r cache dl)
    (rule_match_with (full_calls env excluded dyn store') r cache dl)"
proof -
  let ?answer = "\<lambda>c run_on_new. condition_scan env dyn excluded store' run_on_new c"
  let ?full = "\<lambda>c (_ :: bool). condition_scan env dyn excluded store' False c"
  let ?loop = "\<lambda>answer. answers_loop answer (conditions r) (cache_conditions cache) (event_matches (cache_event cache))"
  note m = condition_call.rule_answers [OF late, of store' excluded dyn r cache]
    full_call.rule_answers [OF late, of store' excluded dyn r cache]
  show ?thesis
  proof (cases "cache_result cache")
    case True
    then show ?thesis
      using m by (auto simp: rule_cache_ok_def)
  next
    case False
    then have old: "in_order (conditions r) (cache_conditions cache)"
      "failed_ok (condition_scan env dyn excluded store False) (conditions r) (cache_conditions cache)"
      using assms(1) by (simp_all add: rule_cache_ok_def)
    have "\<forall>c \<in> set (conditions r). cache_conditions cache (cond_ptr c) = Some False \<longrightarrow> ?answer c True = ?answer c False"
      using old(2) condition_scan_new [OF _ ins] by (auto simp: failed_ok_def)
    from answers_agree [OF this assms(2)] have agree: "?loop ?answer = ?loop ?full" .
    show ?thesis
    proof (cases "?loop ?full")
      case None
      then show ?thesis
        using m False by (auto simp: agree)
    next
      case (Some x)
      obtain b conds ms where x: "x = (b, conds, ms)"
        by (rule prod_cases3)
      from answers_state [OF Some [unfolded x] old(1) assms(2)]
      have "in_order (conditions r) conds" "failed_ok (condition_scan env dyn excluded store' False) (conditions r) conds"
        by - (elim conjE, assumption)+
      then show ?thesis
        using m False Some by (auto simp: agree x Let_def rule_cache_ok_def)
    qed
  qed
qed

text \<open>C3: The cache of a rule loses nothing: as long as no deadline passes, a rule answers to every
  batch of a context, whatever the batches are and bring again, as if it had looked at all the
  targets of every condition that has not matched yet, and not only at the new ones.\<close>

theorem rule_cache_exact:
  assumes "inj_on cond_ptr (set (conditions r))" "\<forall>(input, dl) \<in> set given. never_late (env_clock env) dl"
  shows "rule_history (cached_calls env excluded dyn) r (new_object_store m free_fn) new_rule_cache given =
    rule_history (full_calls env excluded dyn) r (new_object_store m free_fn) new_rule_cache given"
proof -
  have "rule_history (cached_calls env excluded dyn) r store cache given =
      rule_history (full_calls env excluded dyn) r store cache given"
    if "rule_cache_ok env excluded dyn r store cache" for store cache
    using assms(2) that
  proof (induction given arbitrary: store cache)
    case (Cons batch given)
    obtain input dl where batch: "batch = (input, dl)"
      by (rule prod.exhaust)
    obtain ok store' where ins: "store_insert store input = (ok, store')"
      by (rule prod.exhaust)
    have "never_late (env_clock env) dl" and rest: "\<forall>(input, dl) \<in> set given. never_late (env_clock env) dl"
      using Cons.prems(1) by (simp_all add: batch)
    from rule_batch [OF Cons.prems(2) assms(1) ins this(1)] show ?case
      by (cases rule: option.rel_cases) (auto simp: batch ins Cons.IH [OF rest])
  qed simp
  then show ?thesis
    using new_rule_cache_ok by blast
qed

definition sample_rule :: rule where
  "sample_rule = \<lparr>rule_ptr = 0, enabled = True, rule_id = ''r1'', rule_name = ''rule'', tags = [(''type'', ''attack'')],
     conditions = [sample_condition], actions = [''block'']\<rparr>"

theorem rule_cache_exact_witness:
  "rule_history (cached_calls sample_env {} Map.empty) sample_rule (new_object_store sample_manifest False) new_rule_cache
      [(sample_input ''good'', sample_timer), (sample_input ''evil'', sample_timer)] =
    rule_history (full_calls sample_env {} Map.empty) sample_rule (new_object_store sample_manifest False) new_rule_cache
      [(sample_input ''good'', sample_timer), (sample_input ''evil'', sample_timer)]"
  by (rule rule_cache_exact) (simp_all add: sample_rule_def sample_never_late)

end
