(* ===== verification/Exclusion.thy ===== *)
theory Exclusion
  imports Rule Object_Filter
begin

text \<open>
  The exclusion filters: rule filters (\<open>src/exclusion/rule_filter.hpp\<close>,
  \<open>src/exclusion/rule_filter.cpp\<close>) switch rules off, input filters
  (\<open>src/exclusion/input_filter.hpp\<close>, \<open>src/exclusion/input_filter.cpp\<close>) hide objects from rules.
  Rules are given by their pointers.
\<close>

section \<open>Rule filters\<close>

record rule_filter =
  rf_id :: string
  rf_conditions :: "condition list"
  rf_rule_targets :: "nat set"

record rule_filter_cache =
  rf_result :: bool
  rf_cache :: condition_cache

definition new_rule_filter_cache :: rule_filter_cache where
  "new_rule_filter_cache = \<lparr>rf_result = False, rf_cache = Map.empty\<rparr>"

text \<open>The filters call their conditions without exclusions and without dynamic processors.\<close>

abbreviation filter_calls :: "engine_env \<Rightarrow> object_store \<Rightarrow> condition_call" where
  "filter_calls env store \<equiv> (\<lambda>c run_on_new. condition_match env c store {} run_on_new (\<lambda>_. None))"

definition rule_filter_match ::
    "engine_env \<Rightarrow> rule_filter \<Rightarrow> object_store \<Rightarrow> rule_filter_cache \<Rightarrow> timer
     \<Rightarrow> (nat set run \<times> rule_filter_cache \<times> timer) option" where
  "rule_filter_match env f store cache deadline =
     (if rf_result cache then Some (Return {}, cache, deadline)
      else do {
        (res, conds, _, deadline') \<leftarrow> conditions_loop (filter_calls env store) (rf_conditions f) (rf_cache cache) [] deadline;
        let cache1 = cache\<lparr>rf_cache := conds\<rparr>
        in (case res of
              Timeout_Exception \<Rightarrow> Some (Timeout_Exception, cache1, deadline')
            | Return False \<Rightarrow> Some (Return {}, cache1, deadline')
            | Return True \<Rightarrow> Some (Return (rf_rule_targets f), cache1\<lparr>rf_result := True\<rparr>, deadline')) })"

section \<open>Input filters\<close>

record input_filter =
  if_id :: string
  if_conditions :: "condition list"
  if_rule_targets :: "nat set"
  if_filter :: object_filter

record input_filter_cache =
  if_result :: bool
  if_cache :: condition_cache
  object_filter_cache :: filter_cache

definition new_input_filter_cache :: input_filter_cache where
  "new_input_filter_cache = \<lparr>if_result = False, if_cache = Map.empty, object_filter_cache = {}\<rparr>"

record excluded_set =
  excluded_rules :: "nat set"
  excluded_objects :: "addr set"

text \<open>What follows the conditions: the objects of the filter.\<close>

definition input_filter_objects ::
    "engine_env \<Rightarrow> input_filter \<Rightarrow> object_store \<Rightarrow> input_filter_cache \<Rightarrow> timer
     \<Rightarrow> excluded_set option run \<times> input_filter_cache \<times> timer" where
  "input_filter_objects env f store cache deadline =
     (let (res, ofc, deadline') = filter_match (env_clock env) (if_filter f) store (object_filter_cache cache) deadline;
          cache1 = cache\<lparr>object_filter_cache := ofc\<rparr>
      in case res of
           Timeout_Exception \<Rightarrow> (Timeout_Exception, cache1, deadline')
         | Return objs \<Rightarrow>
             (if Set.is_empty objs then (Return None, cache1, deadline')
              else (Return (Some \<lparr>excluded_rules = if_rule_targets f, excluded_objects = objs\<rparr>), cache1, deadline')))"

definition input_filter_match ::
    "engine_env \<Rightarrow> input_filter \<Rightarrow> object_store \<Rightarrow> input_filter_cache \<Rightarrow> timer
     \<Rightarrow> (excluded_set option run \<times> input_filter_cache \<times> timer) option" where
  "input_filter_match env f store cache deadline =
     (if if_result cache then Some (input_filter_objects env f store cache deadline)
      else do {
        (res, conds, _, deadline') \<leftarrow> conditions_loop (filter_calls env store) (if_conditions f) (if_cache cache) [] deadline;
        let cache1 = cache\<lparr>if_cache := conds\<rparr>
        in (case res of
              Timeout_Exception \<Rightarrow> Some (Timeout_Exception, cache1, deadline')
            | Return False \<Rightarrow> Some (Return None, cache1, deadline')
            | Return True \<Rightarrow> Some (input_filter_objects env f store (cache1\<lparr>if_result := True\<rparr>) deadline')) })"

end
