(* ===== verification/Collection.thy ===== *)
theory Collection
  imports Rule
begin

text \<open>
  Collections of rules of one type (\<open>src/collection.hpp\<close>, \<open>src/collection.cpp\<close>): a regular
  collection stops at the first rule that gives an event, a priority collection once all its
  actions have been seen.
\<close>

section \<open>The code\<close>

text \<open>Caches and exclusions are by the pointer of the rule.\<close>

record collection_cache =
  coll_result :: bool
  rule_caches :: "nat \<rightharpoonup> rule_cache"
  remaining_actions :: "string set"

record priority_collection =
  prio_rules :: "rule list"
  prio_actions :: "string set"

text \<open>A regular collection is its list of rules.\<close>

definition collection_insert :: "rule \<Rightarrow> rule list \<Rightarrow> rule list" where
  "collection_insert r rs = rs @ [r]"

definition priority_insert :: "rule \<Rightarrow> priority_collection \<Rightarrow> priority_collection" where
  "priority_insert r pc = \<lparr>prio_rules = prio_rules pc @ [r], prio_actions = prio_actions pc \<union> set (actions r)\<rparr>"

definition collection_get_cache :: collection_cache where
  "collection_get_cache = \<lparr>coll_result = False, rule_caches = Map.empty, remaining_actions = {}\<rparr>"

definition priority_get_cache :: "priority_collection \<Rightarrow> collection_cache" where
  "priority_get_cache pc = \<lparr>coll_result = False, rule_caches = Map.empty, remaining_actions = prio_actions pc\<rparr>"

text \<open>What a collection gets from the context: rules and objects left out, and dynamic processors.\<close>

record evaluation =
  ev_env :: engine_env
  ev_store :: object_store
  rules_excluded :: "nat set"
  objects_excluded :: "nat \<rightharpoonup> addr set"
  ev_processors :: "string \<Rightarrow> processor option"

definition match_rule ::
    "evaluation \<Rightarrow> rule \<Rightarrow> (nat \<rightharpoonup> rule_cache) \<Rightarrow> timer \<Rightarrow> (event option run \<times> (nat \<rightharpoonup> rule_cache) \<times> timer) option" where
  "match_rule ev r caches deadline =
     (let (late, deadline') = expired (env_clock (ev_env ev)) deadline in
      if late then Some (Timeout_Exception, caches, deadline')
      else if \<not> enabled r then Some (Return None, caches, deadline')
      else if rule_ptr r \<in> rules_excluded ev then Some (Return None, caches, deadline')
      else let cache = (case caches (rule_ptr r) of None \<Rightarrow> new_rule_cache | Some c \<Rightarrow> c);
               excluded = (case objects_excluded ev (rule_ptr r) of None \<Rightarrow> {} | Some objs \<Rightarrow> objs) in
        do { (res, cache', deadline'') \<leftarrow>
               rule_match (ev_env ev) r (ev_store ev) cache excluded (ev_processors ev) deadline';
             Some (res, caches(rule_ptr r \<mapsto> cache'), deadline'') })"

text \<open>
  The vector of events, the cache and the timer are references, so that they come back whether an
  exception is thrown or not.
\<close>

type_synonym collection_outcome = "unit run \<times> event list \<times> collection_cache \<times> timer"

primrec collection_rules ::
    "evaluation \<Rightarrow> rule list \<Rightarrow> event list \<Rightarrow> collection_cache \<Rightarrow> timer \<Rightarrow> collection_outcome option" where
  "collection_rules ev [] events cache deadline = Some (Return (), events, cache, deadline)"
| "collection_rules ev (r # rs) events cache deadline =
     do { (res, caches, deadline') \<leftarrow> match_rule ev r (rule_caches cache) deadline;
          let cache1 = cache\<lparr>rule_caches := caches\<rparr>
          in (case res of
                Timeout_Exception \<Rightarrow> Some (Timeout_Exception, events, cache1, deadline')
              | Return None \<Rightarrow> collection_rules ev rs events cache1 deadline'
              | Return (Some e) \<Rightarrow> Some (Return (), events @ [e], cache1\<lparr>coll_result := True\<rparr>, deadline')) }"

definition collection_match ::
    "evaluation \<Rightarrow> rule list \<Rightarrow> event list \<Rightarrow> collection_cache \<Rightarrow> timer \<Rightarrow> collection_outcome option" where
  "collection_match ev rs events cache deadline =
     (if coll_result cache then Some (Return (), events, cache, deadline)
      else collection_rules ev rs events cache deadline)"

text \<open>The actions of an event: those that remain are seen now.\<close>

primrec take_actions :: "string list \<Rightarrow> string set \<Rightarrow> string set \<Rightarrow> string set \<times> string set" where
  "take_actions [] remaining seen = (remaining, seen)"
| "take_actions (a # as) remaining seen =
     (if a \<in> remaining then take_actions as (remaining - {a}) (insert a seen) else take_actions as remaining seen)"

type_synonym priority_outcome = "unit run \<times> event list \<times> string set \<times> collection_cache \<times> timer"

primrec priority_rules ::
    "evaluation \<Rightarrow> rule list \<Rightarrow> event list \<Rightarrow> string set \<Rightarrow> collection_cache \<Rightarrow> timer \<Rightarrow> priority_outcome option" where
  "priority_rules ev [] events seen cache deadline = Some (Return (), events, seen, cache, deadline)"
| "priority_rules ev (r # rs) events seen cache deadline =
     do { (res, caches, deadline') \<leftarrow> match_rule ev r (rule_caches cache) deadline;
          let cache1 = cache\<lparr>rule_caches := caches\<rparr>
          in (case res of
                Timeout_Exception \<Rightarrow> Some (Timeout_Exception, events, seen, cache1, deadline')
              | Return None \<Rightarrow> priority_rules ev rs events seen cache1 deadline'
              | Return (Some e) \<Rightarrow>
                  (let (remaining, seen') = take_actions (event_actions e) (remaining_actions cache1) seen;
                       cache2 = cache1\<lparr>coll_result := True, remaining_actions := remaining\<rparr>
                   in if Set.is_empty remaining then Some (Return (), events @ [e], seen', cache2, deadline')
                      else priority_rules ev rs (events @ [e]) seen' cache2 deadline')) }"

definition priority_match ::
    "evaluation \<Rightarrow> priority_collection \<Rightarrow> event list \<Rightarrow> string set \<Rightarrow> collection_cache \<Rightarrow> timer \<Rightarrow> priority_outcome option" where
  "priority_match ev pc events seen cache deadline =
     (let cache1 = cache\<lparr>remaining_actions := remaining_actions cache - seen\<rparr> in
      if Set.is_empty (remaining_actions cache1) then
        map_option (\<lambda>(res, events', cache', deadline'). (res, events', seen, cache', deadline'))
          (collection_match ev (prio_rules pc) events cache1 deadline)
      else priority_rules ev (prio_rules pc) events seen cache1 deadline)"

section \<open>Every rule gives its event once\<close>

text \<open>
  Steps that each report some keys that had not been reported: \<open>gains reported new reported'\<close>.
\<close>

definition gains :: "'k set \<Rightarrow> ('k \<times> 'e) list \<Rightarrow> 'k set \<Rightarrow> bool" where
  "gains F new F' \<longleftrightarrow> F \<subseteq> F' \<and> distinct (map fst new) \<and> fst ` set new \<subseteq> F' - F"

lemma gains_none: "gains F [] F"
  by (simp add: gains_def)

lemma gains_one: "k \<notin> F \<Longrightarrow> F' = insert k F \<Longrightarrow> gains F [(k, e)] F'"
  by (auto simp: gains_def)

lemma gains_append:
  assumes "gains F new1 F1" "gains F1 new2 F2"
  shows "gains F (new1 @ new2) F2"
proof -
  have sub: "F \<subseteq> F1" "F1 \<subseteq> F2" "fst ` set new1 \<subseteq> F1 - F" "fst ` set new2 \<subseteq> F2 - F1"
    using assms by (simp_all add: gains_def)
  then have "fst ` set new1 \<inter> fst ` set new2 = {}" "fst ` set new1 \<union> fst ` set new2 \<subseteq> F2 - F" "F \<subseteq> F2"
    by blast+
  then show ?thesis
    using assms by (simp add: gains_def image_Un)
qed

text \<open>The rules of a cache that have given their event.\<close>

definition fired_in :: "(nat \<rightharpoonup> rule_cache) \<Rightarrow> nat set" where
  "fired_in caches = {p. \<exists>c. caches p = Some c \<and> cache_result c}"

text \<open>An event comes from a rule that may run.\<close>

definition event_of :: "evaluation \<Rightarrow> rule \<Rightarrow> event \<Rightarrow> bool" where
  "event_of ev r e \<longleftrightarrow> enabled r \<and> rule_ptr r \<notin> rules_excluded ev \<and> event_id e = rule_id r"

lemma rule_match_result:
  assumes "rule_match env r store cache excluded dyn dl = Some (res, cache', dl')"
  shows "(case res of
      Return (Some e) \<Rightarrow> \<not> cache_result cache \<and> cache_result cache' \<and> event_id e = rule_id r
    | _ \<Rightarrow> cache_result cache' = cache_result cache)"
  using assms
  by (auto simp: rule_match_def rule_match_with_def Let_def complete_event_def
      split: if_splits bind_splits run.splits bool.splits)

lemma match_rule_result:
  assumes "match_rule ev r caches dl = Some (res, caches', dl')"
  shows "case res of
      Return (Some e) \<Rightarrow> rule_ptr r \<notin> fired_in caches \<and> fired_in caches' = insert (rule_ptr r) (fired_in caches) \<and> event_of ev r e
    | _ \<Rightarrow> fired_in caches' = fired_in caches"
proof (cases "\<exists>c c' dl1 excluded. caches' = caches(rule_ptr r \<mapsto> c') \<and> enabled r \<and> rule_ptr r \<notin> rules_excluded ev \<and>
    c = (case caches (rule_ptr r) of None \<Rightarrow> new_rule_cache | Some c \<Rightarrow> c) \<and>
    rule_match (ev_env ev) r (ev_store ev) c excluded (ev_processors ev) dl1 = Some (res, c', dl')")
  case True
  then obtain c c' dl1 excluded where c: "caches' = caches(rule_ptr r \<mapsto> c')" "enabled r" "rule_ptr r \<notin> rules_excluded ev"
    "c = (case caches (rule_ptr r) of None \<Rightarrow> new_rule_cache | Some c \<Rightarrow> c)"
    "rule_match (ev_env ev) r (ev_store ev) c excluded (ev_processors ev) dl1 = Some (res, c', dl')"
    by (elim exE conjE) (rule that)
  have before: "rule_ptr r \<in> fired_in caches \<longleftrightarrow> cache_result c"
    unfolding c(4) by (simp add: fired_in_def new_rule_cache_def split: option.split)
  have after: "fired_in caches' = (if cache_result c' then insert (rule_ptr r) (fired_in caches) else fired_in caches - {rule_ptr r})"
    unfolding c(1) by (auto simp: fired_in_def)
  show ?thesis
    using rule_match_result [OF c(5)] before c(2,3) unfolding after
    by (auto simp: event_of_def split: run.splits option.splits)
next
  case False
  then have "caches' = caches" "res = Timeout_Exception \<or> res = Return None"
    using assms by (auto simp: match_rule_def Let_def split: prod.splits if_splits bind_splits)
  then show ?thesis
    by auto
qed

text \<open>What the rules of a collection report, with their pointers.\<close>

definition reports_of :: "evaluation \<Rightarrow> rule list \<Rightarrow> (nat \<times> event) list \<Rightarrow> bool" where
  "reports_of ev rs new \<longleftrightarrow> (\<forall>(p, e) \<in> set new. \<exists>r \<in> set rs. rule_ptr r = p \<and> event_of ev r e)"

lemma collection_rules_gains:
  "collection_rules ev rs events cache dl = Some (res, events', cache', dl') \<Longrightarrow>
   \<exists>new. events' = events @ map snd new \<and> length new \<le> 1 \<and> (new \<noteq> [] \<longrightarrow> coll_result cache') \<and>
     (new = [] \<longrightarrow> coll_result cache' = coll_result cache) \<and> reports_of ev rs new \<and>
     gains (fired_in (rule_caches cache)) new (fired_in (rule_caches cache'))"
proof (induction rs arbitrary: cache dl)
  case Nil
  then show ?case
    by (auto simp: gains_none reports_of_def)
next
  case (Cons r rs)
  obtain res1 caches1 dl1 where m: "match_rule ev r (rule_caches cache) dl = Some (res1, caches1, dl1)"
    using Cons.prems by (auto split: bind_splits)
  note f = match_rule_result [OF m]
  let ?cache = "cache\<lparr>rule_caches := caches1\<rparr>"
  show ?case
  proof (cases "\<exists>e. res1 = Return (Some e)")
    case True
    then obtain e where e: "res1 = Return (Some e)"
      by blast
    then have "events' = events @ [e]" "cache' = ?cache\<lparr>coll_result := True\<rparr>"
      using Cons.prems m by simp_all
    then show ?thesis
      using f e by (intro exI [of _ "[(rule_ptr r, e)]"]) (simp add: reports_of_def gains_one)
  next
    case False
    then have same: "fired_in caches1 = fired_in (rule_caches cache)"
      using f by (auto split: run.splits option.splits)
    show ?thesis
    proof (cases "res1 = Timeout_Exception")
      case True
      then show ?thesis
        using Cons.prems m same by (intro exI [of _ "[]"]) (auto simp: gains_none reports_of_def)
    next
      case False
      with \<open>\<nexists>e. _\<close> have "res1 = Return None"
        by (cases res1) auto
      then have "collection_rules ev rs events ?cache dl1 = Some (res, events', cache', dl')"
        using Cons.prems m by simp
      from Cons.IH [OF this] same show ?thesis
        by (auto simp: reports_of_def)
    qed
  qed
qed

lemma collection_match_gains:
  assumes "collection_match ev rs events cache dl = Some (res, events', cache', dl')"
  shows "\<exists>new. events' = events @ map snd new \<and> length new \<le> 1 \<and> (new \<noteq> [] \<longrightarrow> \<not> coll_result cache \<and> coll_result cache') \<and>
    (coll_result cache \<longrightarrow> coll_result cache') \<and> reports_of ev rs new \<and>
    gains (fired_in (rule_caches cache)) new (fired_in (rule_caches cache'))"
proof (cases "coll_result cache")
  case True
  then show ?thesis
    using assms by (intro exI [of _ "[]"]) (simp add: collection_match_def gains_none reports_of_def)
next
  case False
  then show ?thesis
    using assms collection_rules_gains [of ev rs events cache dl] by (auto simp: collection_match_def)
qed

lemma priority_rules_gains:
  "priority_rules ev rs events seen cache dl = Some (res, events', seen', cache', dl') \<Longrightarrow>
   \<exists>new. events' = events @ map snd new \<and> reports_of ev rs new \<and>
     gains (fired_in (rule_caches cache)) new (fired_in (rule_caches cache'))"
proof (induction rs arbitrary: events seen cache dl)
  case Nil
  then show ?case
    by (auto simp: gains_none reports_of_def)
next
  case (Cons r rs)
  obtain res1 caches1 dl1 where m: "match_rule ev r (rule_caches cache) dl = Some (res1, caches1, dl1)"
    using Cons.prems by (auto split: bind_splits)
  note f = match_rule_result [OF m]
  let ?cache = "cache\<lparr>rule_caches := caches1\<rparr>"
  show ?case
  proof (cases "\<exists>e. res1 = Return (Some e)")
    case True
    then obtain e where e: "res1 = Return (Some e)"
      by blast
    obtain remaining seen1 where t: "take_actions (event_actions e) (remaining_actions ?cache) seen = (remaining, seen1)"
      by (rule prod.exhaust)
    let ?cache2 = "?cache\<lparr>coll_result := True, remaining_actions := remaining\<rparr>"
    have one: "gains (fired_in (rule_caches cache)) [(rule_ptr r, e)] (fired_in (rule_caches ?cache2))"
      using f e by (simp add: gains_one)
    show ?thesis
    proof (cases "Set.is_empty remaining")
      case True
      then have "events' = events @ [e]" "cache' = ?cache2"
        using Cons.prems m e t by simp_all
      then show ?thesis
        using one f e by (intro exI [of _ "[(rule_ptr r, e)]"]) (simp add: reports_of_def)
    next
      case False
      then have "priority_rules ev rs (events @ [e]) seen1 ?cache2 dl1 = Some (res, events', seen', cache', dl')"
        using Cons.prems m e t by simp
      from Cons.IH [OF this] obtain new where new: "events' = (events @ [e]) @ map snd new" "reports_of ev rs new"
        "gains (fired_in (rule_caches ?cache2)) new (fired_in (rule_caches cache'))"
        by (elim exE conjE) (rule that)
      then show ?thesis
        using gains_append [OF one new(3)] f e
        by (intro exI [of _ "(rule_ptr r, e) # new"]) (auto simp: reports_of_def)
    qed
  next
    case False
    then have same: "fired_in caches1 = fired_in (rule_caches cache)"
      using f by (auto split: run.splits option.splits)
    show ?thesis
    proof (cases "res1 = Timeout_Exception")
      case True
      then show ?thesis
        using Cons.prems m same by (intro exI [of _ "[]"]) (auto simp: gains_none reports_of_def)
    next
      case False
      with \<open>\<nexists>e. _\<close> have "res1 = Return None"
        by (cases res1) auto
      then have "priority_rules ev rs events seen ?cache dl1 = Some (res, events', seen', cache', dl')"
        using Cons.prems m by simp
      from Cons.IH [OF this] same show ?thesis
        by (auto simp: reports_of_def)
    qed
  qed
qed

lemma priority_match_gains:
  assumes "priority_match ev pc events seen cache dl = Some (res, events', seen', cache', dl')"
  shows "\<exists>new. events' = events @ map snd new \<and> reports_of ev (prio_rules pc) new \<and>
    gains (fired_in (rule_caches cache)) new (fired_in (rule_caches cache'))"
proof -
  let ?cache = "cache\<lparr>remaining_actions := remaining_actions cache - seen\<rparr>"
  show ?thesis
  proof (cases "Set.is_empty (remaining_actions ?cache)")
    case True
    then have "collection_match ev (prio_rules pc) events ?cache dl = Some (res, events', cache', dl')"
      using assms by (auto simp: priority_match_def Let_def)
    from collection_match_gains [OF this] show ?thesis
      by auto
  next
    case False
    then have "priority_rules ev (prio_rules pc) events seen ?cache dl = Some (res, events', seen', cache', dl')"
      using assms by (simp add: priority_match_def Let_def)
    from priority_rules_gains [OF this] show ?thesis
      by simp
  qed
qed

end
