(* ===== verification/Event.thy ===== *)
theory Event
  imports Rule
begin

text \<open>
  The obfuscator (\<open>src/obfuscator.hpp\<close>, \<open>src/obfuscator.cpp\<close>) and the report of the events of a
  run (\<open>event_serializer\<close> in \<open>src/event.hpp\<close>, \<open>src/event.cpp\<close>). RE2 is the parameter it is for the
  operators, and the writer of the JSON library is a parameter.
\<close>

section \<open>The obfuscator\<close>

text \<open>The patterns of the two regular expressions, when there are any.\<close>

record obfuscator =
  key_regex :: "string option"
  value_regex :: "string option"

definition redaction_msg :: string where
  "redaction_msg = ''<Redacted>''"

definition default_key_regex_str :: string where
  "default_key_regex_str = ''(p(ass)?w(or)?d|pass(_?phrase)?|secret|(api_?|private_?|public_?)key)|token|consumer_?(id|key|secret)|sign(ed|ature)|bearer|authorization''"

definition new_obfuscator :: "libs \<Rightarrow> string \<Rightarrow> string \<Rightarrow> processor_error + obfuscator" where
  "new_obfuscator env key_regex_str value_regex_str =
     (if key_regex_str \<noteq> [] \<and> \<not> re2_ok env key_regex_str False \<and> \<not> re2_ok env default_key_regex_str False
      then Inl Runtime_Error
      else Inr \<lparr>key_regex = (if key_regex_str = [] then None
                              else if re2_ok env key_regex_str False then Some key_regex_str
                              else Some default_key_regex_str),
                value_regex = (if value_regex_str = [] then None else Some value_regex_str)\<rparr>)"

text \<open>An expression that is not well formed matches nothing.\<close>

definition regex_matches :: "libs \<Rightarrow> string \<Rightarrow> string \<Rightarrow> bool" where
  "regex_matches env regex val \<longleftrightarrow> re2_ok env regex False \<and> re2_match env regex False val \<noteq> None"

definition is_sensitive_key :: "libs \<Rightarrow> obfuscator \<Rightarrow> string \<Rightarrow> bool" where
  "is_sensitive_key env ob key = (case key_regex ob of None \<Rightarrow> False | Some regex \<Rightarrow> regex_matches env regex key)"

definition is_sensitive_value :: "libs \<Rightarrow> obfuscator \<Rightarrow> string \<Rightarrow> bool" where
  "is_sensitive_value env ob val = (case value_regex ob of None \<Rightarrow> False | Some regex \<Rightarrow> regex_matches env regex val)"

section \<open>The report\<close>

datatype json = J_String string | J_Array "json list" | J_Object "(string \<times> json) list"

definition redact_match :: "libs \<Rightarrow> obfuscator \<Rightarrow> event_match \<Rightarrow> bool" where
  "redact_match env ob m \<longleftrightarrow>
     list_ex (is_sensitive_key env ob) (match_key_path m) \<or>
     is_sensitive_value env ob (resolved m) \<or> is_sensitive_value env ob (matched m)"

definition serialize_match :: "event_match \<Rightarrow> bool \<Rightarrow> json" where
  "serialize_match m redact =
     (let key_path = J_Array (map J_String (match_key_path m));
          highlight = J_Array (if matched m \<noteq> [] then [J_String (if redact then redaction_msg else matched m)] else []);
          param = J_Object [(''address'', J_String (match_source m)), (''key_path'', key_path),
            (''value'', J_String (if redact then redaction_msg else resolved m)), (''highlight'', highlight)]
      in J_Object [(''operator'', J_String (operator_name m)), (''operator_value'', J_String (operator_value m)),
           (''parameters'', J_Array [param])])"

definition serialize_event :: "libs \<Rightarrow> obfuscator \<Rightarrow> event \<Rightarrow> json" where
  "serialize_event env ob ev =
     (let event_tags = J_Object [(''type'', J_String (event_type ev)), (''category'', J_String (event_category ev))];
          rule = J_Object ([(''id'', J_String (event_id ev)), (''name'', J_String (event_name ev)), (''tags'', event_tags)] @
            (if event_actions ev \<noteq> [] then [(''on_match'', J_Array (map J_String (event_actions ev)))] else []));
          match_array = J_Array (map (\<lambda>m. serialize_match m (redact_match env ob m)) (event_matches ev))
      in J_Object [(''rule'', rule), (''rule_matches'', match_array)])"

text \<open>
  The result of a run. The array of actions lists a hash set, in an unspecified order: the set
  stands for it, and no set for the null pointer.
\<close>

record ddwaf_result =
  result_timeout :: bool
  result_data :: "string option"
  result_actions :: "string set option"
  total_runtime :: u64

definition zero_result :: ddwaf_result where
  "zero_result = \<lparr>result_timeout = False, result_data = None, result_actions = None, total_runtime = 0\<rparr>"

definition serialize_events ::
    "libs \<Rightarrow> (json \<Rightarrow> string option) \<Rightarrow> obfuscator \<Rightarrow> event list \<Rightarrow> string set \<Rightarrow> ddwaf_result \<Rightarrow> ddwaf_result" where
  "serialize_events env write_json ob evs acts output =
     (let out1 = output\<lparr>result_data := None, result_actions := None\<rparr> in
      if evs \<noteq> [] then
        out1\<lparr>result_data := write_json (J_Array (map (serialize_event env ob) evs)),
             result_actions := (if \<not> Set.is_empty acts then Some acts else None)\<rparr>
      else out1)"

end
