(* ===== verification/Ruleset.thy ===== *)
theory Ruleset
  imports Exclusion Collection Event
begin

text \<open>
  The set of rules that a context evaluates (\<open>src/ruleset.hpp\<close>). The hash maps are lists of
  entries: their order stands for the unspecified order of the iteration.
\<close>

record ruleset =
  rs_free_fn :: bool
  event_obfuscator :: obfuscator
  rs_manifest :: manifest
  rule_filters :: "(string \<times> rule_filter) list"
  input_filters :: "(string \<times> input_filter) list"
  rules :: "(string \<times> rule) list"
  rs_dynamic_processors :: "(string \<times> processor) list"
  priority_collections :: "(string \<times> priority_collection) list"
  collections :: "(string \<times> rule list) list"

text \<open>\<open>collections[type].insert(rule)\<close>: the operator makes an empty collection when there is none.\<close>

definition insert_in :: "'v \<Rightarrow> ('v \<Rightarrow> 'v) \<Rightarrow> string \<Rightarrow> (string \<times> 'v) list \<Rightarrow> (string \<times> 'v) list" where
  "insert_in empty_v f k m = AList.update k (f (case map_of m k of None \<Rightarrow> empty_v | Some v \<Rightarrow> v)) m"

definition file_rule :: "rule \<Rightarrow> ruleset \<Rightarrow> ruleset" where
  "file_rule r rs =
     (if actions r = [] then rs\<lparr>collections := insert_in [] (collection_insert r) (get_tag r ''type'') (collections rs)\<rparr>
      else rs\<lparr>priority_collections :=
        insert_in \<lparr>prio_rules = [], prio_actions = {}\<rparr> (priority_insert r) (get_tag r ''type'') (priority_collections rs)\<rparr>)"

definition insert_rule :: "rule \<Rightarrow> ruleset \<Rightarrow> ruleset" where
  "insert_rule r rs = file_rule r (rs\<lparr>rules := emplace (rule_id r) r (rules rs)\<rparr>)"

definition insert_rules :: "(string \<times> rule) list \<Rightarrow> ruleset \<Rightarrow> ruleset" where
  "insert_rules new_rules rs = fold (\<lambda>(i, r). file_rule r) new_rules (rs\<lparr>rules := new_rules\<rparr>)"

definition empty_ruleset :: "obfuscator \<Rightarrow> ruleset" where
  "empty_ruleset ob = \<lparr>rs_free_fn = True, event_obfuscator = ob, rs_manifest = empty_manifest, rule_filters = [],
     input_filters = [], rules = [], rs_dynamic_processors = [], priority_collections = [], collections = []\<rparr>"

end
