(* ===== verification/Context.thy ===== *)
theory Context
  imports Ruleset
begin

text \<open>
  The context of a request (\<open>src/context.hpp\<close>, \<open>src/context.cpp\<close>): the objects given so far, the
  caches of filters and collections, and a run over a new batch.
\<close>

section \<open>The code\<close>

record waf_context =
  ctx_ruleset :: ruleset
  ctx_store :: object_store
  rule_filter_caches :: "string \<rightharpoonup> rule_filter_cache"
  input_filter_caches :: "string \<rightharpoonup> input_filter_cache"
  rules_to_exclude :: "nat set"
  objects_to_exclude :: "nat \<rightharpoonup> addr set"
  collection_caches :: "(string \<times> collection_cache) list"
  seen_actions :: "string set"

definition new_context :: "ruleset \<Rightarrow> waf_context" where
  "new_context rs = \<lparr>ctx_ruleset = rs, ctx_store = new_object_store (rs_manifest rs) (rs_free_fn rs),
     rule_filter_caches = Map.empty, input_filter_caches = Map.empty, rules_to_exclude = {},
     objects_to_exclude = Map.empty, collection_caches = [], seen_actions = {}\<rparr>"

definition is_first_run :: "waf_context \<Rightarrow> bool" where
  "is_first_run ctx \<longleftrightarrow> collection_caches ctx = []"

text \<open>The members are changed in place, so that a context comes back from an exception as well.\<close>

primrec filter_rules_loop ::
    "engine_env \<Rightarrow> (string \<times> rule_filter) list \<Rightarrow> waf_context \<Rightarrow> timer \<Rightarrow> (unit run \<times> waf_context \<times> timer) option" where
  "filter_rules_loop env [] ctx deadline = Some (Return (), ctx, deadline)"
| "filter_rules_loop env (entry # rest) ctx deadline =
     (let (i, f) = entry; (late, deadline') = expired (env_clock env) deadline in
      if late then Some (Timeout_Exception, ctx, deadline')
      else let cache = (case rule_filter_caches ctx i of None \<Rightarrow> new_rule_filter_cache | Some c \<Rightarrow> c) in
        do { (res, cache', deadline'') \<leftarrow> rule_filter_match env f (ctx_store ctx) cache deadline';
             let ctx1 = ctx\<lparr>rule_filter_caches := (rule_filter_caches ctx)(i \<mapsto> cache')\<rparr>
             in (case res of
                   Timeout_Exception \<Rightarrow> Some (Timeout_Exception, ctx1, deadline'')
                 | Return exclusion \<Rightarrow>
                     filter_rules_loop env rest (ctx1\<lparr>rules_to_exclude := rules_to_exclude ctx1 \<union> exclusion\<rparr>) deadline'') })"

definition filter_rules :: "engine_env \<Rightarrow> waf_context \<Rightarrow> timer \<Rightarrow> (unit run \<times> waf_context \<times> timer) option" where
  "filter_rules env ctx deadline = filter_rules_loop env (rule_filters (ctx_ruleset ctx)) ctx deadline"

text \<open>The objects of one filter, for all its rules that are not left out altogether.\<close>

definition add_exclusion :: "excluded_set \<Rightarrow> nat set \<Rightarrow> (nat \<rightharpoonup> addr set) \<Rightarrow> (nat \<rightharpoonup> addr set)" where
  "add_exclusion exclusion left_out objs = (\<lambda>r.
     if r \<in> excluded_rules exclusion \<and> r \<notin> left_out
     then Some ((case objs r of None \<Rightarrow> {} | Some o' \<Rightarrow> o') \<union> excluded_objects exclusion)
     else objs r)"

primrec filter_inputs_loop ::
    "engine_env \<Rightarrow> (string \<times> input_filter) list \<Rightarrow> waf_context \<Rightarrow> timer \<Rightarrow> (unit run \<times> waf_context \<times> timer) option" where
  "filter_inputs_loop env [] ctx deadline = Some (Return (), ctx, deadline)"
| "filter_inputs_loop env (entry # rest) ctx deadline =
     (let (i, f) = entry; (late, deadline') = expired (env_clock env) deadline in
      if late then Some (Timeout_Exception, ctx, deadline')
      else let cache = (case input_filter_caches ctx i of None \<Rightarrow> new_input_filter_cache | Some c \<Rightarrow> c) in
        do { (res, cache', deadline'') \<leftarrow> input_filter_match env f (ctx_store ctx) cache deadline';
             let ctx1 = ctx\<lparr>input_filter_caches := (input_filter_caches ctx)(i \<mapsto> cache')\<rparr>
             in (case res of
                   Timeout_Exception \<Rightarrow> Some (Timeout_Exception, ctx1, deadline'')
                 | Return None \<Rightarrow> filter_inputs_loop env rest ctx1 deadline''
                 | Return (Some exclusion) \<Rightarrow>
                     filter_inputs_loop env rest
                       (ctx1\<lparr>objects_to_exclude := add_exclusion exclusion (rules_to_exclude ctx1) (objects_to_exclude ctx1)\<rparr>)
                       deadline'') })"

definition filter_inputs :: "engine_env \<Rightarrow> waf_context \<Rightarrow> timer \<Rightarrow> (unit run \<times> waf_context \<times> timer) option" where
  "filter_inputs env ctx deadline = filter_inputs_loop env (input_filters (ctx_ruleset ctx)) ctx deadline"

definition evaluation_of :: "engine_env \<Rightarrow> waf_context \<Rightarrow> evaluation" where
  "evaluation_of env ctx =
     \<lparr>ev_env = env, ev_store = ctx_store ctx, rules_excluded = rules_to_exclude ctx,
      objects_excluded = objects_to_exclude ctx, ev_processors = map_of (rs_dynamic_processors (ctx_ruleset ctx))\<rparr>"

text \<open>The two loops of \<open>context::match\<close>; the events are those of the whole call.\<close>

primrec eval_priority_loop ::
    "engine_env \<Rightarrow> (string \<times> priority_collection) list \<Rightarrow> event list \<Rightarrow> waf_context \<Rightarrow> timer
     \<Rightarrow> (unit run \<times> event list \<times> waf_context \<times> timer) option" where
  "eval_priority_loop env [] events ctx deadline = Some (Return (), events, ctx, deadline)"
| "eval_priority_loop env (entry # rest) events ctx deadline =
     (let (type, pc) = entry;
          cache = (case map_of (collection_caches ctx) type of None \<Rightarrow> priority_get_cache pc | Some c \<Rightarrow> c) in
      do { (res, events', seen, cache', deadline') \<leftarrow>
             priority_match (evaluation_of env ctx) pc events (seen_actions ctx) cache deadline;
           let ctx1 = ctx\<lparr>collection_caches := AList.update type cache' (collection_caches ctx), seen_actions := seen\<rparr>
           in (case res of
                 Timeout_Exception \<Rightarrow> Some (Timeout_Exception, events', ctx1, deadline')
               | Return _ \<Rightarrow> eval_priority_loop env rest events' ctx1 deadline') })"

primrec eval_collection_loop ::
    "engine_env \<Rightarrow> (string \<times> rule list) list \<Rightarrow> event list \<Rightarrow> waf_context \<Rightarrow> timer
     \<Rightarrow> (unit run \<times> event list \<times> waf_context \<times> timer) option" where
  "eval_collection_loop env [] events ctx deadline = Some (Return (), events, ctx, deadline)"
| "eval_collection_loop env (entry # rest) events ctx deadline =
     (let (type, rs) = entry;
          cache = (case map_of (collection_caches ctx) type of None \<Rightarrow> collection_get_cache | Some c \<Rightarrow> c) in
      do { (res, events', cache', deadline') \<leftarrow> collection_match (evaluation_of env ctx) rs events cache deadline;
           let ctx1 = ctx\<lparr>collection_caches := AList.update type cache' (collection_caches ctx)\<rparr>
           in (case res of
                 Timeout_Exception \<Rightarrow> Some (Timeout_Exception, events', ctx1, deadline')
               | Return _ \<Rightarrow> eval_collection_loop env rest events' ctx1 deadline') })"

definition context_match :: "engine_env \<Rightarrow> waf_context \<Rightarrow> timer \<Rightarrow> (event list run \<times> waf_context \<times> timer) option" where
  "context_match env ctx deadline =
     do { (res, events, ctx1, deadline') \<leftarrow>
            eval_priority_loop env (priority_collections (ctx_ruleset ctx)) [] ctx deadline;
          (case res of
             Timeout_Exception \<Rightarrow> Some (Timeout_Exception, ctx1, deadline')
           | Return _ \<Rightarrow> do {
               (res', events', ctx2, deadline'') \<leftarrow>
                 eval_collection_loop env (collections (ctx_ruleset ctx1)) events ctx1 deadline';
               (case res' of
                  Timeout_Exception \<Rightarrow> Some (Timeout_Exception, ctx2, deadline'')
                | Return _ \<Rightarrow> Some (Return events', ctx2, deadline'')) }) }"

text \<open>What the \<open>try\<close> block of \<open>context::run\<close> does.\<close>

definition evaluate :: "engine_env \<Rightarrow> waf_context \<Rightarrow> timer \<Rightarrow> (event list run \<times> waf_context \<times> timer) option" where
  "evaluate env ctx deadline =
     do { (res, ctx1, deadline1) \<leftarrow> filter_rules env ctx deadline;
          (case res of
             Timeout_Exception \<Rightarrow> Some (Timeout_Exception, ctx1, deadline1)
           | Return _ \<Rightarrow> do {
               (res', ctx2, deadline2) \<leftarrow> filter_inputs env ctx1 deadline1;
               (case res' of
                  Timeout_Exception \<Rightarrow> Some (Timeout_Exception, ctx2, deadline2)
                | Return _ \<Rightarrow> context_match env ctx2 deadline2) }) }"

datatype ret_code =
  DDWAF_ERR_INTERNAL | DDWAF_ERR_INVALID_OBJECT | DDWAF_ERR_INVALID_ARGUMENT | DDWAF_OK | DDWAF_MATCH

text \<open>
  The deadline of a run: \<open>timeLeft\<close> becomes a signed number of microseconds and then of
  nanoseconds, whose overflow is undefined.
\<close>

definition deadline_of :: "clock \<Rightarrow> nat \<Rightarrow> u64 \<Rightarrow> timer option" where
  "deadline_of clock i timeLeft =
     (let start = monotonic_now (clock i); exp = sint timeLeft * 1000 in
      if - (2 ^ 63) \<le> exp \<and> exp < 2 ^ 63 \<and> - (2 ^ 63) \<le> start + exp \<and> start + exp < 2 ^ 63
      then Some (new_timer clock i (sint timeLeft) 16) else None)"

text \<open>
  The part of a run up to the report. \<open>i\<close> is the number of clock readings made before, and the
  number after it comes back; the events come with the timer, when the rules have been evaluated.
  The events found before an exception are lost with the vector that holds them.
\<close>

definition run_events ::
    "engine_env \<Rightarrow> waf_context \<Rightarrow> ddwaf_object \<Rightarrow> u64 \<Rightarrow> nat
     \<Rightarrow> (ret_code \<times> (event list \<times> timer) option \<times> waf_context \<times> nat) option" where
  "run_events env ctx newParameters timeLeft i =
     (let (ok, store) = store_insert (ctx_store ctx) newParameters;
          ctx1 = ctx\<lparr>ctx_store := store\<rparr> in
      if \<not> ok then Some (DDWAF_ERR_INVALID_OBJECT, None, ctx1, i)
      else if timeLeft = 0 then Some (DDWAF_OK, None, ctx1, i)
      else do {
        deadline \<leftarrow> deadline_of (env_clock env) i timeLeft;
        if \<not> is_first_run ctx1 \<and> \<not> has_new_targets store then Some (DDWAF_OK, None, ctx1, readings deadline)
        else do {
          (outcome, ctx2, deadline') \<leftarrow> evaluate env ctx1 deadline;
          let events = (case outcome of Return evs \<Rightarrow> evs | Timeout_Exception \<Rightarrow> [])
          in Some (if events = [] then DDWAF_OK else DDWAF_MATCH, Some (events, deadline'), ctx2, readings deadline') } })"

text \<open>A run, with the result to fill in, if there is one; the time it took needs another reading.\<close>

definition context_run ::
    "engine_env \<Rightarrow> (json \<Rightarrow> string option) \<Rightarrow> waf_context \<Rightarrow> ddwaf_object \<Rightarrow> ddwaf_result option \<Rightarrow> u64 \<Rightarrow> nat
     \<Rightarrow> (ret_code \<times> ddwaf_result option \<times> waf_context \<times> nat) option" where
  "context_run env write_json ctx newParameters res timeLeft i =
     do { (code, evaluated, ctx', i') \<leftarrow> run_events env ctx newParameters timeLeft i;
          (case res of
             None \<Rightarrow> Some (code, None, ctx', i')
           | Some _ \<Rightarrow>
               (case evaluated of
                  None \<Rightarrow>
                    Some (code, Some (zero_result\<lparr>result_timeout := (code = DDWAF_OK \<and> timeLeft = 0)\<rparr>), ctx', i')
                | Some (events, deadline) \<Rightarrow>
                    Some (code,
                      Some ((serialize_events (env_libs env) write_json (event_obfuscator (ctx_ruleset ctx')) events
                               (seen_actions ctx') zero_result)
                             \<lparr>total_runtime := of_int (elapsed (env_clock env) deadline),
                              result_timeout := expired_before deadline\<rparr>),
                      ctx', i' + 1))) }"

section \<open>Every rule gives its event once\<close>

text \<open>The rules with the type of their collection, and those that have given their event.\<close>

definition placed :: "ruleset \<Rightarrow> (string \<times> rule) set" where
  "placed rs = {(type, r). (\<exists>pc. (type, pc) \<in> set (priority_collections rs) \<and> r \<in> set (prio_rules pc)) \<or>
     (\<exists>coll. (type, coll) \<in> set (collections rs) \<and> r \<in> set coll)}"

definition fired :: "waf_context \<Rightarrow> (string \<times> nat) set" where
  "fired ctx = {(type, p). \<exists>cc. map_of (collection_caches ctx) type = Some cc \<and> p \<in> fired_in (rule_caches cc)}"

definition reports :: "waf_context \<Rightarrow> ((string \<times> nat) \<times> event) list \<Rightarrow> bool" where
  "reports ctx new \<longleftrightarrow> (\<forall>((type, p), e) \<in> set new. \<exists>r. (type, r) \<in> placed (ctx_ruleset ctx) \<and> rule_ptr r = p \<and>
     event_id e = rule_id r \<and> enabled r \<and> rule_ptr r \<notin> rules_to_exclude ctx)"

text \<open>The step of one collection, seen from the context.\<close>

lemma fired_step:
  assumes "gains (fired_in (rule_caches (case map_of (collection_caches ctx) type of None \<Rightarrow> c0 | Some c \<Rightarrow> c)))
      new (fired_in (rule_caches cache'))"
    and "rule_caches c0 = Map.empty"
    and "collection_caches ctx' = AList.update type cache' (collection_caches ctx)"
  shows "gains (fired ctx) (map (apfst (Pair type)) new) (fired ctx')"
proof -
  let ?F = "fired_in (rule_caches (case map_of (collection_caches ctx) type of None \<Rightarrow> c0 | Some c \<Rightarrow> c))"
    and ?F' = "fired_in (rule_caches cache')"
  have before: "(type, p) \<in> fired ctx \<longleftrightarrow> p \<in> ?F" for p
    using assms(2) by (auto simp: fired_def fired_in_def split: option.split)
  have after: "(t, p) \<in> fired ctx' \<longleftrightarrow> (if t = type then p \<in> ?F' else (t, p) \<in> fired ctx)" for t p
    by (simp add: fired_def assms(3) update_conv')
  have g: "?F \<subseteq> ?F'" "distinct (map fst new)" "fst ` set new \<subseteq> ?F' - ?F"
    using assms(1) by (simp_all add: gains_def)
  have "(t, p) \<in> fired ctx'" if "(t, p) \<in> fired ctx" for t p
    using that after [of t p] before [of p] subsetD [OF g(1), of p] by (cases "t = type") simp_all
  then have "fired ctx \<subseteq> fired ctx'"
    by (rule subrelI)
  moreover have "distinct (map fst (map (apfst (Pair type)) new))"
    using g(2) by (simp add: distinct_map inj_on_def)
  moreover have "fst ` set (map (apfst (Pair type)) new) \<subseteq> fired ctx' - fired ctx"
    using g(3) by (auto simp: before after)
  ultimately show ?thesis
    by (simp add: gains_def)
qed

lemma evaluation_of_fields [simp]:
  "ev_env (evaluation_of env ctx) = env" "ev_store (evaluation_of env ctx) = ctx_store ctx"
  "rules_excluded (evaluation_of env ctx) = rules_to_exclude ctx"
  by (simp_all add: evaluation_of_def)

lemma reports_one:
  assumes "reports_of (evaluation_of env ctx) rs new" "\<And>r. r \<in> set rs \<Longrightarrow> (type, r) \<in> placed (ctx_ruleset ctx)"
  shows "reports ctx (map (apfst (Pair type)) new)"
  using assms by (fastforce simp: reports_def reports_of_def event_of_def)

text \<open>What the evaluation leaves alone.\<close>

definition same_rules :: "waf_context \<Rightarrow> waf_context \<Rightarrow> bool" where
  "same_rules ctx ctx' \<longleftrightarrow> ctx_ruleset ctx' = ctx_ruleset ctx \<and> rules_to_exclude ctx' = rules_to_exclude ctx"

lemma reports_same: "same_rules ctx ctx' \<Longrightarrow> reports ctx' new = reports ctx new"
  by (simp add: same_rules_def reports_def)

lemma reports_append: "reports ctx (new1 @ new2) \<longleftrightarrow> reports ctx new1 \<and> reports ctx new2"
  by (simp add: reports_def ball_Un)

text \<open>A part of the evaluation, with the events before and after it.\<close>

definition gives :: "waf_context \<Rightarrow> event list \<Rightarrow> waf_context \<Rightarrow> event list \<Rightarrow> bool" where
  "gives ctx events ctx' events' \<longleftrightarrow> same_rules ctx ctx' \<and>
     (\<exists>new. events' = events @ map snd new \<and> reports ctx new \<and> gains (fired ctx) new (fired ctx'))"

lemma gives_refl: "gives ctx events ctx events"
  by (auto simp: gives_def same_rules_def reports_def gains_none)

lemma gives_trans: "gives ctx events ctx1 events1 \<Longrightarrow> gives ctx1 events1 ctx2 events2 \<Longrightarrow> gives ctx events ctx2 events2"
proof -
  assume g: "gives ctx events ctx1 events1" "gives ctx1 events1 ctx2 events2"
  from g(1) obtain new1 where 1: "same_rules ctx ctx1" "events1 = events @ map snd new1" "reports ctx new1"
    "gains (fired ctx) new1 (fired ctx1)"
    by (auto simp: gives_def)
  from g(2) obtain new2 where 2: "same_rules ctx1 ctx2" "events2 = events1 @ map snd new2" "reports ctx1 new2"
    "gains (fired ctx1) new2 (fired ctx2)"
    by (auto simp: gives_def)
  have "same_rules ctx ctx2"
    using 1(1) 2(1) by (simp add: same_rules_def)
  then show ?thesis
    using 1 2 gains_append [OF 1(4) 2(4)] unfolding gives_def
    by (intro conjI exI [of _ "new1 @ new2"]) (simp_all add: reports_append reports_same)
qed

lemma gives_step:
  assumes "events' = events @ map snd new" "reports_of (evaluation_of env ctx) rs new"
    and "gains (fired_in (rule_caches (case map_of (collection_caches ctx) type of None \<Rightarrow> c0 | Some c \<Rightarrow> c)))
      new (fired_in (rule_caches cache'))"
    and "rule_caches c0 = Map.empty" "\<And>r. r \<in> set rs \<Longrightarrow> (type, r) \<in> placed (ctx_ruleset ctx)"
    and "collection_caches ctx' = AList.update type cache' (collection_caches ctx)" "same_rules ctx ctx'"
  shows "gives ctx events ctx' events'"
  unfolding gives_def
  using assms(1,7) reports_one [OF assms(2,5)] fired_step [OF assms(3,4,6)]
  by (intro conjI exI [of _ "map (apfst (Pair type)) new"]) (simp_all add: comp_def)

lemma eval_priority_gives:
  "eval_priority_loop env es events ctx dl = Some (res, events', ctx', dl') \<Longrightarrow>
   set es \<subseteq> set (priority_collections (ctx_ruleset ctx)) \<Longrightarrow> gives ctx events ctx' events'"
proof (induction es arbitrary: events ctx dl)
  case (Cons entry es)
  obtain type pc where entry: "entry = (type, pc)"
    by (rule prod.exhaust)
  let ?cache = "case map_of (collection_caches ctx) type of None \<Rightarrow> priority_get_cache pc | Some c \<Rightarrow> c"
  obtain res1 events1 seen cache1 dl1 where
    m: "priority_match (evaluation_of env ctx) pc events (seen_actions ctx) ?cache dl = Some (res1, events1, seen, cache1, dl1)"
    using Cons.prems(1) by (auto simp: entry split: bind_splits)
  let ?ctx = "ctx\<lparr>collection_caches := AList.update type cache1 (collection_caches ctx), seen_actions := seen\<rparr>"
  from priority_match_gains [OF m] obtain new where new: "events1 = events @ map snd new"
    "reports_of (evaluation_of env ctx) (prio_rules pc) new"
    "gains (fired_in (rule_caches ?cache)) new (fired_in (rule_caches cache1))"
    by (elim exE conjE) (rule that)
  have first: "gives ctx events ?ctx events1"
    by (rule gives_step [OF new]) (use Cons.prems(2) in \<open>auto simp: priority_get_cache_def placed_def entry same_rules_def\<close>)
  show ?case
  proof (cases res1)
    case Timeout_Exception
    then show ?thesis
      using Cons.prems(1) m first by (auto simp: entry)
  next
    case (Return u)
    then have "eval_priority_loop env es events1 ?ctx dl1 = Some (res, events', ctx', dl')"
      using Cons.prems(1) m by (simp add: entry)
    with Cons.IH [OF this] Cons.prems(2) gives_trans [OF first] show ?thesis
      by simp
  qed
qed (auto simp: gives_refl)

lemma eval_collection_gives:
  "eval_collection_loop env es events ctx dl = Some (res, events', ctx', dl') \<Longrightarrow>
   set es \<subseteq> set (collections (ctx_ruleset ctx)) \<Longrightarrow> gives ctx events ctx' events'"
proof (induction es arbitrary: events ctx dl)
  case (Cons entry es)
  obtain type coll where entry: "entry = (type, coll)"
    by (rule prod.exhaust)
  let ?cache = "case map_of (collection_caches ctx) type of None \<Rightarrow> collection_get_cache | Some c \<Rightarrow> c"
  obtain res1 events1 cache1 dl1 where
    m: "collection_match (evaluation_of env ctx) coll events ?cache dl = Some (res1, events1, cache1, dl1)"
    using Cons.prems(1) by (auto simp: entry split: bind_splits)
  let ?ctx = "ctx\<lparr>collection_caches := AList.update type cache1 (collection_caches ctx)\<rparr>"
  from collection_match_gains [OF m] obtain new where new: "events1 = events @ map snd new"
    "reports_of (evaluation_of env ctx) coll new"
    "gains (fired_in (rule_caches ?cache)) new (fired_in (rule_caches cache1))"
    by (elim exE conjE) (rule that)
  have first: "gives ctx events ?ctx events1"
    by (rule gives_step [OF new]) (use Cons.prems(2) in \<open>auto simp: collection_get_cache_def placed_def entry same_rules_def\<close>)
  show ?case
  proof (cases res1)
    case Timeout_Exception
    then show ?thesis
      using Cons.prems(1) m first by (auto simp: entry)
  next
    case (Return u)
    then have "eval_collection_loop env es events1 ?ctx dl1 = Some (res, events', ctx', dl')"
      using Cons.prems(1) m by (simp add: entry)
    with Cons.IH [OF this] Cons.prems(2) gives_trans [OF first] show ?thesis
      by simp
  qed
qed (auto simp: gives_refl)

text \<open>The filters run before and change neither the rules nor what has been reported.\<close>

definition only_excludes :: "waf_context \<Rightarrow> waf_context \<Rightarrow> bool" where
  "only_excludes ctx ctx' \<longleftrightarrow> ctx_ruleset ctx' = ctx_ruleset ctx \<and> collection_caches ctx' = collection_caches ctx \<and>
     ctx_store ctx' = ctx_store ctx \<and> seen_actions ctx' = seen_actions ctx \<and> rules_to_exclude ctx \<subseteq> rules_to_exclude ctx'"

lemma only_excludes_trans: "only_excludes c1 c2 \<Longrightarrow> only_excludes c2 c3 \<Longrightarrow> only_excludes c1 c3"
  by (auto simp: only_excludes_def)

lemma filter_rules_loop_only:
  "filter_rules_loop env es ctx dl = Some (res, ctx', dl') \<Longrightarrow> only_excludes ctx ctx'"
proof (induction es arbitrary: ctx dl)
  case (Cons entry es)
  obtain i f where entry: "entry = (i, f)"
    by (rule prod.exhaust)
  obtain late dl1 where late: "expired (env_clock env) dl = (late, dl1)"
    by (rule prod.exhaust)
  show ?case
  proof (cases late)
    case True
    then show ?thesis
      using Cons.prems late by (simp add: entry only_excludes_def)
  next
    case False
    then obtain res1 cache1 dl2 where m:
      "rule_filter_match env f (ctx_store ctx) (case rule_filter_caches ctx i of None \<Rightarrow> new_rule_filter_cache | Some c \<Rightarrow> c) dl1
         = Some (res1, cache1, dl2)"
      using Cons.prems late by (auto simp: entry split: bind_splits)
    let ?ctx = "ctx\<lparr>rule_filter_caches := (rule_filter_caches ctx)(i \<mapsto> cache1)\<rparr>"
    show ?thesis
    proof (cases res1)
      case Timeout_Exception
      then show ?thesis
        using Cons.prems late False m by (simp add: entry only_excludes_def) (elim conjE, hypsubst, simp)
    next
      case (Return ex)
      then have "filter_rules_loop env es (?ctx\<lparr>rules_to_exclude := rules_to_exclude ?ctx \<union> ex\<rparr>) dl2 = Some (res, ctx', dl')"
        using Cons.prems late False m by (simp add: entry)
      from Cons.IH [OF this] show ?thesis
        by (simp add: only_excludes_def)
    qed
  qed
qed (auto simp: only_excludes_def)

lemma filter_inputs_loop_only:
  "filter_inputs_loop env es ctx dl = Some (res, ctx', dl') \<Longrightarrow> only_excludes ctx ctx'"
proof (induction es arbitrary: ctx dl)
  case (Cons entry es)
  obtain i f where entry: "entry = (i, f)"
    by (rule prod.exhaust)
  obtain late dl1 where late: "expired (env_clock env) dl = (late, dl1)"
    by (rule prod.exhaust)
  show ?case
  proof (cases late)
    case True
    then show ?thesis
      using Cons.prems late by (simp add: entry only_excludes_def)
  next
    case False
    then obtain res1 cache1 dl2 where m:
      "input_filter_match env f (ctx_store ctx) (case input_filter_caches ctx i of None \<Rightarrow> new_input_filter_cache | Some c \<Rightarrow> c) dl1
         = Some (res1, cache1, dl2)"
      using Cons.prems late by (auto simp: entry split: bind_splits)
    let ?ctx = "ctx\<lparr>input_filter_caches := (input_filter_caches ctx)(i \<mapsto> cache1)\<rparr>"
    consider "res1 = Timeout_Exception" | "res1 = Return None" | ex where "res1 = Return (Some ex)"
      by (cases res1) auto
    then show ?thesis
    proof cases
      case 1
      then show ?thesis
        using Cons.prems late False m by (simp add: entry only_excludes_def) (elim conjE, hypsubst, simp)
    next
      case 2
      then have "filter_inputs_loop env es ?ctx dl2 = Some (res, ctx', dl')"
        using Cons.prems late False m by (simp add: entry)
      from Cons.IH [OF this] show ?thesis
        by (simp add: only_excludes_def)
    next
      case 3
      then have "filter_inputs_loop env es
          (?ctx\<lparr>objects_to_exclude := add_exclusion ex (rules_to_exclude ?ctx) (objects_to_exclude ?ctx)\<rparr>) dl2 = Some (res, ctx', dl')"
        using Cons.prems late False m by (simp add: entry)
      from Cons.IH [OF this] show ?thesis
        by (simp add: only_excludes_def)
    qed
  qed
qed (auto simp: only_excludes_def)

lemma only_excludes_fired: "only_excludes ctx ctx' \<Longrightarrow> fired ctx' = fired ctx"
  by (simp add: only_excludes_def fired_def)

text \<open>What one evaluation reports.\<close>

definition outcome_events :: "event list run \<Rightarrow> event list" where
  "outcome_events outcome = (case outcome of Return evs \<Rightarrow> evs | Timeout_Exception \<Rightarrow> [])"

definition evaluated_well :: "waf_context \<Rightarrow> event list \<Rightarrow> waf_context \<Rightarrow> bool" where
  "evaluated_well ctx evs ctx' \<longleftrightarrow> ctx_ruleset ctx' = ctx_ruleset ctx \<and> rules_to_exclude ctx \<subseteq> rules_to_exclude ctx' \<and>
     (\<exists>new. evs = map snd new \<and> reports ctx' new \<and> gains (fired ctx) new (fired ctx'))"

lemma evaluated_nothing: "only_excludes ctx ctx' \<Longrightarrow> evaluated_well ctx [] ctx'"
  by (auto simp: evaluated_well_def only_excludes_def reports_def gains_def fired_def)

lemma gives_evaluated: "gives ctx [] ctx' evs \<Longrightarrow> evs' = evs \<or> evs' = [] \<Longrightarrow> evaluated_well ctx evs' ctx'"
proof -
  assume "gives ctx [] ctx' evs" and evs': "evs' = evs \<or> evs' = []"
  then obtain new where new: "same_rules ctx ctx'" "evs = map snd new" "reports ctx new" "gains (fired ctx) new (fired ctx')"
    by (auto simp: gives_def)
  then have "reports ctx' new" "reports ctx' []" "gains (fired ctx) [] (fired ctx')"
    by (simp_all add: reports_same) (simp_all add: reports_def gains_def)
  then show ?thesis
    using new evs' by (auto simp: evaluated_well_def same_rules_def)
qed

lemma context_match_evaluated:
  assumes "context_match env ctx dl = Some (outcome, ctx', dl')"
  shows "evaluated_well ctx (outcome_events outcome) ctx'"
proof -
  obtain res1 events1 ctx1 dl1 where p:
    "eval_priority_loop env (priority_collections (ctx_ruleset ctx)) [] ctx dl = Some (res1, events1, ctx1, dl1)"
    using assms by (auto simp: context_match_def split: bind_splits)
  note g1 = eval_priority_gives [OF p subset_refl]
  show ?thesis
  proof (cases res1)
    case Timeout_Exception
    then have "outcome = Timeout_Exception" "ctx' = ctx1"
      using assms p by (simp_all add: context_match_def)
    then show ?thesis
      using gives_evaluated [OF g1] by (simp add: outcome_events_def)
  next
    case (Return u)
    then obtain res2 events2 dl2 where c:
      "eval_collection_loop env (collections (ctx_ruleset ctx1)) events1 ctx1 dl1 = Some (res2, events2, ctx', dl2)"
      and out: "outcome = (case res2 of Timeout_Exception \<Rightarrow> Timeout_Exception | Return _ \<Rightarrow> Return events2)"
      using assms p by (auto simp: context_match_def split: bind_splits run.splits)
    note g = gives_trans [OF g1 eval_collection_gives [OF c subset_refl]]
    show ?thesis
      by (rule gives_evaluated [OF g]) (simp add: out outcome_events_def split: run.split)
  qed
qed

lemma evaluate_well:
  assumes "evaluate env ctx dl = Some (outcome, ctx', dl')"
  shows "evaluated_well ctx (outcome_events outcome) ctx'"
proof -
  obtain res1 ctx1 dl1 where r: "filter_rules env ctx dl = Some (res1, ctx1, dl1)"
    using assms by (auto simp: evaluate_def split: bind_splits)
  then have o1: "only_excludes ctx ctx1"
    using filter_rules_loop_only by (simp add: filter_rules_def)
  show ?thesis
  proof (cases res1)
    case Timeout_Exception
    then show ?thesis
      using assms r evaluated_nothing [OF o1] by (simp add: evaluate_def outcome_events_def)
  next
    case (Return u)
    then obtain res2 ctx2 dl2 where i: "filter_inputs env ctx1 dl1 = Some (res2, ctx2, dl2)"
      using assms r by (auto simp: evaluate_def split: bind_splits)
    then have o2: "only_excludes ctx ctx2"
      using filter_inputs_loop_only only_excludes_trans [OF o1] by (simp add: filter_inputs_def)
    show ?thesis
    proof (cases res2)
      case Timeout_Exception
      then show ?thesis
        using assms r i Return evaluated_nothing [OF o2] by (simp add: evaluate_def outcome_events_def)
    next
      case (Return u2)
      then have "context_match env ctx2 dl2 = Some (outcome, ctx', dl')"
        using assms r i \<open>res1 = Return u\<close> by (simp add: evaluate_def)
      from context_match_evaluated [OF this] show ?thesis
        using o2 only_excludes_fired [OF o2] by (auto simp: evaluated_well_def only_excludes_def)
    qed
  qed
qed

lemma run_events_well:
  assumes "run_events env ctx input timeLeft i = Some (code, evaluated, ctx', i')"
  shows "evaluated_well ctx (case evaluated of None \<Rightarrow> [] | Some (evs, _) \<Rightarrow> evs) ctx'"
proof -
  obtain ok store where s: "store_insert (ctx_store ctx) input = (ok, store)"
    by (rule prod.exhaust)
  let ?ctx = "ctx\<lparr>ctx_store := store\<rparr>"
  have idle: "evaluated_well ctx [] ?ctx"
    by (auto simp: evaluated_well_def reports_def gains_def fired_def)
  show ?thesis
  proof (cases evaluated)
    case None
    then have c: "ctx' = ?ctx"
      using assms s by (auto simp: run_events_def Let_def split: if_splits bind_splits)
    show ?thesis
      unfolding c None option.case by (rule idle)
  next
    case (Some x)
    obtain evs dl' where x: "x = (evs, dl')"
      by (rule prod.exhaust)
    obtain outcome deadline where e: "evaluate env ?ctx deadline = Some (outcome, ctx', dl')" "evs = outcome_events outcome"
      using assms s Some x by (auto simp: run_events_def Let_def outcome_events_def split: if_splits bind_splits)
    show ?thesis
      using evaluate_well [OF e(1)] e(2) Some x by (simp add: evaluated_well_def fired_def)
  qed
qed

text \<open>The runs of a context: batch, time and clock readings so far of each; all the events they report.\<close>

primrec run_history :: "engine_env \<Rightarrow> waf_context \<Rightarrow> (ddwaf_object \<times> u64 \<times> nat) list \<Rightarrow> event list option" where
  "run_history env ctx [] = Some []"
| "run_history env ctx (run # runs) =
     (case run of (input, timeLeft, i) \<Rightarrow>
        do { (_, evaluated, ctx', _) \<leftarrow> run_events env ctx input timeLeft i;
             later \<leftarrow> run_history env ctx' runs;
             Some ((case evaluated of None \<Rightarrow> [] | Some (evs, _) \<Rightarrow> evs) @ later) })"

definition rule_reports :: "ruleset \<Rightarrow> ((string \<times> nat) \<times> event) list \<Rightarrow> bool" where
  "rule_reports rs new \<longleftrightarrow> (\<forall>((type, p), e) \<in> set new. \<exists>r. (type, r) \<in> placed rs \<and> rule_ptr r = p \<and> event_id e = rule_id r \<and> enabled r)"

lemma reports_rule_reports: "reports ctx new \<Longrightarrow> rule_reports (ctx_ruleset ctx) new"
  by (auto simp: reports_def rule_reports_def)

lemma run_history_reports:
  "run_history env ctx runs = Some evs \<Longrightarrow>
   \<exists>new F'. evs = map snd new \<and> rule_reports (ctx_ruleset ctx) new \<and> gains (fired ctx) new F'"
proof (induction runs arbitrary: ctx evs)
  case Nil
  then show ?case
    by (intro exI [of _ "[]"] exI [of _ "fired ctx"]) (simp add: rule_reports_def gains_none)
next
  case (Cons run runs)
  obtain input timeLeft i where run: "run = (input, timeLeft, i)"
    by (rule prod_cases3)
  obtain code evaluated ctx' i' later where r: "run_events env ctx input timeLeft i = Some (code, evaluated, ctx', i')"
    and l: "run_history env ctx' runs = Some later"
    and evs: "evs = (case evaluated of None \<Rightarrow> [] | Some (evs, _) \<Rightarrow> evs) @ later"
    using Cons.prems by (auto simp: run split: bind_splits)
  from run_events_well [OF r] obtain new where new: "ctx_ruleset ctx' = ctx_ruleset ctx"
    "(case evaluated of None \<Rightarrow> [] | Some (evs, _) \<Rightarrow> evs) = map snd new" "reports ctx' new" "gains (fired ctx) new (fired ctx')"
    by (auto simp: evaluated_well_def)
  from Cons.IH [OF l] obtain new2 F' where new2: "later = map snd new2" "rule_reports (ctx_ruleset ctx') new2" "gains (fired ctx') new2 F'"
    by blast
  have "rule_reports (ctx_ruleset ctx) (new @ new2)"
    using reports_rule_reports [OF new(3)] new2(2) unfolding new(1) by (simp add: rule_reports_def ball_Un)
  then show ?case
    using evs new(2) new2(1) gains_append [OF new(4) new2(3)] by (intro exI [of _ "new @ new2"]) auto
qed

text \<open>Where the rules of a rule set are.\<close>

lemma map_of_insert_in: "map_of (insert_in e f k m) = (map_of m)(k \<mapsto> f (case map_of m k of None \<Rightarrow> e | Some v \<Rightarrow> v))"
  by (simp add: insert_in_def update_conv')

definition by_type :: "ruleset \<Rightarrow> bool" where
  "by_type rs \<longleftrightarrow> distinct (map fst (collections rs)) \<and> distinct (map fst (priority_collections rs))"

lemma distinct_insert_in: "distinct (map fst m) \<Longrightarrow> distinct (map fst (insert_in e f k m))"
  by (simp add: insert_in_def distinct_update)

lemma insert_in_members:
  assumes "distinct (map fst m)"
  shows "(\<exists>v. (t, v) \<in> set (insert_in e f k m) \<and> P v) \<longleftrightarrow>
    (if t = k then P (f (case map_of m k of None \<Rightarrow> e | Some v \<Rightarrow> v)) else \<exists>v. (t, v) \<in> set m \<and> P v)"
  using map_of_eq_Some_iff [OF assms, of t] map_of_eq_Some_iff [OF distinct_insert_in [OF assms], of e f k t, symmetric]
  by (simp add: map_of_insert_in)

lemma members_map_of: "distinct (map fst m) \<Longrightarrow> (\<exists>v. (k, v) \<in> set m \<and> P v) \<longleftrightarrow> (\<exists>v. map_of m k = Some v \<and> P v)"
  by simp

lemma placed_file_rule:
  assumes "by_type rs"
  shows "by_type (file_rule r rs) \<and> placed (file_rule r rs) = insert (get_tag r ''type'', r) (placed rs)"
proof (cases "actions r = []")
  case True
  have c: "distinct (map fst (collections rs))"
    using assms by (simp add: by_type_def)
  have "(\<exists>coll. (t, coll) \<in> set (insert_in [] (collection_insert r) (get_tag r ''type'') (collections rs)) \<and> x \<in> set coll)
      \<longleftrightarrow> (\<exists>coll. (t, coll) \<in> set (collections rs) \<and> x \<in> set coll) \<or> t = get_tag r ''type'' \<and> x = r" for t x
    unfolding insert_in_members [OF c] members_map_of [OF c]
    by (cases "map_of (collections rs) (get_tag r ''type'')") (auto simp: collection_insert_def)
  then show ?thesis
    using True assms by (auto simp: file_rule_def by_type_def distinct_insert_in placed_def)
next
  case False
  have c: "distinct (map fst (priority_collections rs))"
    using assms by (simp add: by_type_def)
  have "(\<exists>pc. (t, pc) \<in> set (insert_in \<lparr>prio_rules = [], prio_actions = {}\<rparr> (priority_insert r) (get_tag r ''type'')
        (priority_collections rs)) \<and> x \<in> set (prio_rules pc))
      \<longleftrightarrow> (\<exists>pc. (t, pc) \<in> set (priority_collections rs) \<and> x \<in> set (prio_rules pc)) \<or> t = get_tag r ''type'' \<and> x = r" for t x
    unfolding insert_in_members [OF c] members_map_of [OF c]
    by (cases "map_of (priority_collections rs) (get_tag r ''type'')") (auto simp: priority_insert_def)
  then show ?thesis
    using False assms by (auto simp: file_rule_def by_type_def distinct_insert_in placed_def)
qed

lemma placed_insert_rules:
  assumes "collections rs = []" "priority_collections rs = []"
  shows "placed (insert_rules new_rules rs) = (\<lambda>(_, r). (get_tag r ''type'', r)) ` set new_rules"
proof -
  have "by_type (fold (\<lambda>(i, r). file_rule r) new_rules rs') \<and>
      placed (fold (\<lambda>(i, r). file_rule r) new_rules rs') = placed rs' \<union> (\<lambda>(_, r). (get_tag r ''type'', r)) ` set new_rules"
    if "by_type rs'" for rs'
    using that
  proof (induction new_rules arbitrary: rs')
    case (Cons x xs)
    obtain i r where x: "x = (i, r)"
      by (rule prod.exhaust)
    show ?case
      using placed_file_rule [OF Cons.prems, of r] Cons.IH [of "file_rule r rs'"] by (simp add: x)
  qed simp
  from this [of "rs\<lparr>rules := new_rules\<rparr>"] show ?thesis
    using assms by (simp add: insert_rules_def by_type_def placed_def)
qed

lemma history_reports_once:
  assumes "collections rs = []" "priority_collections rs = []" "inj_on rule_id (snd ` set new_rules)"
    and "run_history env (new_context (insert_rules new_rules rs)) runs = Some evs"
  shows "distinct (map event_id evs) \<and> (\<forall>e \<in> set evs. \<exists>r \<in> snd ` set new_rules. enabled r \<and> event_id e = rule_id r)"
proof -
  let ?ctx = "new_context (insert_rules new_rules rs)"
  obtain new F' where new: "evs = map snd new" "rule_reports (ctx_ruleset ?ctx) new" "gains (fired ?ctx) new F'"
    using run_history_reports [OF assms(4)] by blast
  have source: "\<exists>r \<in> snd ` set new_rules. k = (get_tag r ''type'', rule_ptr r) \<and> enabled r \<and> event_id e = rule_id r"
    if "(k, e) \<in> set new" for k e
  proof -
    obtain t p where k: "k = (t, p)"
      by (rule prod.exhaust)
    from new(2) that obtain r where "(t, r) \<in> placed (insert_rules new_rules rs)" "rule_ptr r = p" "event_id e = rule_id r" "enabled r"
      unfolding rule_reports_def k by (force simp: new_context_def)
    then show ?thesis
      by (force simp: placed_insert_rules [OF assms(1,2)] k)
  qed
  have "distinct (map fst new)"
    using new(3) by (simp add: gains_def)
  moreover have "fst x = fst y" if "x \<in> set new" "y \<in> set new" "event_id (snd x) = event_id (snd y)" for x y
  proof -
    have "(fst x, snd x) \<in> set new" "(fst y, snd y) \<in> set new"
      using that(1,2) by simp_all
    from source [OF this(1)] source [OF this(2)] obtain r1 r2 where r: "r1 \<in> snd ` set new_rules" "r2 \<in> snd ` set new_rules"
      "fst x = (get_tag r1 ''type'', rule_ptr r1)" "fst y = (get_tag r2 ''type'', rule_ptr r2)"
      "event_id (snd x) = rule_id r1" "event_id (snd y) = rule_id r2"
      by (elim bexE conjE) (rule that)
    have "r1 = r2"
      using that(3) r(5,6) inj_onD [OF assms(3) _ r(1,2)] by simp
    then show ?thesis
      using r(3,4) by simp
  qed
  ultimately have "inj_on (\<lambda>x. event_id (snd x)) (set new)" "distinct new"
    unfolding distinct_map by (intro inj_onI, blast dest: inj_onD, blast)
  then have "distinct (map event_id evs)"
    by (simp add: new(1) distinct_map comp_def)
  moreover have "\<exists>r \<in> snd ` set new_rules. enabled r \<and> event_id e = rule_id r" if e: "e \<in> set evs" for e
  proof -
    obtain k where "(k, e) \<in> set new"
      using e by (auto simp: new(1))
    from source [OF this] show ?thesis
      by (elim bexE conjE) (rule bexI, intro conjI)
  qed
  ultimately show ?thesis
    by blast
qed

text \<open>C1: In the life of a context every rule reports at most one event, and only enabled rules of
  the rule set do, whatever batches the context is given, however often it runs and whenever its
  deadlines pass.\<close>

theorem context_reports_once:
  assumes "collections rs = []" "priority_collections rs = []" "inj_on rule_id (snd ` set new_rules)"
    and "run_history env (new_context (insert_rules new_rules rs)) runs = Some evs"
  shows "distinct (map event_id evs) \<and> (\<forall>e \<in> set evs. \<exists>r \<in> snd ` set new_rules. enabled r \<and> event_id e = rule_id r)"
  using history_reports_once [OF assms] .

definition sample_ruleset :: ruleset where
  "sample_ruleset = (empty_ruleset \<lparr>key_regex = None, value_regex = None\<rparr>)\<lparr>rs_manifest := sample_manifest\<rparr>"

lemma sample_history:
  "map_option (map event_id) (run_history sample_env (new_context (insert_rules [(''r1'', sample_rule)] sample_ruleset))
     [(sample_input ''good'', 1000, 0), (sample_input ''evil'', 1000, 2), (sample_input ''evil'', 1000, 4)]) = Some [''r1'']"
  by code_simp

theorem context_reports_once_witness:
  "\<exists>evs. run_history sample_env (new_context (insert_rules [(''r1'', sample_rule)] sample_ruleset))
       [(sample_input ''good'', 1000, 0), (sample_input ''evil'', 1000, 2), (sample_input ''evil'', 1000, 4)] = Some evs \<and>
     evs \<noteq> [] \<and> distinct (map event_id evs) \<and>
     (\<forall>e \<in> set evs. \<exists>r \<in> snd ` set [(''r1'', sample_rule)]. enabled r \<and> event_id e = rule_id r)"
proof -
  obtain evs where evs: "run_history sample_env (new_context (insert_rules [(''r1'', sample_rule)] sample_ruleset))
       [(sample_input ''good'', 1000, 0), (sample_input ''evil'', 1000, 2), (sample_input ''evil'', 1000, 4)] = Some evs"
    "map event_id evs = [''r1'']"
    using sample_history unfolding map_option_eq_Some by (elim exE conjE) (rule that)
  have "collections sample_ruleset = []" "priority_collections sample_ruleset = []"
    by (simp_all add: sample_ruleset_def empty_ruleset_def)
  from context_reports_once [OF this _ evs(1)] evs show ?thesis
    by (intro exI [of _ evs]) auto
qed

section \<open>What a deadline loses\<close>

text \<open>
  The event of a rule is dropped when a later rule of the same run meets the deadline
  (\<open>context.cpp:58-62\<close>): here the first rule matches, and the clock jumps while the second one
  looks for its twenty addresses. The cache remembers the match, so that the next run, on the
  same batch and with time enough, reports nothing either.
\<close>

definition jumping_env :: engine_env where
  "jumping_env = sample_env\<lparr>env_clock := (\<lambda>i. (0, if i < 2 then 0 else 10, 0))\<rparr>"

definition slow_rule :: rule where
  "slow_rule = sample_rule\<lparr>rule_ptr := 1, rule_id := ''r2'', tags := [(''type'', ''other'')],
     conditions := [sample_condition\<lparr>cond_ptr := 1,
       cond_targets := replicate 20 \<lparr>root = 2, target_name = ''path'', key_path = []\<rparr>\<rparr>]\<rparr>"

definition slow_context :: waf_context where
  "slow_context = new_context (insert_rules [(''r1'', sample_rule), (''r2'', slow_rule)] sample_ruleset)"

lemma event_lost_by_timeout:
  "map_option (\<lambda>(_, evaluated, _). map_option (\<lambda>(evs, dl). (map event_id evs, expired_before dl)) evaluated)
     (run_events jumping_env slow_context (sample_input ''evil'') 1000 0) = Some (Some ([], True))"
  by code_simp

lemma event_lost_for_good:
  "map_option (map event_id) (run_history jumping_env slow_context
     [(sample_input ''evil'', 1000, 0), (sample_input ''evil'', 1000, 3)]) = Some []"
  "map_option (map event_id) (run_history jumping_env slow_context [(sample_input ''evil'', 1000, 3)]) = Some [''r1'']"
  by code_simp+

text \<open>
  A time of \<open>UINT64_MAX\<close> microseconds becomes minus one: the deadline has passed before the run
  begins.
\<close>

lemma longest_time_is_none:
  "map_option (\<lambda>(_, evaluated, _). map_option (\<lambda>(evs, dl). (map event_id evs, expired_before dl)) evaluated)
     (run_events sample_env (new_context (insert_rules [(''r1'', sample_rule)] sample_ruleset)) (sample_input ''evil'') (- 1) 0)
   = Some (Some ([], True))"
  by code_simp

end
