(* ===== verification/Mkmap.thy ===== *)
theory Mkmap
  imports Prelude
begin

text \<open>
  The map with pairs of keys (\<open>src/mkmap.hpp\<close>): the rules by the tags they have. The two levels
  of hash maps hold no empty set, so that a missing entry is the empty set.
\<close>

section \<open>The code\<close>

type_synonym 'v multi_key_map = "string \<Rightarrow> string \<Rightarrow> 'v set"

definition mk_empty :: "'v multi_key_map" where
  "mk_empty = (\<lambda>_ _. {})"

definition mk_insert :: "(string \<times> string) list \<Rightarrow> 'v \<Rightarrow> 'v multi_key_map \<Rightarrow> 'v multi_key_map" where
  "mk_insert keys v data = fold (\<lambda>(k1, k2) d. d(k1 := (d k1)(k2 := insert v (d k1 k2)))) keys data"

definition mk_find :: "'v multi_key_map \<Rightarrow> string \<times> string \<Rightarrow> 'v set" where
  "mk_find data key = data (fst key) (snd key)"

definition mk_find2 :: "'v multi_key_map \<Rightarrow> string \<times> string \<Rightarrow> string \<times> string \<Rightarrow> 'v set" where
  "mk_find2 data key0 key1 =
     (let set0 = mk_find data key0 in
      if Set.is_empty set0 then {}
      else let set1 = mk_find data key1 in
        if Set.is_empty set1 then {} else set0 \<inter> set1)"

primrec multifind_loop :: "'v multi_key_map \<Rightarrow> (string \<times> string) list \<Rightarrow> 'v set \<Rightarrow> 'v set" where
  "multifind_loop data [] latest = latest"
| "multifind_loop data (key # keys) latest =
     (let later = mk_find data key in
      if Set.is_empty later then {} else multifind_loop data keys (latest \<inter> later))"

text \<open>\<open>*keys.begin()\<close> comes before the look at the size: no keys are undefined behaviour.\<close>

definition multifind :: "'v multi_key_map \<Rightarrow> (string \<times> string) list \<Rightarrow> 'v set option" where
  "multifind data keys =
     (case keys of
        [] \<Rightarrow> None
      | [k] \<Rightarrow> Some (mk_find data k)
      | [k0, k1] \<Rightarrow> Some (mk_find2 data k0 k1)
      | k # _ \<Rightarrow>
          (let latest = mk_find data k in
           if Set.is_empty latest then Some {} else Some (multifind_loop data keys latest)))"

section \<open>What is found\<close>

definition mk_put :: "string \<times> string \<Rightarrow> 'v \<Rightarrow> 'v multi_key_map \<Rightarrow> 'v multi_key_map" where
  "mk_put key v d = d(fst key := (d (fst key))(snd key := insert v (d (fst key) (snd key))))"

lemma mk_put_find: "mk_find (mk_put key v data) k = (if k = key then insert v (mk_find data k) else mk_find data k)"
  by (simp add: mk_put_def mk_find_def prod_eq_iff)

lemma mk_insert_Cons: "mk_insert (key # keys) v data = mk_insert keys v (mk_put key v data)"
  by (simp add: mk_insert_def mk_put_def split_beta)

lemma mk_insert_find:
  "mk_find (mk_insert keys v data) k = mk_find data k \<union> (if k \<in> set keys then {v} else {})"
proof (induction keys arbitrary: data)
  case (Cons key keys)
  then show ?case
    by (simp add: mk_insert_Cons mk_put_find)
qed (simp add: mk_insert_def)

lemma multifind_loop_inter: "multifind_loop data keys latest = latest \<inter> (\<Inter>k \<in> set keys. mk_find data k)"
  by (induction keys arbitrary: latest) (auto simp: Let_def)

lemma multifind_inter: "keys \<noteq> [] \<Longrightarrow> multifind data keys = Some (\<Inter>k \<in> set keys. mk_find data k)"
proof -
  assume "keys \<noteq> []"
  then consider k where "keys = [k]" | k0 k1 where "keys = [k0, k1]" | k k' k'' ks where "keys = k # k' # k'' # ks"
    by (metis list.exhaust)
  then show ?thesis
  proof cases
    case (3 k k' k'' ks)
    have "multifind data keys = (let latest = mk_find data k in
        if Set.is_empty latest then Some {} else Some (multifind_loop data keys latest))"
      by (simp add: multifind_def 3 Let_def)
    also have "\<dots> = Some (\<Inter>k \<in> set keys. mk_find data k)"
      by (auto simp: Let_def multifind_loop_inter 3)
    finally show ?thesis .
  qed (auto simp: multifind_def mk_find2_def Let_def)
qed

text \<open>The rules by their tags, as the builder files them.\<close>

definition mk_file :: "((string \<times> string) list \<times> 'v) list \<Rightarrow> 'v multi_key_map" where
  "mk_file xs = fold (\<lambda>(keys, v). mk_insert keys v) xs mk_empty"

lemma mk_file_find: "v \<in> mk_find (mk_file xs) k \<longleftrightarrow> (\<exists>keys. (keys, v) \<in> set xs \<and> k \<in> set keys)"
proof -
  have "v \<in> mk_find (fold (\<lambda>(keys, v). mk_insert keys v) xs d) k \<longleftrightarrow>
      v \<in> mk_find d k \<or> (\<exists>keys. (keys, v) \<in> set xs \<and> k \<in> set keys)" for d
    by (induction xs arbitrary: d) (auto simp: mk_insert_find split: if_splits)
  then show ?thesis
    by (simp add: mk_file_def mk_empty_def mk_find_def)
qed

text \<open>C38: Looking up several tags gives exactly the values that were filed with all of them, when
  every value is filed once.\<close>

theorem multifind_all_tags:
  assumes "keys \<noteq> []" "distinct (map snd xs)"
  shows "multifind (mk_file xs) keys = Some {v. \<exists>tags. (tags, v) \<in> set xs \<and> set keys \<subseteq> set tags}"
proof -
  have same: "tags = tags'" if "(tags, v) \<in> set xs" "(tags', v) \<in> set xs" for tags tags' v
    using inj_onD [OF conjunct2 [OF assms(2) [unfolded distinct_map]] _ that] by simp
  have "v \<in> (\<Inter>k \<in> set keys. mk_find (mk_file xs) k) \<longleftrightarrow> (\<exists>tags. (tags, v) \<in> set xs \<and> set keys \<subseteq> set tags)" for v
  proof
    assume v: "v \<in> (\<Inter>k \<in> set keys. mk_find (mk_file xs) k)"
    obtain tags where t: "(tags, v) \<in> set xs"
      using v assms(1) by (cases keys) (auto simp: mk_file_find)
    have "k \<in> set tags" if "k \<in> set keys" for k
      using v that same [OF t] by (auto simp: mk_file_find)
    with t show "\<exists>tags. (tags, v) \<in> set xs \<and> set keys \<subseteq> set tags"
      by blast
  qed (auto simp: mk_file_find)
  then have "(\<Inter>k \<in> set keys. mk_find (mk_file xs) k) = {v. \<exists>tags. (tags, v) \<in> set xs \<and> set keys \<subseteq> set tags}"
    by (intro set_eqI) (simp only: mem_Collect_eq)
  then show ?thesis
    by (simp only: multifind_inter [OF assms(1)])
qed

theorem multifind_all_tags_witness:
  "multifind (mk_file [([(''type'', ''sqli''), (''category'', ''attack''), (''team'', ''a'')], 1), ([(''type'', ''sqli'')], 2 :: nat)])
     [(''team'', ''a''), (''type'', ''sqli''), (''category'', ''attack'')] =
   Some {v. \<exists>tags. (tags, v) \<in> set [([(''type'', ''sqli''), (''category'', ''attack''), (''team'', ''a'')], 1), ([(''type'', ''sqli'')], 2)] \<and>
     set [(''team'', ''a''), (''type'', ''sqli''), (''category'', ''attack'')] \<subseteq> set tags}"
  by (rule multifind_all_tags) simp_all

text \<open>No tags at all are undefined behaviour: \<open>begin()\<close> is read before the size (\<open>mkmap.hpp:85\<close>).\<close>

lemma multifind_no_tags: "multifind data [] = None"
  by (simp add: multifind_def)

end
