(* ===== verification/Parameter.thy ===== *)
theory Parameter
  imports Objects
begin

text \<open>
  The objects of a rule set read as values (\<open>src/parameter.hpp\<close>, \<open>src/parameter.cpp\<close>), the
  exceptions of a load (\<open>src/exception.hpp\<close>) and the access by key (\<open>src/parser/common.hpp\<close>). The
  objects are taken to be well formed: the length of a string is within its buffer, and is 0
  without one.
\<close>

section \<open>Exceptions\<close>

text \<open>Other exceptions of the standard library have just their text.\<close>

datatype exn =
    Bad_Cast string string
  | Malformed_Object string
  | Parsing_Exn string
  | Missing_Key string
  | Invalid_Type string string string
  | Unsupported_Version
  | Std_Exception string

definition quoted :: "string \<Rightarrow> string" where
  "quoted s = CHR 0x27 # s @ [CHR 0x27]"

fun what :: "exn \<Rightarrow> string" where
  "what (Bad_Cast exp obt) = ''bad cast, expected '' @ quoted exp @ '', obtained '' @ quoted obt"
| "what (Malformed_Object w) = ''malformed object,'' @ w"
| "what (Parsing_Exn w) = w"
| "what (Missing_Key key) = ''missing key '' @ quoted key"
| "what (Invalid_Type key exp obt) =
     ''invalid type '' @ quoted obt @ '' for key '' @ quoted key @ '', expected '' @ quoted exp"
| "what Unsupported_Version = []"
| "what (Std_Exception w) = w"

text \<open>What \<open>catch (const ddwaf::exception &)\<close> catches.\<close>

fun is_ddwaf_exception :: "exn \<Rightarrow> bool" where
  "is_ddwaf_exception (Std_Exception _) = False"
| "is_ddwaf_exception _ = True"

type_synonym 'a throws = "exn + 'a"

definition bind_exn :: "'a throws \<Rightarrow> ('a \<Rightarrow> 'b throws) \<Rightarrow> 'b throws" where
  "bind_exn r f = (case r of Inl e \<Rightarrow> Inl e | Inr x \<Rightarrow> f x)"

lemma bind_exn_simps [simp]: "bind_exn (Inl e) f = Inl e" "bind_exn (Inr x) f = f x"
  by (simp_all add: bind_exn_def)

section \<open>The conversions\<close>

fun strtype :: "obj_type \<Rightarrow> string" where
  "strtype OBJ_MAP = ''map''"
| "strtype OBJ_ARRAY = ''array''"
| "strtype OBJ_STRING = ''string''"
| "strtype OBJ_BOOL = ''bool''"
| "strtype OBJ_UNSIGNED = ''unsigned''"
| "strtype OBJ_SIGNED = ''signed''"
| "strtype OBJ_INVALID = ''unknown''"

text \<open>The hash map of the entries: of entries with the same key the first one stays.\<close>

type_synonym pmap = "(string \<times> ddwaf_object) list"

primrec map_loop :: "ddwaf_object list \<Rightarrow> pmap \<Rightarrow> pmap throws" where
  "map_loop [] m = Inr m"
| "map_loop (kv # kvs) m =
     (case parameterName kv of
        None \<Rightarrow> Inl (Malformed_Object ''invalid key on map entry'')
      | Some key \<Rightarrow> map_loop kvs (if map_of m key = None then m @ [(key, kv)] else m))"

definition to_map :: "ddwaf_object \<Rightarrow> pmap throws" where
  "to_map ob = (case payload ob of
      Map a \<Rightarrow> map_loop (arr_items a) []
    | _ \<Rightarrow> Inl (Bad_Cast ''map'' (strtype (obj_type ob))))"

definition to_vector :: "ddwaf_object \<Rightarrow> ddwaf_object list throws" where
  "to_vector ob = (case payload ob of
      Array a \<Rightarrow> Inr (arr_items a)
    | _ \<Rightarrow> Inl (Bad_Cast ''array'' (strtype (obj_type ob))))"

text \<open>A pointer with a length, as a string.\<close>

definition str_of :: "buf option \<Rightarrow> nat \<Rightarrow> string" where
  "str_of sv n = (case sv of None \<Rightarrow> [] | Some a \<Rightarrow> take n a)"

primrec strings_loop :: "string \<Rightarrow> ddwaf_object list \<Rightarrow> string list \<Rightarrow> string list throws" where
  "strings_loop err [] data = Inr data"
| "strings_loop err (x # xs) data =
     (case payload x of
        Str sv n \<Rightarrow> strings_loop err xs (data @ [str_of sv n])
      | _ \<Rightarrow> Inl (Malformed_Object err))"

definition to_string_set :: "ddwaf_object \<Rightarrow> string set throws" where
  "to_string_set ob = (case payload ob of
      Array a \<Rightarrow> map_sum id set (strings_loop ''item in array not a string, can't cast to string set'' (arr_items a) [])
    | _ \<Rightarrow> Inl (Bad_Cast ''array'' (strtype (obj_type ob))))"

definition to_strings :: "ddwaf_object \<Rightarrow> string list throws" where
  "to_strings ob = (case payload ob of
      Array a \<Rightarrow> strings_loop ''item in array not a string, can't cast to string vector'' (arr_items a) []
    | _ \<Rightarrow> Inl (Bad_Cast ''array'' (strtype (obj_type ob))))"

definition to_string_views :: "ddwaf_object \<Rightarrow> string list throws" where
  "to_string_views ob = (case payload ob of
      Array a \<Rightarrow> strings_loop ''item in array not a string, can't cast to string_view vector'' (arr_items a) []
    | _ \<Rightarrow> Inl (Bad_Cast ''array'' (strtype (obj_type ob))))"

definition to_string_view :: "ddwaf_object \<Rightarrow> string throws" where
  "to_string_view ob = (case payload ob of
      Str (Some a) n \<Rightarrow> Inr (take n a)
    | _ \<Rightarrow> Inl (Bad_Cast ''string'' (strtype (obj_type ob))))"

definition to_string :: "ddwaf_object \<Rightarrow> string throws" where
  "to_string ob = (case payload ob of
      Str (Some a) n \<Rightarrow> Inr (take n a)
    | _ \<Rightarrow> Inl (Bad_Cast ''string'' (strtype (obj_type ob))))"

text \<open>
  \<open>std::from_chars\<close> in base 10: the longest prefix of digits, after a minus sign when the type is
  signed; no digits or a value out of range is an error. The result is the value and what is left.
\<close>

definition digit_value :: "char \<Rightarrow> nat" where
  "digit_value c = of_char c - 48"

definition digits_nat :: "string \<Rightarrow> nat" where
  "digits_nat = foldl (\<lambda>v c. 10 * v + digit_value c) 0"

definition from_chars_u64 :: "string \<Rightarrow> (nat \<times> string) option" where
  "from_chars_u64 s =
     (let ds = takeWhile isdigit s in
      if ds = [] \<or> digits_nat ds \<ge> 2 ^ 64 then None else Some (digits_nat ds, dropWhile isdigit s))"

definition from_chars_i64 :: "string \<Rightarrow> (int \<times> string) option" where
  "from_chars_i64 s =
     (let (neg, s') = (case s of c # cs \<Rightarrow> if c = CHR ''-'' then (True, cs) else (False, s) | [] \<Rightarrow> (False, []));
          ds = takeWhile isdigit s';
          v = (if neg then - int (digits_nat ds) else int (digits_nat ds))
      in if ds = [] \<or> \<not> (- (2 ^ 63) \<le> v \<and> v < 2 ^ 63) then None else Some (v, dropWhile isdigit s'))"

definition to_uint64 :: "ddwaf_object \<Rightarrow> u64 throws" where
  "to_uint64 ob =
     (let err = Inl (Bad_Cast ''unsigned'' (strtype (obj_type ob))) in
      case payload ob of
        Unsigned v \<Rightarrow> Inr v
      | Str (Some a) n \<Rightarrow>
          (case from_chars_u64 (take n a) of
             Some (v, left) \<Rightarrow> if left = [] then Inr (of_nat v) else err
           | None \<Rightarrow> err)
      | _ \<Rightarrow> err)"

definition to_int64 :: "ddwaf_object \<Rightarrow> u64 throws" where
  "to_int64 ob =
     (let err = Inl (Bad_Cast ''signed'' (strtype (obj_type ob))) in
      case payload ob of
        Signed v \<Rightarrow> Inr v
      | Str (Some a) n \<Rightarrow>
          (case from_chars_i64 (take n a) of
             Some (v, left) \<Rightarrow> if left = [] then Inr (of_int v) else err
           | None \<Rightarrow> err)
      | _ \<Rightarrow> err)"

definition spells :: "(char \<times> char) list \<Rightarrow> string \<Rightarrow> bool" where
  "spells word s \<longleftrightarrow> length s = length word \<and> list_all2 (\<lambda>c (u, l). c = u \<or> c = l) s word"

definition to_bool :: "ddwaf_object \<Rightarrow> bool throws" where
  "to_bool ob =
     (let err = Inl (Bad_Cast ''bool'' (strtype (obj_type ob))) in
      case payload ob of
        Bool b \<Rightarrow> Inr b
      | Str (Some a) n \<Rightarrow>
          (let s = take n a in
           if spells (zip ''TRUE'' ''true'') s then Inr True
           else if spells (zip ''FALSE'' ''false'') s then Inr False
           else err)
      | _ \<Rightarrow> err)"

section \<open>Access by key\<close>

text \<open>Only a failed conversion of the value itself becomes \<open>invalid_type\<close>.\<close>

definition keyed :: "string \<Rightarrow> 'a throws \<Rightarrow> 'a throws" where
  "keyed key r = (case r of Inl (Bad_Cast exp obt) \<Rightarrow> Inl (Invalid_Type key exp obt) | _ \<Rightarrow> r)"

definition at :: "(ddwaf_object \<Rightarrow> 'a throws) \<Rightarrow> pmap \<Rightarrow> string \<Rightarrow> 'a throws" where
  "at cast m key = (case map_of m key of None \<Rightarrow> Inl (Missing_Key key) | Some ob \<Rightarrow> keyed key (cast ob))"

definition at_default :: "(ddwaf_object \<Rightarrow> 'a throws) \<Rightarrow> pmap \<Rightarrow> string \<Rightarrow> 'a \<Rightarrow> 'a throws" where
  "at_default cast m key dflt = (case map_of m key of None \<Rightarrow> Inr dflt | Some ob \<Rightarrow> keyed key (cast ob))"

section \<open>Numbers\<close>

lemma digits_nat_snoc: "digits_nat (s @ [c]) = 10 * digits_nat s + digit_value c"
  by (simp add: digits_nat_def)

lemma digit_char: "d < 10 \<Longrightarrow> isdigit (char_of (48 + d)) \<and> digit_value (char_of (48 + d)) = d" for d :: nat
proof -
  assume d: "d < 10"
  have "\<forall>d \<in> set [0..<10]. isdigit (char_of (48 + d)) \<and> digit_value (char_of (48 + d)) = d"
    by code_simp
  then show ?thesis
    using d by auto
qed

lemma decimal_digits: "list_all isdigit (dec_nat n) \<and> digits_nat (dec_nat n) = n \<and> dec_nat n \<noteq> []"
proof (induction n rule: dec_nat.induct)
  case (1 n)
  show ?case
  proof (cases "n < 10")
    case True
    then show ?thesis
      using digit_char [of n] by (simp add: dec_nat.simps [of n] digits_nat_def)
  next
    case False
    then show ?thesis
      using "1.IH" digit_char [of "n mod 10"] by (simp add: dec_nat.simps [of n] digits_nat_snoc)
  qed
qed

lemma dec_nat_chars [simp]:
  "takeWhile isdigit (dec_nat n) = dec_nat n" "dropWhile isdigit (dec_nat n) = []"
  "digits_nat (dec_nat n) = n" "dec_nat n \<noteq> []"
  using decimal_digits [of n] by (auto simp: list_all_iff takeWhile_eq_all_conv dropWhile_eq_Nil_conv)

lemma from_chars_dec_nat: "n < 2 ^ 64 \<Longrightarrow> from_chars_u64 (dec_nat n) = Some (n, [])"
  by (simp add: from_chars_u64_def Let_def)

lemma minus_not_digit: "isdigit c \<Longrightarrow> c \<noteq> CHR ''-''"
  by (auto simp: isdigit_def)

lemma from_chars_dec_int:
  assumes "- (2 ^ 63) \<le> i" "i < 2 ^ 63"
  shows "from_chars_i64 (dec_int i) = Some (i, [])"
proof (cases "i < 0")
  case True
  then show ?thesis
    using assms by (simp add: from_chars_i64_def dec_int_def Let_def)
next
  case False
  obtain c cs where c: "dec_nat (nat i) = c # cs" "isdigit c"
    using decimal_digits [of "nat i"] by (cases "dec_nat (nat i)") auto
  then have "(case dec_nat (nat i) of c # cs \<Rightarrow> if c = CHR ''-'' then (True, cs) else (False, dec_nat (nat i)) | [] \<Rightarrow> (False, []))
      = (False, dec_nat (nat i))"
    using minus_not_digit [OF c(2)] by simp
  then show ?thesis
    using assms False by (simp add: from_chars_i64_def dec_int_def Let_def)
qed

text \<open>C39: A number survives its way through the API: the object that \<open>ddwaf_object_unsigned\<close> or
  \<open>ddwaf_object_signed\<close> makes of it, a string of digits, is read back as the same number, over the
  whole range of 64 bits.\<close>

theorem number_roundtrip:
  "(ddwaf_object_unsigned alloc (Some ob) v = Some (Some x) \<longrightarrow> to_uint64 x = Inr v) \<and>
   (ddwaf_object_signed alloc (Some ob) v = Some (Some y) \<longrightarrow> to_int64 y = Inr v)"
proof -
  have u: "unat v < 2 ^ 64"
    using unsigned_less [of v] by simp
  have i: "- (2 ^ 63) \<le> sint v" "sint v < 2 ^ 63"
    using sint_greater_eq [of v] sint_less [of v] by simp_all
  have short: "length (dec_nat (unat v)) \<le> 20"
    using length_dec_nat [of "unat v" 19] u by simp
  have "nat \<bar>sint v\<bar> < 10 ^ Suc 18"
    using i by simp
  from length_dec_nat [OF this] have short': "length (dec_int (sint v)) \<le> 20"
    by (cases "sint v < 0") (simp_all add: dec_int_def)
  have str: "x = Obj None (Str (Some (s @ [NUL])) (length s))"
    if "length s \<le> 20" "ddwaf_object_stringl alloc (Some ob) (Some (fst (snprintf21 s))) (snd (snprintf21 s)) = Some (Some x)" for s x
    using that by (auto simp: snprintf21_def ddwaf_object_stringl_def ddwaf_object_string_helper_def split: if_splits)
  have un: "to_uint64 (Obj None (Str (Some (dec_nat (unat v) @ [NUL])) (length (dec_nat (unat v))))) = Inr v"
    using u by (simp add: to_uint64_def from_chars_dec_nat)
  have si: "to_int64 (Obj None (Str (Some (dec_int (sint v) @ [NUL])) (length (dec_int (sint v))))) = Inr v"
    using i by (simp add: to_int64_def from_chars_dec_int)
  show ?thesis
    using str [OF short] str [OF short'] un si
    by (auto simp: ddwaf_object_unsigned_def ddwaf_object_signed_def split_beta Let_def)
qed

theorem number_roundtrip_witness:
  "\<exists>x y. ddwaf_object_unsigned (\<lambda>_. True) (Some (Obj None Invalid)) 42 = Some (Some x) \<and> to_uint64 x = Inr 42 \<and>
     ddwaf_object_signed (\<lambda>_. True) (Some (Obj None Invalid)) 42 = Some (Some y) \<and> to_int64 y = Inr 42"
proof -
  have "char_of (52 :: nat) = CHR ''4''" "char_of (50 :: nat) = CHR ''2''"
    by code_simp+
  then have num: "dec_nat 42 = ''42''"
    by (simp add: dec_nat.simps [of 42] dec_nat.simps [of 4])
  have "ddwaf_object_unsigned (\<lambda>_. True) (Some (Obj None Invalid)) 42 = Some (Some (Obj None (Str (Some (''42'' @ [NUL])) 2)))"
    "ddwaf_object_signed (\<lambda>_. True) (Some (Obj None Invalid)) 42 = Some (Some (Obj None (Str (Some (''42'' @ [NUL])) 2)))"
    by (simp_all add: ddwaf_object_unsigned_def ddwaf_object_signed_def snprintf21_def dec_int_def num
        ddwaf_object_stringl_def ddwaf_object_string_helper_def)
  with number_roundtrip [of "\<lambda>_. True" "Obj None Invalid" 42] show ?thesis
    by blast
qed

text \<open>A signed value read from an unsigned object is refused, whatever the number.\<close>

lemma unsigned_not_signed: "to_int64 (Obj k (Unsigned 5)) = Inl (Bad_Cast ''signed'' ''unsigned'')"
  by (simp add: to_int64_def obj_type_def Let_def)

end
