(* ===== verification/Ruleset_Info.thy ===== *)
theory Ruleset_Info
  imports Objects "HOL-Library.AList"
begin

text \<open>
  The diagnostics of a load (\<open>src/ruleset_info.hpp\<close>, \<open>src/ruleset_info.cpp\<close>): the counts, the
  version and, as an object, the errors with the identifiers of the rules that have them.
\<close>

section \<open>The code\<close>

text \<open>The version string is allocated; freeing it leaves the pointer behind.\<close>

datatype version_ptr = Null_Version | Version string | Freed_Version

record ddwaf_ruleset_info =
  loaded :: u16
  failed :: u16
  info_errors :: ddwaf_object
  info_version :: version_ptr

text \<open>\<open>info\<close> may be a null pointer. The keys of the cache are views of the keys of the object.\<close>

record ruleset_info =
  error_obj_cache :: "(string \<times> nat) list"
  info_ptr :: "ddwaf_ruleset_info option"

definition new_ruleset_info :: "ddwaf_ruleset_info option \<Rightarrow> ruleset_info" where
  "new_ruleset_info info =
     \<lparr>error_obj_cache = [],
      info_ptr = map_option (\<lambda>i. i\<lparr>loaded := 0, failed := 0, info_version := Null_Version,
        info_errors := the (ddwaf_object_map (Some (info_errors i)))\<rparr>) info\<rparr>"

definition on_info :: "(ddwaf_ruleset_info \<Rightarrow> ddwaf_ruleset_info) \<Rightarrow> ruleset_info \<Rightarrow> ruleset_info" where
  "on_info f s = s\<lparr>info_ptr := map_option f (info_ptr s)\<rparr>"

definition add_failed :: "ruleset_info \<Rightarrow> ruleset_info" where
  "add_failed = on_info (\<lambda>i. i\<lparr>failed := failed i + 1\<rparr>)"

definition add_loaded :: "ruleset_info \<Rightarrow> ruleset_info" where
  "add_loaded = on_info (\<lambda>i. i\<lparr>loaded := loaded i + 1\<rparr>)"

definition c_str :: "string \<Rightarrow> string" where
  "c_str s = takeWhile (\<lambda>c. c \<noteq> NUL) s"

text \<open>The comparison with \<open>""\<close> is a second look at the size. The reader of the field stops at a NUL.\<close>

definition set_version :: "string \<Rightarrow> ruleset_info \<Rightarrow> ruleset_info" where
  "set_version v s = (if v = [] then s else on_info (\<lambda>i. i\<lparr>info_version := Version (c_str v)\<rparr>) s)"

text \<open>The entry of an index, and the map with another object in its place.\<close>

fun put_entry :: "ddwaf_object \<Rightarrow> nat \<Rightarrow> ddwaf_object \<Rightarrow> ddwaf_object option" where
  "put_entry (Obj k (Map (Arr c xs))) i x = (if i < length xs then Some (Obj k (Map (Arr c (xs[i := x])))) else None)"
| "put_entry _ _ _ = None"

text \<open>
  What follows the choice of the array: \<open>id_str\<close> is uninitialised when there is no memory for
  the identifier, and is added all the same.
\<close>

definition append_id ::
    "(nat \<Rightarrow> bool) \<Rightarrow> string \<Rightarrow> nat \<Rightarrow> ddwaf_ruleset_info \<Rightarrow> ddwaf_ruleset_info option" where
  "append_id alloc rule_id i info =
     do { rule_array \<leftarrow> ddwaf_object_get_index (Some (info_errors info)) i;
          id_str \<leftarrow> ddwaf_object_stringl alloc (Some (Obj None Invalid)) (Some rule_id) (length rule_id);
          x \<leftarrow> id_str;
          (_, arr) \<leftarrow> ddwaf_object_array_add alloc (Some rule_array) (Some x);
          arr' \<leftarrow> arr;
          errors \<leftarrow> put_entry (info_errors info) i arr';
          Some (info\<lparr>info_errors := errors\<rparr>) }"

definition insert_error :: "(nat \<Rightarrow> bool) \<Rightarrow> string \<Rightarrow> string \<Rightarrow> ruleset_info \<Rightarrow> ruleset_info option" where
  "insert_error alloc rule_id error s =
     (case info_ptr s of
        None \<Rightarrow> Some s
      | Some info \<Rightarrow>
          (case map_of (error_obj_cache s) error of
             Some i \<Rightarrow> do { info' \<leftarrow> append_id alloc rule_id i info;
                            Some (add_failed (s\<lparr>info_ptr := Some info'\<rparr>)) }
           | None \<Rightarrow>
               do { (res, errors) \<leftarrow> ddwaf_object_map_addl alloc (Some (info_errors info)) (Some error) (length error)
                                       (ddwaf_object_array (Some (Obj None Invalid)));
                    errors' \<leftarrow> errors;
                    let info1 = info\<lparr>info_errors := errors'\<rparr>
                    in if \<not> res then Some (s\<lparr>info_ptr := Some info1\<rparr>)
                       else let i = nbEntries errors' - 1
                         in do { info2 \<leftarrow> append_id alloc rule_id i info1;
                                 Some (add_failed (s\<lparr>info_ptr := Some info2,
                                   error_obj_cache := AList.update error i (error_obj_cache s)\<rparr>)) } }))"

text \<open>The version is freed with \<open>delete[]\<close>; its pointer is not reset, that of the object is.\<close>

definition ddwaf_ruleset_info_free :: "ddwaf_ruleset_info option \<Rightarrow> ddwaf_ruleset_info option option" where
  "ddwaf_ruleset_info_free info =
     (case info of
        None \<Rightarrow> Some None
      | Some i \<Rightarrow>
          (let errors = the (ddwaf_object_free (Some (info_errors i))) in
           case info_version i of
             Null_Version \<Rightarrow> Some (Some (i\<lparr>info_errors := errors\<rparr>))
           | Version _ \<Rightarrow> Some (Some (i\<lparr>info_errors := errors, info_version := Freed_Version\<rparr>))
           | Freed_Version \<Rightarrow> None))"

section \<open>What is reported\<close>

text \<open>The calls of a load, and the diagnostics they are to give: counts, and identifiers by error.\<close>

datatype info_call = Add_Loaded | Add_Failed | Set_Version string | Insert_Error string string

fun info_step :: "(nat \<Rightarrow> bool) \<Rightarrow> info_call \<Rightarrow> ruleset_info \<Rightarrow> ruleset_info option" where
  "info_step alloc Add_Loaded s = Some (add_loaded s)"
| "info_step alloc Add_Failed s = Some (add_failed s)"
| "info_step alloc (Set_Version v) s = Some (set_version v s)"
| "info_step alloc (Insert_Error rule_id err) s = insert_error alloc rule_id err s"

primrec info_steps :: "(nat \<Rightarrow> bool) \<Rightarrow> info_call list \<Rightarrow> ruleset_info \<Rightarrow> ruleset_info option" where
  "info_steps alloc [] s = Some s"
| "info_steps alloc (c # cs) s = do { s' \<leftarrow> info_step alloc c s; info_steps alloc cs s' }"

record diagnostics =
  n_loaded :: nat
  n_failed :: nat
  said_version :: "string option"
  ids_of_error :: "string \<rightharpoonup> string list"

definition no_diagnostics :: diagnostics where
  "no_diagnostics = \<lparr>n_loaded = 0, n_failed = 0, said_version = None, ids_of_error = Map.empty\<rparr>"

fun spec_step :: "info_call \<Rightarrow> diagnostics \<Rightarrow> diagnostics" where
  "spec_step Add_Loaded d = d\<lparr>n_loaded := n_loaded d + 1\<rparr>"
| "spec_step Add_Failed d = d\<lparr>n_failed := n_failed d + 1\<rparr>"
| "spec_step (Set_Version v) d = (if v = [] then d else d\<lparr>said_version := Some (c_str v)\<rparr>)"
| "spec_step (Insert_Error rule_id err) d =
     d\<lparr>n_failed := n_failed d + 1,
       ids_of_error := (ids_of_error d)(err \<mapsto> (case ids_of_error d err of None \<Rightarrow> [] | Some ids \<Rightarrow> ids) @ [rule_id])\<rparr>"

fun text_of :: "ddwaf_object \<Rightarrow> string" where
  "text_of (Obj _ (Str (Some a) n)) = take n a"
| "text_of _ = []"

definition error_report :: "ddwaf_object \<Rightarrow> (string \<rightharpoonup> string list)" where
  "error_report ob = map_of (map (\<lambda>e. (the (parameterName e), map text_of (children e))) (children ob))"

definition refines :: "ddwaf_ruleset_info \<Rightarrow> diagnostics \<Rightarrow> bool" where
  "refines info d \<longleftrightarrow> loaded info = of_nat (n_loaded d) \<and> failed info = of_nat (n_failed d) \<and>
     info_version info = (case said_version d of None \<Rightarrow> Null_Version | Some v \<Rightarrow> Version v) \<and>
     error_report (info_errors info) = ids_of_error d"

text \<open>The map of errors holds arrays under distinct keys, and the cache knows the place of each.\<close>

definition error_entry :: "ddwaf_object \<Rightarrow> bool" where
  "error_entry e \<longleftrightarrow> (\<exists>k b. e = Obj (Some k) (Array b) \<and> arr_ok b)"

definition places :: "ddwaf_object list \<Rightarrow> string \<Rightarrow> nat option" where
  "places xs = map_of (map (\<lambda>i. (the (parameterName (xs ! i)), i)) [0..<length xs])"

definition info_ok :: "nat \<Rightarrow> ruleset_info \<Rightarrow> bool" where
  "info_ok n s \<longleftrightarrow> (\<exists>info a. info_ptr s = Some info \<and> info_errors info = Obj None (Map a) \<and> arr_ok a \<and>
     list_all error_entry (arr_items a) \<and> distinct (map (the \<circ> parameterName) (arr_items a)) \<and>
     map_of (error_obj_cache s) = places (arr_items a) \<and>
     length (arr_items a) \<le> n \<and> (\<forall>e \<in> set (arr_items a). length (children e) \<le> n))"

lemma places_Some:
  assumes "distinct (map (the \<circ> parameterName) xs)"
  shows "places xs err = Some i \<longleftrightarrow> i < length xs \<and> the (parameterName (xs ! i)) = err"
proof
  assume "places xs err = Some i"
  then show "i < length xs \<and> the (parameterName (xs ! i)) = err"
    by (auto simp: places_def dest!: map_of_SomeD)
next
  assume i: "i < length xs \<and> the (parameterName (xs ! i)) = err"
  have "map fst (map (\<lambda>i. (the (parameterName (xs ! i)), i)) [0..<length xs]) = map (the \<circ> parameterName) xs"
    by (intro nth_equalityI) simp_all
  with assms have "distinct (map fst (map (\<lambda>i. (the (parameterName (xs ! i)), i)) [0..<length xs]))"
    by simp
  then show "places xs err = Some i"
    unfolding places_def by (rule map_of_is_SomeI) (use i in auto)
qed

lemma places_None: "places xs err = None \<longleftrightarrow> err \<notin> (the \<circ> parameterName) ` set xs"
  by (force simp: places_def map_of_eq_None_iff in_set_conv_nth)

lemma places_snoc:
  assumes "the (parameterName x) \<notin> (the \<circ> parameterName) ` set xs"
  shows "places (xs @ [x]) = (places xs)(the (parameterName x) \<mapsto> length xs)"
proof -
  have "map (\<lambda>i. (the (parameterName ((xs @ [x]) ! i)), i)) [0..<length (xs @ [x])] =
      map (\<lambda>i. (the (parameterName (xs ! i)), i)) [0..<length xs] @ [(the (parameterName x), length xs)]"
    by (intro nth_equalityI) (auto simp: nth_append less_Suc_eq)
  then have "places (xs @ [x]) = [the (parameterName x) \<mapsto> length xs] ++ places xs"
    unfolding places_def by (simp only: map_of_append) simp
  moreover have "places xs (the (parameterName x)) = None"
    using assms by (simp add: places_None)
  ultimately show ?thesis
    by (intro ext) (auto simp: map_add_def split: option.split)
qed

lemma places_update:
  "i < length xs \<Longrightarrow> parameterName e = parameterName (xs ! i) \<Longrightarrow> places (xs[i := e]) = places xs"
  by (auto simp: places_def nth_list_update intro!: arg_cong [where f = map_of])

lemma report_lookup:
  assumes "distinct (map (the \<circ> parameterName) xs)" "i < length xs"
  shows "map_of (map (\<lambda>e. (the (parameterName e), map text_of (children e))) xs) (the (parameterName (xs ! i))) =
    Some (map text_of (children (xs ! i)))"
  using assms by (intro map_of_is_SomeI) (auto simp: comp_def)

lemma report_update:
  assumes "distinct (map (the \<circ> parameterName) xs)" "i < length xs" "parameterName e = parameterName (xs ! i)"
  shows "map_of (map (\<lambda>e. (the (parameterName e), map text_of (children e))) (xs[i := e])) =
    (map_of (map (\<lambda>e. (the (parameterName e), map text_of (children e))) xs))(the (parameterName (xs ! i)) \<mapsto> map text_of (children e))"
  using assms
proof (induction xs arbitrary: i)
  case (Cons x xs)
  show ?case
  proof (cases i)
    case (Suc j)
    then have "the (parameterName x) \<noteq> the (parameterName (xs ! j))"
      using Cons.prems(1, 2) by (auto simp: comp_def)
    then show ?thesis
      using Suc Cons.IH [of j] Cons.prems by (auto simp: fun_upd_twist)
  qed (use Cons.prems in auto)
qed simp

lemma insert_works:
  assumes "arr_ok a" "\<forall>n. alloc n" "length (arr_items a) + 8 \<le> SIZE_MAX div sizeof_object"
  shows "\<exists>a'. ddwaf_object_insert alloc a ob = Some (Some a') \<and> arr_ok a' \<and> arr_items a' = arr_items a @ [ob]"
proof -
  have "ddwaf_object_insert alloc a ob \<noteq> Some None"
    using assms by (cases a) (auto simp: Let_def)
  with insert_safe [OF assms(1), of alloc ob] show ?thesis
    by auto
qed

lemma append_id_works:
  assumes mem: "\<forall>n. alloc n" and len: "length rule_id < SIZE_MAX" and i: "i < length (arr_items a)"
    and errs: "info_errors info = Obj None (Map a)" "arr_ok a" "list_all error_entry (arr_items a)"
    and room: "length (children (arr_items a ! i)) + 8 \<le> SIZE_MAX div sizeof_object"
  shows "\<exists>e a'. append_id alloc rule_id i info = Some (info\<lparr>info_errors := Obj None (Map a')\<rparr>) \<and> arr_ok a' \<and>
    arr_items a' = (arr_items a)[i := e] \<and> parameterName e = parameterName (arr_items a ! i) \<and> error_entry e \<and>
    length (children e) = length (children (arr_items a ! i)) + 1 \<and>
    map text_of (children e) = map text_of (children (arr_items a ! i)) @ [rule_id]"
proof -
  obtain c xs where a: "a = Arr c xs"
    using i by (cases a) simp_all
  obtain k b where e: "xs ! i = Obj (Some k) (Array b)" "arr_ok b"
    using errs(3) i by (auto simp: a list_all_length error_entry_def)
  let ?x = "Obj None (Str (Some (rule_id @ [NUL])) (length rule_id))"
  obtain b' where b': "ddwaf_object_insert alloc b ?x = Some (Some b')" "arr_ok b'" "arr_items b' = arr_items b @ [?x]"
    using insert_works [OF e(2) mem] room by (auto simp: a e)
  have "ddwaf_object_get_index (Some (info_errors info)) i = Some (xs ! i)"
    using i by (simp add: ddwaf_object_get_index_def errs(1) a nbEntries_def)
  moreover have "ddwaf_object_stringl alloc (Some (Obj None Invalid)) (Some rule_id) (length rule_id) = Some (Some ?x)"
    using mem len by (simp add: ddwaf_object_stringl_def ddwaf_object_string_helper_def)
  moreover have "ddwaf_object_array_add alloc (Some (xs ! i)) (Some ?x) = Some (True, Some (Obj (Some k) (Array b')))"
    by (simp add: ddwaf_object_array_add_def e(1) obj_type_def b'(1))
  ultimately have "append_id alloc rule_id i info = Some (info\<lparr>info_errors := Obj None (Map (Arr c (xs[i := Obj (Some k) (Array b')])))\<rparr>)"
    using i by (simp add: append_id_def errs(1) a)
  moreover have "arr_ok (Arr c (xs[i := Obj (Some k) (Array b')]))"
    using errs(2) by (simp add: a)
  ultimately show ?thesis
    using e b' by (intro exI [of _ "Obj (Some k) (Array b')"] exI [of _ "Arr c (xs[i := Obj (Some k) (Array b')])"])
      (simp add: a error_entry_def)
qed

lemma names_update:
  assumes "i < length xs" "parameterName e = parameterName (xs ! i)"
  shows "map (the \<circ> parameterName) (xs[i := e]) = map (the \<circ> parameterName) xs"
  using assms by (metis comp_apply list_update_id map_update)

lemma known_error:
  assumes ok: "info_ok n s" and info: "info_ptr s = Some info" and i: "map_of (error_obj_cache s) err = Some i"
    and mem: "\<forall>n. alloc n" and len: "length rule_id < SIZE_MAX" and room: "n + 8 \<le> SIZE_MAX div sizeof_object"
  shows "\<exists>s' info'. insert_error alloc rule_id err s = Some s' \<and> info_ok (n + 1) s' \<and> info_ptr s' = Some info' \<and>
    loaded info' = loaded info \<and> failed info' = failed info + 1 \<and> info_version info' = info_version info \<and>
    error_report (info_errors info') = (error_report (info_errors info))(err \<mapsto>
      (case error_report (info_errors info) err of None \<Rightarrow> [] | Some ids \<Rightarrow> ids) @ [rule_id])"
proof -
  obtain a where a: "info_errors info = Obj None (Map a)" "arr_ok a" "list_all error_entry (arr_items a)"
    "distinct (map (the \<circ> parameterName) (arr_items a))" "map_of (error_obj_cache s) = places (arr_items a)"
    "length (arr_items a) \<le> n" "\<forall>e \<in> set (arr_items a). length (children e) \<le> n"
    using ok info by (auto simp: info_ok_def)
  have at: "i < length (arr_items a)" "the (parameterName (arr_items a ! i)) = err"
    using i places_Some [OF a(4)] by (simp_all add: a(5))
  have few: "length (children (arr_items a ! i)) \<le> n"
    using at(1) a(7) by simp
  then have "length (children (arr_items a ! i)) + 8 \<le> SIZE_MAX div sizeof_object"
    using room by simp
  from append_id_works [OF mem len at(1) a(1-3) this] obtain e a' where e:
    "append_id alloc rule_id i info = Some (info\<lparr>info_errors := Obj None (Map a')\<rparr>)" "arr_ok a'"
    "arr_items a' = (arr_items a)[i := e]" "parameterName e = parameterName (arr_items a ! i)" "error_entry e"
    "length (children e) = length (children (arr_items a ! i)) + 1"
    "map text_of (children e) = map text_of (children (arr_items a ! i)) @ [rule_id]"
    by (elim exE conjE) (rule that)
  have run: "insert_error alloc rule_id err s = Some (add_failed (s\<lparr>info_ptr := Some (info\<lparr>info_errors := Obj None (Map a')\<rparr>)\<rparr>))"
    using i by (simp add: insert_error_def info e(1))
  have entries: "list_all error_entry (arr_items a')"
    using a(3) e(5) set_update_subset_insert [of "arr_items a" i e] by (auto simp: e(3) list_all_iff)
  have sizes: "\<forall>x \<in> set (arr_items a'). length (children x) \<le> n + 1"
    using a(7) few e(6) set_update_subset_insert [of "arr_items a" i e] by (fastforce simp: e(3))
  have "info_ok (n + 1) (add_failed (s\<lparr>info_ptr := Some (info\<lparr>info_errors := Obj None (Map a')\<rparr>)\<rparr>))"
    using a e(2) entries sizes at(1) e(4)
    by (auto simp: info_ok_def add_failed_def on_info_def e(3) names_update places_update simp del: map_map)
  moreover have "error_report (Obj None (Map a')) = (error_report (info_errors info))(err \<mapsto>
      (case error_report (info_errors info) err of None \<Rightarrow> [] | Some ids \<Rightarrow> ids) @ [rule_id])"
    using report_update [OF a(4) at(1) e(4)] report_lookup [OF a(4) at(1)]
    by (simp add: error_report_def e(3) a(1) at(2) e(7))
  ultimately show ?thesis
    unfolding run by (auto simp: add_failed_def on_info_def)
qed

lemma new_error:
  assumes ok: "info_ok n s" and info: "info_ptr s = Some info" and i: "map_of (error_obj_cache s) err = None"
    and mem: "\<forall>n. alloc n" and len: "length rule_id < SIZE_MAX" "length err < SIZE_MAX" and room: "n + 8 \<le> SIZE_MAX div sizeof_object"
  shows "\<exists>s' info'. insert_error alloc rule_id err s = Some s' \<and> info_ok (n + 1) s' \<and> info_ptr s' = Some info' \<and>
    loaded info' = loaded info \<and> failed info' = failed info + 1 \<and> info_version info' = info_version info \<and>
    error_report (info_errors info') = (error_report (info_errors info))(err \<mapsto>
      (case error_report (info_errors info) err of None \<Rightarrow> [] | Some ids \<Rightarrow> ids) @ [rule_id])"
proof -
  obtain a where a: "info_errors info = Obj None (Map a)" "arr_ok a" "list_all error_entry (arr_items a)"
    "distinct (map (the \<circ> parameterName) (arr_items a))" "map_of (error_obj_cache s) = places (arr_items a)"
    "length (arr_items a) \<le> n" "\<forall>e \<in> set (arr_items a). length (children e) \<le> n"
    using ok info by (auto simp: info_ok_def)
  let ?x = "Obj (Some err) (Array (NullArr 0))" and ?k = "length (arr_items a)"
  have new: "err \<notin> (the \<circ> parameterName) ` set (arr_items a)"
    using i by (simp add: a(5) places_None)
  obtain a1 where a1: "ddwaf_object_insert alloc a ?x = Some (Some a1)" "arr_ok a1" "arr_items a1 = arr_items a @ [?x]"
    using insert_works [OF a(2) mem, of ?x] a(6) room by auto
  let ?info1 = "info\<lparr>info_errors := Obj None (Map a1)\<rparr>"
  have add: "ddwaf_object_map_addl alloc (Some (info_errors info)) (Some err) (length err) (ddwaf_object_array (Some (Obj None Invalid))) =
      Some (True, Some (Obj None (Map a1)))"
    using mem len(2) a1(1) by (simp add: ddwaf_object_map_addl_def ddwaf_object_map_add_helper_def ddwaf_object_array_def a(1) obj_type_def)
  have place: "nbEntries (Obj None (Map a1)) - 1 = ?k"
    using a1(3) by (cases a1) (simp_all add: nbEntries_def)
  have k: "?k < length (arr_items a1)" "arr_items a1 ! ?k = ?x"
    by (simp_all add: a1(3))
  have "info_errors ?info1 = Obj None (Map a1)" "list_all error_entry (arr_items a1)"
      "length (children (arr_items a1 ! ?k)) + 8 \<le> SIZE_MAX div sizeof_object"
    using a(3) room by (simp_all add: a1(3) error_entry_def)
  from append_id_works [OF mem len(1) k(1) this(1) a1(2) this(2, 3)] obtain e a' where e:
    "append_id alloc rule_id ?k ?info1 = Some (?info1\<lparr>info_errors := Obj None (Map a')\<rparr>)" "arr_ok a'"
    "arr_items a' = (arr_items a1)[?k := e]" "parameterName e = parameterName (arr_items a1 ! ?k)" "error_entry e"
    "length (children e) = length (children (arr_items a1 ! ?k)) + 1"
    "map text_of (children e) = map text_of (children (arr_items a1 ! ?k)) @ [rule_id]"
    by (elim exE conjE) (rule that)
  have items: "arr_items a' = arr_items a @ [e]" and named: "the (parameterName e) = err" and one: "map text_of (children e) = [rule_id]" "length (children e) = 1"
    using e by (simp_all add: a1(3))
  let ?s' = "add_failed (s\<lparr>info_ptr := Some (info\<lparr>info_errors := Obj None (Map a')\<rparr>), error_obj_cache := AList.update err ?k (error_obj_cache s)\<rparr>)"
  have run: "insert_error alloc rule_id err s = Some ?s'"
    using i e(1) by (simp add: insert_error_def info add place [simplified] Let_def)
  have "map_of (AList.update err ?k (error_obj_cache s)) = places (arr_items a')"
    using places_snoc [of e "arr_items a"] new by (simp add: items named update_conv' a(5))
  then have "info_ok (n + 1) ?s'"
    using a e(2, 5) new one(2) by (auto simp: info_ok_def add_failed_def on_info_def items named)
  moreover have "error_report (Obj None (Map a')) = (error_report (info_errors info))(err \<mapsto>
      (case error_report (info_errors info) err of None \<Rightarrow> [] | Some ids \<Rightarrow> ids) @ [rule_id])"
  proof -
    have none: "error_report (info_errors info) err = None"
      using new by (auto simp: error_report_def a(1) map_of_eq_None_iff)
    then show ?thesis
      by (intro ext) (auto simp: error_report_def a(1) items named one(1) map_add_def split: option.split)
  qed
  ultimately show ?thesis
    unfolding run by (auto simp: add_failed_def on_info_def)
qed

text \<open>One call.\<close>

definition call_fits :: "info_call \<Rightarrow> bool" where
  "call_fits c \<longleftrightarrow> (case c of Insert_Error rule_id err \<Rightarrow> length rule_id < SIZE_MAX \<and> length err < SIZE_MAX | _ \<Rightarrow> True)"

definition info_simulates :: "nat \<Rightarrow> ruleset_info \<Rightarrow> diagnostics \<Rightarrow> bool" where
  "info_simulates n s d \<longleftrightarrow> info_ok n s \<and> (\<exists>info. info_ptr s = Some info \<and> refines info d)"

lemma info_ok_on_info:
  "info_ok n s \<Longrightarrow> (\<And>i. info_errors (f i) = info_errors i) \<Longrightarrow> info_ok (n + 1) (on_info f s)"
  by (fastforce simp: info_ok_def on_info_def)

lemma step_simulates:
  assumes "info_simulates n s d" "\<forall>n. alloc n" "call_fits c" "n + 8 \<le> SIZE_MAX div sizeof_object"
  shows "\<exists>s'. info_step alloc c s = Some s' \<and> info_simulates (n + 1) s' (spec_step c d)"
proof (cases c)
  case (Insert_Error rule_id err)
  obtain info where info: "info_ok n s" "info_ptr s = Some info" "refines info d"
    using assms(1) by (auto simp: info_simulates_def)
  have len: "length rule_id < SIZE_MAX" "length err < SIZE_MAX"
    using assms(3) by (simp_all add: call_fits_def Insert_Error)
  have "\<exists>s' info'. insert_error alloc rule_id err s = Some s' \<and> info_ok (n + 1) s' \<and> info_ptr s' = Some info' \<and>
      loaded info' = loaded info \<and> failed info' = failed info + 1 \<and> info_version info' = info_version info \<and>
      error_report (info_errors info') = (error_report (info_errors info))(err \<mapsto>
        (case error_report (info_errors info) err of None \<Rightarrow> [] | Some ids \<Rightarrow> ids) @ [rule_id])"
    using known_error [OF info(1, 2) _ assms(2) len(1) assms(4)] new_error [OF info(1, 2) _ assms(2) len assms(4)]
    by (cases "map_of (error_obj_cache s) err") (assumption | simp)+
  then show ?thesis
    using info(3) by (auto simp: Insert_Error info_simulates_def refines_def algebra_simps)
next
  case (Set_Version v)
  have "info_ok (n + 1) s"
    using assms(1) by (fastforce simp: info_simulates_def info_ok_def)
  with assms(1) info_ok_on_info show ?thesis
    by (auto simp: Set_Version set_version_def info_simulates_def refines_def) (auto simp: on_info_def)
next
  case Add_Loaded
  with assms(1) show ?thesis
    by (auto simp: add_loaded_def info_simulates_def refines_def info_ok_on_info [simplified]) (simp add: on_info_def algebra_simps)
next
  case Add_Failed
  with assms(1) show ?thesis
    by (auto simp: add_failed_def info_simulates_def refines_def info_ok_on_info [simplified]) (simp add: on_info_def algebra_simps)
qed

lemma steps_simulate:
  assumes "\<forall>n. alloc n"
  shows "info_simulates n s d \<Longrightarrow> \<forall>c \<in> set cs. call_fits c \<Longrightarrow> n + length cs + 8 \<le> SIZE_MAX div sizeof_object \<Longrightarrow>
    \<exists>s'. info_steps alloc cs s = Some s' \<and> info_simulates (n + length cs) s' (fold spec_step cs d)"
proof (induction cs arbitrary: n s d)
  case (Cons c cs)
  obtain s1 where s1: "info_step alloc c s = Some s1" "info_simulates (n + 1) s1 (spec_step c d)"
    using step_simulates [OF Cons.prems(1) assms, of c] Cons.prems(2, 3) by auto
  with Cons.IH [OF s1(2)] Cons.prems(2, 3) show ?case
    by auto
qed simp

text \<open>C13: The diagnostics refine their specification: after any calls of a load, the structure that
  the caller gave holds the counts, the last version that is not empty, and a map that gives for every error exactly the
  identifiers it was reported for, in their order. Memory is there, and the calls are fewer than
  the entries that a container can have.\<close>

theorem info_refines_diagnostics:
  assumes "\<forall>n. alloc n" "\<forall>c \<in> set cs. call_fits c" "length cs + 8 \<le> SIZE_MAX div sizeof_object"
  shows "\<exists>s info. info_steps alloc cs (new_ruleset_info (Some junk)) = Some s \<and> info_ptr s = Some info \<and>
    refines info (fold spec_step cs no_diagnostics)"
proof -
  have "info_simulates 0 (new_ruleset_info (Some junk)) no_diagnostics"
    by (simp add: info_simulates_def new_ruleset_info_def info_ok_def refines_def no_diagnostics_def ddwaf_object_map_def
        places_def error_report_def)
  from steps_simulate [OF assms(1) this assms(2)] assms(3) show ?thesis
    by (auto simp: info_simulates_def)
qed

theorem info_refines_diagnostics_witness:
  "\<exists>s info. info_steps (\<lambda>_. True) [Add_Loaded, Insert_Error ''a'' ''bad'', Insert_Error ''b'' ''bad'']
      (new_ruleset_info (Some \<lparr>loaded = 7, failed = 7, info_errors = Obj None Invalid, info_version = Null_Version\<rparr>)) = Some s \<and>
    info_ptr s = Some info \<and> refines info (fold spec_step [Add_Loaded, Insert_Error ''a'' ''bad'', Insert_Error ''b'' ''bad''] no_diagnostics)"
  by (rule info_refines_diagnostics) (simp_all add: call_fits_def)

text \<open>Nothing is kept without a structure.\<close>

lemma info_null: "info_steps alloc cs (new_ruleset_info None) = Some (new_ruleset_info None)"
proof (induction cs)
  case (Cons c cs)
  then show ?case
    by (cases c) (simp_all add: new_ruleset_info_def add_loaded_def add_failed_def set_version_def on_info_def insert_error_def)
qed simp

text \<open>
  Without memory for an identifier, the uninitialised \<open>id_str\<close> is added; and a structure that has
  a version cannot be freed twice, as an object can.
\<close>

lemma no_memory_for_id:
  "insert_error (\<lambda>n. n \<noteq> 6) ''rule1'' ''bad''
     (new_ruleset_info (Some \<lparr>loaded = 0, failed = 0, info_errors = Obj None Invalid, info_version = Null_Version\<rparr>)) = None"
  by (simp add: insert_error_def new_ruleset_info_def ddwaf_object_map_def ddwaf_object_array_def ddwaf_object_map_addl_def
      ddwaf_object_map_add_helper_def obj_type_def append_id_def ddwaf_object_get_index_def nbEntries_def
      ddwaf_object_stringl_def ddwaf_object_string_helper_def Let_def)

lemma info_freed_twice:
  "info_version info = Version v \<Longrightarrow>
   (case ddwaf_ruleset_info_free (Some info) of None \<Rightarrow> None | Some info' \<Rightarrow> ddwaf_ruleset_info_free info') = None"
  by (simp add: ddwaf_ruleset_info_free_def Let_def)

end
