(* ===== verification/Specification.thy ===== *)
theory Specification
  imports Exclusion Parameter Ruleset_Info
begin

text \<open>
  What the parsers make of a rule set (\<open>src/parser/specification.hpp\<close>), and the actions that they
  are: functions on a state that may throw, keeping the changes of the state.
\<close>

section \<open>The specifications\<close>

record rule_spec =
  spec_enabled :: bool
  spec_name :: string
  spec_tags :: "(string \<times> string) list"
  spec_conditions :: "condition list"
  spec_actions :: "string list"

datatype target_kind = Target_None | Target_Id | Target_Tags

record rule_target_spec =
  target_kind_of :: target_kind
  target_rule_id :: string
  target_tags :: "(string \<times> string) list"

record override_spec =
  ovrd_enabled :: "bool option"
  ovrd_actions :: "string list option"
  ovrd_targets :: "rule_target_spec list"

record rule_filter_spec =
  rfs_conditions :: "condition list"
  rfs_targets :: "rule_target_spec list"

record input_filter_spec =
  ifs_conditions :: "condition list"
  ifs_filter :: object_filter
  ifs_targets :: "rule_target_spec list"

text \<open>The hash maps are lists of entries: their order stands for that of the iteration.\<close>

type_synonym rule_spec_container = "(string \<times> rule_spec) list"
type_synonym rule_data_container = "(string \<times> processor) list"

record override_spec_container =
  by_ids :: "override_spec list"
  by_tags :: "override_spec list"

definition no_overrides :: override_spec_container where
  "no_overrides = \<lparr>by_ids = [], by_tags = []\<rparr>"

definition overrides_empty :: "override_spec_container \<Rightarrow> bool" where
  "overrides_empty c \<longleftrightarrow> by_ids c = [] \<and> by_tags c = []"

definition overrides_clear :: "override_spec_container \<Rightarrow> override_spec_container" where
  "overrides_clear c = c\<lparr>by_ids := [], by_tags := []\<rparr>"

record filter_spec_container =
  filter_ids :: "string set"
  spec_rule_filters :: "(string \<times> rule_filter_spec) list"
  spec_input_filters :: "(string \<times> input_filter_spec) list"

definition no_filters :: filter_spec_container where
  "no_filters = \<lparr>filter_ids = {}, spec_rule_filters = [], spec_input_filters = []\<rparr>"

definition filters_empty :: "filter_spec_container \<Rightarrow> bool" where
  "filters_empty c \<longleftrightarrow> spec_rule_filters c = [] \<and> spec_input_filters c = []"

definition filters_clear :: "filter_spec_container \<Rightarrow> filter_spec_container" where
  "filters_clear c = c\<lparr>spec_rule_filters := [], spec_input_filters := []\<rparr>"

section \<open>Actions\<close>

text \<open>
  An action gives \<open>None\<close> for undefined behaviour, else an exception or a value with the new state:
  what was changed before an exception stays changed.
\<close>

type_synonym ('s, 'a) action = "'s \<Rightarrow> ('a throws \<times> 's) option"

definition lift :: "'a throws \<Rightarrow> ('s, 'a) action" where
  "lift r = (\<lambda>s. Some (r, s))"

definition lift_opt :: "'a throws option \<Rightarrow> ('s, 'a) action" where
  "lift_opt r = (\<lambda>s. map_option (\<lambda>r. (r, s)) r)"

definition bind_act :: "('s, 'a) action \<Rightarrow> ('a \<Rightarrow> ('s, 'b) action) \<Rightarrow> ('s, 'b) action" where
  "bind_act m f = (\<lambda>s. case m s of None \<Rightarrow> None
     | Some (r, s') \<Rightarrow> (case r of Inl e \<Rightarrow> Some (Inl e, s') | Inr x \<Rightarrow> f x s'))"

primrec for_each :: "('a \<Rightarrow> ('s, 'b) action) \<Rightarrow> 'a list \<Rightarrow> ('s, 'b list) action" where
  "for_each f [] = lift (Inr [])"
| "for_each f (x # xs) = bind_act (f x) (\<lambda>y. bind_act (for_each f xs) (\<lambda>ys. lift (Inr (y # ys))))"

text \<open>The same without a state.\<close>

primrec map_exn :: "('a \<Rightarrow> 'b throws) \<Rightarrow> 'a list \<Rightarrow> 'b list throws" where
  "map_exn f [] = Inr []"
| "map_exn f (x # xs) = bind_exn (f x) (\<lambda>y. bind_exn (map_exn f xs) (\<lambda>ys. Inr (y # ys)))"

text \<open>What the parsers change: the manifest, the identifiers of rule data and the pointer of the next new object.\<close>

record parse_state =
  ps_manifest :: manifest
  ps_data_ids :: "(string \<times> string) list"
  ps_next :: nat

section \<open>What holds of an action\<close>

text \<open>
  \<open>makes R G m\<close>: however the action ends, \<open>R\<close> leads from the old state to the new one, and for a
  value \<open>G\<close> holds of the old state, the value and the new state.
\<close>

definition makes :: "('s \<Rightarrow> 's \<Rightarrow> bool) \<Rightarrow> ('s \<Rightarrow> 'a \<Rightarrow> 's \<Rightarrow> bool) \<Rightarrow> ('s, 'a) action \<Rightarrow> bool" where
  "makes R G m \<longleftrightarrow> (\<forall>s r s'. m s = Some (r, s') \<longrightarrow> R s s' \<and> (\<forall>x. r = Inr x \<longrightarrow> G s x s'))"

lemma makesD: "makes R G m \<Longrightarrow> m s = Some (r, s') \<Longrightarrow> R s s' \<and> (\<forall>x. r = Inr x \<longrightarrow> G s x s')"
  by (auto simp: makes_def)

lemma makes_weaken: "makes R G m \<Longrightarrow> (\<And>s x s'. R s s' \<Longrightarrow> G s x s' \<Longrightarrow> G' s x s') \<Longrightarrow> makes R G' m"
  by (fastforce simp: makes_def)

locale progress =
  fixes R :: "'s \<Rightarrow> 's \<Rightarrow> bool"
  assumes R_refl: "R s s"
    and R_trans: "R s s' \<Longrightarrow> R s' s'' \<Longrightarrow> R s s''"
begin

lemma lift_rule: "(\<And>x s. r = Inr x \<Longrightarrow> G s x s) \<Longrightarrow> makes R G (lift r)"
  by (simp add: makes_def lift_def R_refl)

lemma bind_lift_rule: "(\<And>x. r = Inr x \<Longrightarrow> makes R G (f x)) \<Longrightarrow> makes R G (bind_act (lift r) f)"
  by (cases r) (auto simp: makes_def bind_act_def lift_def R_refl)

lemma bind_lift_opt_rule: "(\<And>x. r = Some (Inr x) \<Longrightarrow> makes R G (f x)) \<Longrightarrow> makes R G (bind_act (lift_opt r) f)"
  by (cases r) (auto simp: makes_def bind_act_def lift_opt_def R_refl split: sum.splits)

lemma bind_rule:
  assumes "makes R G1 m" "\<And>x s0. makes R (\<lambda>s y s'. G1 s0 x s \<longrightarrow> R s0 s \<longrightarrow> G s0 y s') (f x)"
  shows "makes R G (bind_act m f)"
  unfolding makes_def
proof (intro allI impI)
  fix s r s'
  assume run: "bind_act m f s = Some (r, s')"
  show "R s s' \<and> (\<forall>x. r = Inr x \<longrightarrow> G s x s')"
  proof (cases "m s")
    case (Some res)
    obtain r1 s1 where res: "res = (r1, s1)"
      by (cases res)
    have m: "R s s1" "\<And>x. r1 = Inr x \<Longrightarrow> G1 s x s1"
      using makesD [OF assms(1), of s r1 s1] by (simp_all add: Some res)
    show ?thesis
    proof (cases r1)
      case (Inl e)
      with run m(1) show ?thesis
        by (auto simp: bind_act_def Some res)
    next
      case (Inr x)
      then have "f x s1 = Some (r, s')"
        using run by (simp add: bind_act_def Some res)
      from makesD [OF assms(2) [of s x] this] m(1) m(2) [OF Inr] R_trans show ?thesis
        by blast
    qed
  qed (use run in \<open>simp add: bind_act_def\<close>)
qed

lemma each_rule:
  assumes "\<And>x. makes R (\<lambda>_. G) (f x)" "\<And>y s s'. R s s' \<Longrightarrow> G y s \<Longrightarrow> G y s'"
  shows "makes R (\<lambda>_ ys s. \<forall>y \<in> set ys. G y s) (for_each f xs)"
proof (induction xs)
  case Nil
  show ?case
    unfolding for_each.simps by (rule lift_rule) simp
next
  case (Cons x xs)
  show ?case
    unfolding for_each.simps
    by (rule bind_rule [OF assms(1)], rule bind_rule [OF Cons.IH], rule lift_rule) (auto dest: assms(2))
qed

end

end
