(* ===== verification/Parser_V2.thy ===== *)
theory Parser_V2
  imports Specification Transformer
begin

text \<open>
  The parser of rule sets of version 2 (\<open>src/parser/parser_v2.cpp\<close>), with that of rule data
  (\<open>src/parser/rule_data_parser.cpp\<close>).
\<close>

section \<open>Operators and conditions\<close>

text \<open>The exceptions of the constructors of the operators.\<close>

fun exn_of :: "processor_error \<Rightarrow> exn" where
  "exn_of Invalid_Argument = Std_Exception ''inconsistent pattern and lengths array size''"
| "exn_of Runtime_Error = Std_Exception ''failed to instantiate ac handler''"
| "exn_of (Parsing_Error w) = Parsing_Exn w"

definition made :: "processor_error + processor \<Rightarrow> processor throws" where
  "made r = map_sum exn_of id r"

primrec phrases_loop :: "ddwaf_object list \<Rightarrow> (string \<times> u32) list throws" where
  "phrases_loop [] = Inr []"
| "phrases_loop (pattern # list) =
     (case payload pattern of
        Str sv n \<Rightarrow> bind_exn (phrases_loop list) (\<lambda>ps. Inr ((str_of sv n, of_nat n) # ps))
      | _ \<Rightarrow> Inl (Parsing_Exn ''phrase_match list item not a string''))"

definition parse_phrase_match :: "libs \<Rightarrow> pmap \<Rightarrow> processor throws" where
  "parse_phrase_match env params =
     bind_exn (at to_vector params ''list'') (\<lambda>list.
     bind_exn (phrases_loop list) (\<lambda>patterns.
     made (new_phrase_match env (map fst patterns) (map snd patterns))))"

definition parse_regex_match :: "libs \<Rightarrow> pmap \<Rightarrow> processor throws" where
  "parse_regex_match env params =
     bind_exn (at to_string params ''regex'') (\<lambda>regex.
     bind_exn (at_default to_map params ''options'' []) (\<lambda>options.
     bind_exn (at_default to_bool options ''case_sensitive'' False) (\<lambda>case_sensitive.
     bind_exn (at_default to_int64 options ''min_length'' 0) (\<lambda>min_length.
     if sint min_length < 0 then Inl (Parsing_Exn ''min_length is a negative number'')
     else made (new_regex_match env regex (unat min_length) case_sensitive)))))"

text \<open>The list of an operator, or else the identifier of its data.\<close>

definition list_or_data ::
    "pmap \<Rightarrow> (ddwaf_object \<Rightarrow> processor throws option) \<Rightarrow> (string \<times> processor option) throws option" where
  "list_or_data params mk =
     (case map_of params ''list'' of
        None \<Rightarrow> Some (bind_exn (at to_string params ''data'') (\<lambda>rule_data_id. Inr (rule_data_id, None)))
      | Some ob \<Rightarrow> map_option (\<lambda>r. bind_exn r (\<lambda>p. Inr ([], Some p))) (mk ob))"

definition parse_processor :: "libs \<Rightarrow> string \<Rightarrow> pmap \<Rightarrow> (string \<times> processor option) throws option" where
  "parse_processor env operation params =
     (let only = (\<lambda>r. Some (bind_exn r (\<lambda>p. Inr ([], Some p)))) in
      if operation = ''phrase_match'' then only (parse_phrase_match env params)
      else if operation = ''match_regex'' then only (parse_regex_match env params)
      else if operation = ''is_xss'' then only (Inr Is_Xss)
      else if operation = ''is_sqli'' then only (Inr Is_Sqli)
      else if operation = ''ip_match'' then
        list_or_data params (\<lambda>ob. case to_string_views ob of
            Inl e \<Rightarrow> Some (Inl e)
          | Inr xs \<Rightarrow> map_option Inr (ip_match_of_strings (lib_inet env) xs))
      else if operation = ''exact_match'' then
        list_or_data params (\<lambda>ob. Some (bind_exn (to_strings ob) (\<lambda>xs. Inr (exact_match_of_strings xs))))
      else Some (Inl (Parsing_Exn (''unknown processor: '' @ operation))))"

text \<open>The target of an input: its address gets a place in the manifest.\<close>

definition insert_target :: "string \<Rightarrow> string list \<Rightarrow> (parse_state, target_type) action" where
  "insert_target address kp = (\<lambda>s. let (t, m) = manifest_insert (ps_manifest s) address in
     Some (Inr \<lparr>root = t, target_name = address, key_path = kp\<rparr>, s\<lparr>ps_manifest := m\<rparr>))"

definition parse_target :: "ddwaf_object \<Rightarrow> (parse_state, target_type) action" where
  "parse_target input_param =
     bind_act (lift (to_map input_param)) (\<lambda>input.
     bind_act (lift (at to_string input ''address'')) (\<lambda>address.
     if address = [] then lift (Inl (Parsing_Exn ''empty address''))
     else bind_act (lift (at_default to_strings input ''key_path'' [])) (\<lambda>kp.
       if list_ex (\<lambda>path. path = []) kp then lift (Inl (Parsing_Exn ''empty key_path''))
       else insert_target address kp)))"

definition parse_targets :: "pmap \<Rightarrow> (parse_state, target_type list) action" where
  "parse_targets params =
     bind_act (lift (at to_vector params ''inputs'')) (\<lambda>inputs.
     if inputs = [] then lift (Inl (Parsing_Exn ''empty inputs''))
     else for_each parse_target inputs)"

text \<open>\<open>make_shared\<close>: a new object, told from the others by its pointer.\<close>

definition new_condition ::
    "target_type list \<Rightarrow> transform_id list \<Rightarrow> processor option \<Rightarrow> string \<Rightarrow> object_limits \<Rightarrow> data_source
     \<Rightarrow> (parse_state, condition) action" where
  "new_condition ts xfs p rule_data_id lim source = (\<lambda>s.
     Some (Inr \<lparr>cond_ptr = ps_next s, cond_targets = ts, transformers = xfs, cond_processor = p,
                data_id = rule_data_id, cond_limits = lim, cond_source = source\<rparr>, s\<lparr>ps_next := ps_next s + 1\<rparr>))"

definition note_data_id :: "string \<Rightarrow> string \<Rightarrow> (parse_state, unit) action" where
  "note_data_id rule_data_id operation = (\<lambda>s.
     Some (Inr (), s\<lparr>ps_data_ids := emplace rule_data_id operation (ps_data_ids s)\<rparr>))"

definition parse_rule_condition ::
    "libs \<Rightarrow> pmap \<Rightarrow> data_source \<Rightarrow> transform_id list \<Rightarrow> object_limits \<Rightarrow> (parse_state, condition) action" where
  "parse_rule_condition env cond source xfs lim =
     bind_act (lift (at to_string_view cond ''operator'')) (\<lambda>operation.
     bind_act (lift (at to_map cond ''parameters'')) (\<lambda>params.
     bind_act (lift_opt (parse_processor env operation params)) (\<lambda>(rule_data_id, p).
     bind_act (if p = None \<and> rule_data_id \<noteq> [] then note_data_id rule_data_id operation else lift (Inr ())) (\<lambda>_.
     bind_act (parse_targets params) (\<lambda>ts.
     new_condition ts xfs p rule_data_id lim source)))))"

section \<open>Rules\<close>

primrec transformers_loop ::
    "ddwaf_object list \<Rightarrow> data_source \<Rightarrow> transform_id list \<Rightarrow> (data_source \<times> transform_id list) throws" where
  "transformers_loop [] source xfs = Inr (source, xfs)"
| "transformers_loop (transformer_param # rest) source xfs =
     bind_exn (to_string_view transformer_param) (\<lambda>transformer.
     let transform_id = getIDForString transformer in
     if transform_id = PWT_INVALID then Inl (Parsing_Exn (''invalid transformer '' @ transformer))
     else if transform_id = PWT_KEYS_ONLY then transformers_loop rest Keys xfs
     else transformers_loop rest source (xfs @ [transform_id]))"

definition parse_tags :: "pmap \<Rightarrow> (string \<times> string) list throws" where
  "parse_tags rule_map =
     bind_exn (at to_map rule_map ''tags'') (\<lambda>tag_map.
     bind_exn (map_exn (\<lambda>(key, v). bind_exn (keyed key (to_string v)) (\<lambda>str. Inr (key, str))) tag_map) (\<lambda>rule_tags.
     if map_of rule_tags ''type'' = None then Inl (Parsing_Exn (''missing key '' @ quoted ''type''))
     else Inr rule_tags))"

definition parse_rule :: "libs \<Rightarrow> pmap \<Rightarrow> object_limits \<Rightarrow> (parse_state, rule_spec) action" where
  "parse_rule env rule_map lim =
     bind_act (lift (at_default to_vector rule_map ''transformers'' [])) (\<lambda>transformers_array.
     bind_act (lift (transformers_loop transformers_array Values [])) (\<lambda>(source, xfs).
     bind_act (lift (at to_vector rule_map ''conditions'')) (\<lambda>conditions_array.
     bind_act (for_each (\<lambda>cond_param. bind_act (lift (to_map cond_param)) (\<lambda>cond.
         parse_rule_condition env cond source xfs lim)) conditions_array) (\<lambda>conds.
     bind_act (lift (parse_tags rule_map)) (\<lambda>rule_tags.
     bind_act (lift (at_default to_bool rule_map ''enabled'' True)) (\<lambda>is_enabled.
     bind_act (lift (at to_string rule_map ''name'')) (\<lambda>name.
     bind_act (lift (at_default to_strings rule_map ''on_match'' [])) (\<lambda>on_match.
     lift (Inr \<lparr>spec_enabled = is_enabled, spec_name = name, spec_tags = rule_tags, spec_conditions = conds,
                spec_actions = on_match\<rparr>)))))))))"

text \<open>
  A rule that cannot be parsed is reported, under its identifier when that was read. An entry that
  is no map at all ends the load.
\<close>

primrec parse_rules_loop ::
    "(nat \<Rightarrow> bool) \<Rightarrow> libs \<Rightarrow> object_limits \<Rightarrow> ddwaf_object list \<Rightarrow> rule_spec_container \<Rightarrow> parse_state \<Rightarrow> ruleset_info
     \<Rightarrow> (rule_spec_container throws \<times> parse_state \<times> ruleset_info) option" where
  "parse_rules_loop alloc env lim [] specs s info = Some (Inr specs, s, info)"
| "parse_rules_loop alloc env lim (rule_param # rest) specs s info =
     (case to_map rule_param of
        Inl e \<Rightarrow> Some (Inl e, s, info)
      | Inr rule_map \<Rightarrow>
          (case at to_string rule_map ''id'' of
             Inl e \<Rightarrow> parse_rules_loop alloc env lim rest specs s (add_failed info)
           | Inr i \<Rightarrow>
               if map_of specs i \<noteq> None then
                 do { info' \<leftarrow> insert_error alloc i ''duplicate rule'' info;
                      parse_rules_loop alloc env lim rest specs s info' }
               else
                 do { (res, s') \<leftarrow> parse_rule env rule_map lim s;
                      (case res of
                         Inr spec \<Rightarrow> parse_rules_loop alloc env lim rest (specs @ [(i, spec)]) s' (add_loaded info)
                       | Inl e \<Rightarrow>
                           if i \<noteq> [] then
                             do { info' \<leftarrow> insert_error alloc i (c_str (what e)) info;
                                  parse_rules_loop alloc env lim rest specs s' info' }
                           else parse_rules_loop alloc env lim rest specs s' (add_failed info)) }))"

definition parse_rules ::
    "(nat \<Rightarrow> bool) \<Rightarrow> libs \<Rightarrow> object_limits \<Rightarrow> ddwaf_object list \<Rightarrow> parse_state \<Rightarrow> ruleset_info
     \<Rightarrow> (rule_spec_container throws \<times> parse_state \<times> ruleset_info) option" where
  "parse_rules alloc env lim rule_array s info = parse_rules_loop alloc env lim rule_array [] s info"

section \<open>Rule data\<close>

text \<open>\<open>rule_data_parser.cpp\<close>: no data for another type.\<close>

definition parse_data :: "string \<Rightarrow> ddwaf_object \<Rightarrow> (string \<times> u64) list throws" where
  "parse_data type input =
     (if type \<noteq> ''ip_with_expiration'' \<and> type \<noteq> ''data_with_expiration'' then Inr []
      else bind_exn (to_vector input) (\<lambda>array.
        map_exn (\<lambda>values_param.
          bind_exn (to_map values_param) (\<lambda>vals.
          bind_exn (at to_string_view vals ''value'') (\<lambda>v.
          bind_exn (at_default to_uint64 vals ''expiration'' 0) (\<lambda>expiration. Inr (v, expiration))))) array))"

definition data_operation :: "(string \<times> string) list \<Rightarrow> string \<Rightarrow> string \<Rightarrow> string" where
  "data_operation rule_data_ids i type =
     (case map_of rule_data_ids i of
        Some operation \<Rightarrow> operation
      | None \<Rightarrow> if type = ''ip_with_expiration'' then ''ip_match''
                else if type = ''data_with_expiration'' then ''exact_match''
                else [])"

text \<open>The \<open>try\<close> block of an entry: no processor for an operator without dynamic data.\<close>

definition parse_data_entry ::
    "libs \<Rightarrow> (string \<times> string) list \<Rightarrow> ddwaf_object \<Rightarrow> (string \<times> processor) option throws option" where
  "parse_data_entry env rule_data_ids ob =
     (let entry = bind_exn (to_map ob) (\<lambda>entry.
                  bind_exn (at to_string entry ''id'') (\<lambda>i.
                  bind_exn (at to_string_view entry ''type'') (\<lambda>type.
                  bind_exn (at Inr entry ''data'') (\<lambda>data. Inr (i, type, data)))))
      in case entry of
           Inl e \<Rightarrow> Some (Inl e)
         | Inr (i, type, data) \<Rightarrow>
             (let operation = data_operation rule_data_ids i type in
              if operation = ''ip_match'' then
                (case parse_data type data of
                   Inl e \<Rightarrow> Some (Inl e)
                 | Inr parsed_data \<Rightarrow> map_option (\<lambda>p. Inr (Some (i, p))) (ip_match_of_data (lib_inet env) parsed_data))
              else if operation = ''exact_match'' then
                Some (bind_exn (parse_data type data) (\<lambda>parsed_data. Inr (Some (i, exact_match_of_data parsed_data))))
              else Some (Inr None)))"

primrec parse_rule_data ::
    "libs \<Rightarrow> (string \<times> string) list \<Rightarrow> ddwaf_object list \<Rightarrow> rule_data_container \<Rightarrow> rule_data_container throws option" where
  "parse_rule_data env rule_data_ids [] processors = Some (Inr processors)"
| "parse_rule_data env rule_data_ids (ob # rest) processors =
     (case parse_data_entry env rule_data_ids ob of
        None \<Rightarrow> None
      | Some (Inl e) \<Rightarrow>
          if is_ddwaf_exception e then parse_rule_data env rule_data_ids rest processors else Some (Inl e)
      | Some (Inr None) \<Rightarrow> parse_rule_data env rule_data_ids rest processors
      | Some (Inr (Some (i, p))) \<Rightarrow> parse_rule_data env rule_data_ids rest (emplace i p processors))"

section \<open>Overrides\<close>

definition parse_rules_target :: "pmap \<Rightarrow> rule_target_spec throws" where
  "parse_rules_target target =
     bind_exn (at_default to_string target ''rule_id'' []) (\<lambda>i.
     if i \<noteq> [] then Inr \<lparr>target_kind_of = Target_Id, target_rule_id = i, target_tags = []\<rparr>
     else bind_exn (at_default to_map target ''tags'' []) (\<lambda>tag_map.
       if tag_map = [] then Inl (Parsing_Exn ''empty rules_target'')
       else bind_exn (map_exn (\<lambda>(key, v). bind_exn (to_string v) (\<lambda>str. Inr (key, str))) tag_map) (\<lambda>target_tags.
         Inr \<lparr>target_kind_of = Target_Tags, target_rule_id = [], target_tags = target_tags\<rparr>)))"

primrec override_targets_loop ::
    "ddwaf_object list \<Rightarrow> target_kind \<Rightarrow> rule_target_spec list \<Rightarrow> (rule_target_spec list \<times> target_kind) throws" where
  "override_targets_loop [] type acc = Inr (acc, type)"
| "override_targets_loop (target # rest) type acc =
     bind_exn (bind_exn (to_map target) parse_rules_target) (\<lambda>target_spec.
     if type = Target_None then override_targets_loop rest (target_kind_of target_spec) (acc @ [target_spec])
     else if type \<noteq> target_kind_of target_spec then Inl (Parsing_Exn ''rule_override targets rules and tags'')
     else override_targets_loop rest type (acc @ [target_spec]))"

definition cast_if :: "(ddwaf_object \<Rightarrow> 'a throws) \<Rightarrow> pmap \<Rightarrow> string \<Rightarrow> 'a option throws" where
  "cast_if cast node key = (case map_of node key of None \<Rightarrow> Inr None | Some ob \<Rightarrow> map_sum id Some (cast ob))"

definition parse_override :: "pmap \<Rightarrow> (override_spec \<times> target_kind) throws" where
  "parse_override node =
     bind_exn (cast_if to_bool node ''enabled'') (\<lambda>is_enabled.
     bind_exn (cast_if to_strings node ''on_match'') (\<lambda>on_match.
     bind_exn (at_default to_vector node ''rules_target'' []) (\<lambda>rules_target_array.
     bind_exn (if rules_target_array \<noteq> [] then override_targets_loop rules_target_array Target_None []
               else bind_exn (at to_string node ''id'') (\<lambda>i.
                 Inr ([\<lparr>target_kind_of = Target_Id, target_rule_id = i, target_tags = []\<rparr>], Target_Id))) (\<lambda>(ts, type).
     if on_match = None \<and> is_enabled = None then Inl (Parsing_Exn ''rules_override without side-effects'')
     else Inr (\<lparr>ovrd_enabled = is_enabled, ovrd_actions = on_match, ovrd_targets = ts\<rparr>, type)))))"

primrec parse_overrides_loop :: "ddwaf_object list \<Rightarrow> override_spec_container \<Rightarrow> override_spec_container throws" where
  "parse_overrides_loop [] c = Inr c"
| "parse_overrides_loop (node_param # rest) c =
     bind_exn (to_map node_param) (\<lambda>node.
     parse_overrides_loop rest
       (case parse_override node of
          Inl _ \<Rightarrow> c
        | Inr (spec, type) \<Rightarrow>
            (case type of
               Target_Id \<Rightarrow> c\<lparr>by_ids := by_ids c @ [spec]\<rparr>
             | Target_Tags \<Rightarrow> c\<lparr>by_tags := by_tags c @ [spec]\<rparr>
             | Target_None \<Rightarrow> c)))"

definition parse_overrides :: "ddwaf_object list \<Rightarrow> override_spec_container throws" where
  "parse_overrides override_array = parse_overrides_loop override_array no_overrides"

section \<open>Exclusion filters\<close>

definition parse_filter_condition :: "libs \<Rightarrow> pmap \<Rightarrow> object_limits \<Rightarrow> (parse_state, condition) action" where
  "parse_filter_condition env cond lim =
     bind_act (lift (at to_string_view cond ''operator'')) (\<lambda>operation.
     bind_act (lift (at to_map cond ''parameters'')) (\<lambda>params.
     bind_act (lift_opt (parse_processor env operation params)) (\<lambda>(rule_data_id, p).
     if rule_data_id \<noteq> [] then lift (Inl (Parsing_Exn (''filter conditions don'' @ CHR 0x27 # ''t support dynamic data'')))
     else bind_act (parse_targets params) (\<lambda>ts. new_condition ts [] p [] lim Values))))"

definition parse_filter_conditions :: "libs \<Rightarrow> pmap \<Rightarrow> object_limits \<Rightarrow> (parse_state, condition list) action" where
  "parse_filter_conditions env flt lim =
     bind_act (lift (at_default to_vector flt ''conditions'' [])) (\<lambda>conditions_array.
     for_each (\<lambda>cond. bind_act (lift (to_map cond)) (\<lambda>c. parse_filter_condition env c lim)) conditions_array)"

definition parse_filter_targets :: "pmap \<Rightarrow> rule_target_spec list throws" where
  "parse_filter_targets flt =
     bind_exn (at_default to_vector flt ''rules_target'' []) (\<lambda>rules_target_array.
     map_exn (\<lambda>target. bind_exn (to_map target) parse_rules_target) rules_target_array)"

text \<open>The inputs of a filter: an address that no rule uses so far is skipped.\<close>

primrec filter_inputs_of :: "manifest \<Rightarrow> ddwaf_object list \<Rightarrow> object_filter \<Rightarrow> object_filter throws" where
  "filter_inputs_of m [] f = Inr f"
| "filter_inputs_of m (input_param # rest) f =
     bind_exn (to_map input_param) (\<lambda>input_map.
     bind_exn (at to_string input_map ''address'') (\<lambda>address.
     case manifest_find m address of
       None \<Rightarrow> filter_inputs_of m rest f
     | Some target \<Rightarrow>
         bind_exn (at_default to_string_views input_map ''key_path'' []) (\<lambda>kp.
         filter_inputs_of m rest (filter_insert f target kp))))"

definition parse_input_filter :: "libs \<Rightarrow> pmap \<Rightarrow> object_limits \<Rightarrow> (parse_state, input_filter_spec) action" where
  "parse_input_filter env flt lim =
     bind_act (parse_filter_conditions env flt lim) (\<lambda>conds.
     bind_act (lift (parse_filter_targets flt)) (\<lambda>rules_target.
     bind_act (lift (at to_vector flt ''inputs'')) (\<lambda>inputs_array.
     if conds = [] \<and> inputs_array = [] \<and> rules_target = [] then lift (Inl (Parsing_Exn ''empty exclusion filter''))
     else (\<lambda>s. bind_act (lift (filter_inputs_of (ps_manifest s) inputs_array (new_object_filter lim))) (\<lambda>obj_filter.
       lift (Inr \<lparr>ifs_conditions = conds, ifs_filter = obj_filter, ifs_targets = rules_target\<rparr>)) s))))"

definition parse_rule_filter :: "libs \<Rightarrow> pmap \<Rightarrow> object_limits \<Rightarrow> (parse_state, rule_filter_spec) action" where
  "parse_rule_filter env flt lim =
     bind_act (parse_filter_conditions env flt lim) (\<lambda>conds.
     bind_act (lift (parse_filter_targets flt)) (\<lambda>rules_target.
     if conds = [] \<and> rules_target = [] then lift (Inl (Parsing_Exn ''empty exclusion filter''))
     else lift (Inr \<lparr>rfs_conditions = conds, rfs_targets = rules_target\<rparr>)))"

text \<open>The \<open>try\<close> block of a filter.\<close>

definition parse_filter ::
    "libs \<Rightarrow> object_limits \<Rightarrow> pmap \<Rightarrow> filter_spec_container \<Rightarrow> (parse_state, filter_spec_container) action" where
  "parse_filter env lim node c =
     bind_act (lift (at to_string node ''id'')) (\<lambda>i.
     if i \<in> filter_ids c then lift (Inr c)
     else if map_of node ''inputs'' \<noteq> None then
       bind_act (parse_input_filter env node lim) (\<lambda>f.
       lift (Inr (c\<lparr>filter_ids := insert i (filter_ids c), spec_input_filters := emplace i f (spec_input_filters c)\<rparr>)))
     else
       bind_act (parse_rule_filter env node lim) (\<lambda>f.
       lift (Inr (c\<lparr>filter_ids := insert i (filter_ids c), spec_rule_filters := emplace i f (spec_rule_filters c)\<rparr>))))"

primrec parse_filters_loop ::
    "libs \<Rightarrow> object_limits \<Rightarrow> ddwaf_object list \<Rightarrow> filter_spec_container \<Rightarrow> (parse_state, filter_spec_container) action" where
  "parse_filters_loop env lim [] c = lift (Inr c)"
| "parse_filters_loop env lim (node_param # rest) c =
     bind_act (lift (to_map node_param)) (\<lambda>node s.
       do { (res, s') \<leftarrow> parse_filter env lim node c s;
            parse_filters_loop env lim rest (case res of Inl _ \<Rightarrow> c | Inr c' \<Rightarrow> c') s' })"

definition parse_filters ::
    "libs \<Rightarrow> object_limits \<Rightarrow> ddwaf_object list \<Rightarrow> (parse_state, filter_spec_container) action" where
  "parse_filters env lim filter_array = parse_filters_loop env lim filter_array no_filters"

section \<open>What the parsers make\<close>

text \<open>The manifest only grows: what an address stands for stays.\<close>

definition manifest_grows :: "manifest \<Rightarrow> manifest \<Rightarrow> bool" where
  "manifest_grows m m' \<longleftrightarrow> (\<forall>a t. manifest_find m a = Some t \<longrightarrow> manifest_find m' a = Some t) \<and>
     (distinct (map fst (targets m)) \<longrightarrow> distinct (map fst (targets m')))"

definition parse_grows :: "parse_state \<Rightarrow> parse_state \<Rightarrow> bool" where
  "parse_grows s s' \<longleftrightarrow> manifest_grows (ps_manifest s) (ps_manifest s') \<and> ps_next s \<le> ps_next s'"

lemma manifest_grows_refl: "manifest_grows m m"
  by (simp add: manifest_grows_def)

lemma manifest_grows_trans: "manifest_grows m m' \<Longrightarrow> manifest_grows m' m'' \<Longrightarrow> manifest_grows m m''"
  by (simp add: manifest_grows_def)

lemma manifest_grows_insert: "manifest_insert m a = (t, m') \<Longrightarrow> manifest_grows m m' \<and> manifest_find m' a = Some t"
proof (cases "map_of (targets m) a")
  case None
  moreover from this have "a \<notin> fst ` set (targets m)"
    by (simp add: map_of_eq_None_iff)
  moreover assume "manifest_insert m a = (t, m')"
  ultimately show ?thesis
    by (auto simp: manifest_insert_def manifest_grows_def manifest_find_def map_add_def)
qed (auto simp: manifest_insert_def manifest_find_def manifest_grows_refl)

interpretation parse: progress parse_grows
  by unfold_locales (auto simp: parse_grows_def manifest_grows_refl intro: manifest_grows_trans)

text \<open>A target has an address, no empty key, and the identifier that the manifest gives the address.\<close>

definition target_ok :: "manifest \<Rightarrow> target_type \<Rightarrow> bool" where
  "target_ok m t \<longleftrightarrow> target_name t \<noteq> [] \<and> [] \<notin> set (key_path t) \<and> manifest_find m (target_name t) = Some (root t)"

definition cond_ok :: "object_limits \<Rightarrow> manifest \<Rightarrow> condition \<Rightarrow> bool" where
  "cond_ok lim m c \<longleftrightarrow> cond_targets c \<noteq> [] \<and> (\<forall>t \<in> set (cond_targets c). target_ok m t) \<and> cond_limits c = lim \<and>
     set (transformers c) \<inter> {PWT_INVALID, PWT_KEYS_ONLY} = {}"

text \<open>The conditions of one list: well formed, with pointers of their own between two values of the counter.\<close>

definition conds_ok :: "object_limits \<Rightarrow> parse_state \<Rightarrow> condition list \<Rightarrow> parse_state \<Rightarrow> bool" where
  "conds_ok lim s cs s' \<longleftrightarrow> distinct (map cond_ptr cs) \<and>
     (\<forall>c \<in> set cs. cond_ok lim (ps_manifest s') c \<and> ps_next s \<le> cond_ptr c \<and> cond_ptr c < ps_next s')"

lemma target_ok_grows: "manifest_grows m m' \<Longrightarrow> target_ok m t \<Longrightarrow> target_ok m' t"
  by (simp add: target_ok_def manifest_grows_def)

lemma cond_ok_grows: "manifest_grows m m' \<Longrightarrow> cond_ok lim m c \<Longrightarrow> cond_ok lim m' c"
  by (auto simp: cond_ok_def intro: target_ok_grows)

lemma conds_ok_grows: "parse_grows s s' \<Longrightarrow> conds_ok lim s0 cs s \<Longrightarrow> conds_ok lim s0 cs s'"
  by (force simp: conds_ok_def parse_grows_def intro: cond_ok_grows)

lemma parse_target_ok: "makes parse_grows (\<lambda>_ t s. target_ok (ps_manifest s) t) (parse_target ob)"
proof -
  have "makes parse_grows (\<lambda>_ t s. target_ok (ps_manifest s) t) (insert_target a kp)" if "a \<noteq> []" "[] \<notin> set kp" for a kp
    unfolding makes_def
  proof (intro allI impI)
    fix s r s'
    assume run: "insert_target a kp s = Some (r, s')"
    obtain t m where i: "manifest_insert (ps_manifest s) a = (t, m)"
      by (rule prod.exhaust)
    from run manifest_grows_insert [OF i] that show "parse_grows s s' \<and> (\<forall>t. r = Inr t \<longrightarrow> target_ok (ps_manifest s') t)"
      by (auto simp: insert_target_def i parse_grows_def target_ok_def)
  qed
  then show ?thesis
    unfolding parse_target_def
    by (intro parse.bind_lift_rule) (auto intro!: parse.lift_rule parse.bind_lift_rule simp: list_ex_iff)
qed

lemma parse_targets_ok:
  "makes parse_grows (\<lambda>_ ts s. ts \<noteq> [] \<and> (\<forall>t \<in> set ts. target_ok (ps_manifest s) t)) (parse_targets params)"
proof -
  have some: "ts \<noteq> []" if "for_each f xs s = Some (Inr ts, s')" "xs \<noteq> []" for f :: "ddwaf_object \<Rightarrow> (parse_state, target_type) action" and xs s ts s'
    using that by (cases xs) (auto simp: bind_act_def lift_def split: option.splits sum.splits)
  have "makes parse_grows (\<lambda>_ ts s. \<forall>t \<in> set ts. target_ok (ps_manifest s) t) (for_each parse_target xs)" for xs
    by (rule parse.each_rule [OF parse_target_ok]) (auto simp: parse_grows_def intro: target_ok_grows)
  then have "makes parse_grows (\<lambda>_ ts s. ts \<noteq> [] \<and> (\<forall>t \<in> set ts. target_ok (ps_manifest s) t)) (for_each parse_target xs)"
    if "xs \<noteq> []" for xs
    using some [OF _ that] by (fastforce simp: makes_def)
  then show ?thesis
    unfolding parse_targets_def by (intro parse.bind_lift_rule) (auto intro!: parse.lift_rule)
qed

text \<open>One condition, made of targets that are known.\<close>

definition cond_made :: "object_limits \<Rightarrow> parse_state \<Rightarrow> condition \<Rightarrow> parse_state \<Rightarrow> bool" where
  "cond_made lim s c s' \<longleftrightarrow> cond_ok lim (ps_manifest s') c \<and> ps_next s \<le> cond_ptr c \<and> cond_ptr c < ps_next s'"

lemma make_condition:
  assumes "set xfs \<inter> {PWT_INVALID, PWT_KEYS_ONLY} = {}"
  shows "makes parse_grows (cond_made lim) (bind_act (parse_targets params) (\<lambda>ts. new_condition ts xfs p i lim source))"
  by (rule parse.bind_rule [OF parse_targets_ok])
    (use assms in \<open>auto simp: makes_def new_condition_def cond_made_def cond_ok_def parse_grows_def manifest_grows_refl\<close>)

lemma parse_rule_condition_ok:
  assumes "set xfs \<inter> {PWT_INVALID, PWT_KEYS_ONLY} = {}"
  shows "makes parse_grows (cond_made lim) (parse_rule_condition env cond source xfs lim)"
proof -
  have "makes parse_grows (\<lambda>_ _ _. True) (if b then note_data_id i operation else lift (Inr ()))" for b i operation
    by (auto simp: makes_def note_data_id_def lift_def parse_grows_def manifest_grows_refl)
  then have rest: "makes parse_grows (cond_made lim) (bind_act (if b then note_data_id i operation else lift (Inr ()))
      (\<lambda>_. bind_act (parse_targets params) (\<lambda>ts. new_condition ts xfs p i lim source)))" for b i operation params p
    by (rule parse.bind_rule, intro makes_weaken [OF make_condition [OF assms, of lim]])
      (auto simp: cond_made_def parse_grows_def)
  show ?thesis
    unfolding parse_rule_condition_def
    by (intro parse.bind_lift_rule parse.bind_lift_opt_rule) (auto intro: rest)
qed

lemma parse_filter_condition_ok: "makes parse_grows (cond_made lim) (parse_filter_condition env cond lim)"
  unfolding parse_filter_condition_def
  by (intro parse.bind_lift_rule parse.bind_lift_opt_rule) (auto intro!: parse.lift_rule make_condition)

lemma each_condition:
  assumes "\<And>x. makes parse_grows (cond_made lim) (f x)"
  shows "makes parse_grows (conds_ok lim) (for_each f xs)"
proof (induction xs)
  case Nil
  show ?case
    unfolding for_each.simps by (rule parse.lift_rule) (simp add: conds_ok_def)
next
  case (Cons x xs)
  show ?case
    unfolding for_each.simps
    by (rule parse.bind_rule [OF assms], rule parse.bind_rule [OF Cons.IH], rule parse.lift_rule)
      (force simp: conds_ok_def cond_made_def parse_grows_def intro: cond_ok_grows)
qed

text \<open>A rule: it has a type, and its conditions are well formed and told apart by their pointers.\<close>

definition spec_ok :: "object_limits \<Rightarrow> manifest \<Rightarrow> rule_spec \<Rightarrow> bool" where
  "spec_ok lim m spec \<longleftrightarrow> map_of (spec_tags spec) ''type'' \<noteq> None \<and> distinct (map cond_ptr (spec_conditions spec)) \<and>
     (\<forall>c \<in> set (spec_conditions spec). cond_ok lim m c)"

lemma spec_ok_grows: "manifest_grows m m' \<Longrightarrow> spec_ok lim m spec \<Longrightarrow> spec_ok lim m' spec"
  by (auto simp: spec_ok_def intro: cond_ok_grows)

lemma bind_exn_Inr: "bind_exn r f = Inr y \<longleftrightarrow> (\<exists>x. r = Inr x \<and> f x = Inr y)"
  by (cases r) simp_all

lemma transformers_loop_ok:
  "transformers_loop xs source acc = Inr (source', xfs) \<Longrightarrow> set acc \<inter> {PWT_INVALID, PWT_KEYS_ONLY} = {} \<Longrightarrow>
   set xfs \<inter> {PWT_INVALID, PWT_KEYS_ONLY} = {}"
proof (induction xs arbitrary: source acc)
  case (Cons x xs)
  from Cons.prems(1) obtain t where t: "to_string_view x = Inr t"
    by (auto simp: bind_exn_Inr)
  show ?case
    using Cons.prems Cons.IH [of Keys acc] Cons.IH [of source "acc @ [getIDForString t]"]
    by (auto simp: t Let_def split: if_splits)
qed simp

lemma parse_tags_type: "parse_tags rule_map = Inr rule_tags \<Longrightarrow> map_of rule_tags ''type'' \<noteq> None"
  by (auto simp: parse_tags_def bind_exn_Inr split: if_splits)

lemma parse_rule_ok: "makes parse_grows (\<lambda>_ spec s. spec_ok lim (ps_manifest s) spec) (parse_rule env rule_map lim)"
proof -
  have rest: "makes parse_grows (\<lambda>_ spec s. spec_ok lim (ps_manifest s) spec)
      (bind_act (for_each (\<lambda>cond_param. bind_act (lift (to_map cond_param)) (\<lambda>cond.
          parse_rule_condition env cond source xfs lim)) conditions_array) (\<lambda>conds.
       bind_act (lift (parse_tags rule_map)) (\<lambda>rule_tags.
       bind_act (lift (at_default to_bool rule_map ''enabled'' True)) (\<lambda>is_enabled.
       bind_act (lift (at to_string rule_map ''name'')) (\<lambda>name.
       bind_act (lift (at_default to_strings rule_map ''on_match'' [])) (\<lambda>on_match.
       lift (Inr \<lparr>spec_enabled = is_enabled, spec_name = name, spec_tags = rule_tags, spec_conditions = conds,
                  spec_actions = on_match\<rparr>)))))))"
    if "set xfs \<inter> {PWT_INVALID, PWT_KEYS_ONLY} = {}" for source xfs conditions_array
  proof -
    have each: "makes parse_grows (conds_ok lim) (for_each (\<lambda>cond_param. bind_act (lift (to_map cond_param)) (\<lambda>cond.
          parse_rule_condition env cond source xfs lim)) conditions_array)"
      by (rule each_condition, rule parse.bind_lift_rule, rule parse_rule_condition_ok [OF that])
    show ?thesis
      by (rule parse.bind_rule [OF each], intro parse.bind_lift_rule parse.lift_rule)
        (auto simp: spec_ok_def conds_ok_def dest: parse_tags_type)
  qed
  show ?thesis
    unfolding parse_rule_def
    by (intro parse.bind_lift_rule) (auto intro!: parse.bind_lift_rule rest dest: transformers_loop_ok)
qed

text \<open>The rules of an array, with the calls that report on them: one for each entry.\<close>

definition specs_ok :: "object_limits \<Rightarrow> manifest \<Rightarrow> rule_spec_container \<Rightarrow> bool" where
  "specs_ok lim m specs \<longleftrightarrow> distinct (map fst specs) \<and> (\<forall>(i, spec) \<in> set specs. spec_ok lim m spec)"

lemma specs_ok_grows: "manifest_grows m m' \<Longrightarrow> specs_ok lim m specs \<Longrightarrow> specs_ok lim m' specs"
  by (auto simp: specs_ok_def intro: spec_ok_grows)

fun reports_entry :: "info_call \<Rightarrow> bool" where
  "reports_entry (Set_Version _) = False"
| "reports_entry _ = True"

definition accounts :: "(nat \<Rightarrow> bool) \<Rightarrow> info_call list \<Rightarrow> ruleset_info \<Rightarrow> ruleset_info \<Rightarrow> nat \<Rightarrow> nat \<Rightarrow> bool" where
  "accounts alloc cs info info' n_entries n_rules \<longleftrightarrow> info_steps alloc cs info = Some info' \<and> length cs = n_entries \<and>
     length (filter ((=) Add_Loaded) cs) = n_rules \<and> list_all reports_entry cs"

lemma accounts_Cons:
  "info_step alloc c info = Some info1 \<Longrightarrow> reports_entry c \<Longrightarrow> \<exists>cs. accounts alloc cs info1 info' n k \<Longrightarrow>
   \<exists>cs. accounts alloc cs info info' (Suc n) (if c = Add_Loaded then Suc k else k)"
  by (elim exE, rename_tac cs, rule_tac x = "c # cs" in exI) (auto simp: accounts_def)

lemma parse_rules_loop_ok:
  "parse_rules_loop alloc env lim arr specs s info = Some (Inr specs', s', info') \<Longrightarrow> specs_ok lim (ps_manifest s) specs \<Longrightarrow>
   specs_ok lim (ps_manifest s') specs' \<and> parse_grows s s' \<and>
   (\<exists>k cs. length specs' = length specs + k \<and> accounts alloc cs info info' (length arr) k)"
proof (induction arr arbitrary: specs s info)
  case Nil
  then show ?case
    by (auto simp: accounts_def parse.R_refl intro!: exI [of _ 0] exI [of _ "[]"])
next
  case (Cons ob arr)
  obtain rule_map where map: "to_map ob = Inr rule_map"
    using Cons.prems(1) by (cases "to_map ob") simp_all
  have same: ?case if "info_step alloc c info = Some info1" "c \<noteq> Add_Loaded" "reports_entry c" "parse_grows s s1"
      "parse_rules_loop alloc env lim arr specs s1 info1 = Some (Inr specs', s', info')" for c info1 s1
  proof -
    have "specs_ok lim (ps_manifest s1) specs"
      using Cons.prems(2) that(4) by (auto simp: parse_grows_def intro: specs_ok_grows)
    from Cons.IH [OF that(5) this] parse.R_trans [OF that(4)] accounts_Cons [OF that(1, 3)] that(2) show ?thesis
      by fastforce
  qed
  show ?case
  proof (cases "at to_string rule_map ''id''")
    case (Inl e)
    then show ?thesis
      using Cons.prems(1) same [of Add_Failed "add_failed info" s] by (simp add: map parse.R_refl)
  next
    case (Inr i)
    show ?thesis
    proof (cases "map_of specs i")
      case (Some old)
      then obtain info1 where "insert_error alloc i ''duplicate rule'' info = Some info1"
        "parse_rules_loop alloc env lim arr specs s info1 = Some (Inr specs', s', info')"
        using Cons.prems(1) by (auto simp: map Inr bind_eq_Some_conv)
      then show ?thesis
        using same [of "Insert_Error i ''duplicate rule''" info1 s] by (simp add: parse.R_refl)
    next
      case None
      obtain res s1 where run: "parse_rule env rule_map lim s = Some (res, s1)"
        using Cons.prems(1) None by (auto simp: map Inr bind_eq_Some_conv)
      from makesD [OF parse_rule_ok this] have grows: "parse_grows s s1" and spec: "\<And>spec. res = Inr spec \<Longrightarrow> spec_ok lim (ps_manifest s1) spec"
        by blast+
      show ?thesis
      proof (cases res)
        case Inl: (Inl e)
        show ?thesis
        proof (cases "i = []")
          case True
          then show ?thesis
            using Cons.prems(1) None same [of Add_Failed "add_failed info" s1] grows by (simp add: map Inr run Inl)
        next
          case False
          then obtain info1 where "insert_error alloc i (c_str (what e)) info = Some info1"
            "parse_rules_loop alloc env lim arr specs s1 info1 = Some (Inr specs', s', info')"
            using Cons.prems(1) None by (auto simp: map Inr run Inl bind_eq_Some_conv)
          then show ?thesis
            using same [of "Insert_Error i (c_str (what e))" info1 s1] grows by simp
        qed
      next
        case spec': (Inr spec)
        have "specs_ok lim (ps_manifest s1) specs"
          using Cons.prems(2) grows by (auto simp: parse_grows_def intro: specs_ok_grows)
        then have ok: "specs_ok lim (ps_manifest s1) (specs @ [(i, spec)])"
          using spec [OF spec'] None by (auto simp: specs_ok_def map_of_eq_None_iff)
        have "parse_rules_loop alloc env lim arr (specs @ [(i, spec)]) s1 (add_loaded info) = Some (Inr specs', s', info')"
          using Cons.prems(1) None by (simp add: map Inr run spec')
        from Cons.IH [OF this ok] parse.R_trans [OF grows] accounts_Cons [of alloc Add_Loaded info "add_loaded info" info' "length arr"]
        show ?thesis
          by fastforce
      qed
    qed
  qed
qed

lemma parse_rules_loop_grows:
  "parse_rules_loop alloc env lim arr specs s info = Some (r, s', info') \<Longrightarrow> parse_grows s s'"
proof (induction arr arbitrary: specs s info)
  case (Cons ob arr)
  have parsed: "parse_grows s s1" if "parse_rule env rule_map lim s = Some (res, s1)" for rule_map res s1
    using makesD [OF parse_rule_ok that] by blast
  from Cons.prems show ?case
    by (auto simp: parse.R_refl bind_eq_Some_conv split: sum.splits if_splits
        dest!: Cons.IH parsed intro: parse.R_trans)
      (rename_tac res s1, case_tac res; auto dest!: Cons.IH parsed intro: parse.R_trans)
qed (simp add: parse.R_refl)

text \<open>The targets of overrides and filters: an identifier, or tags of which there is at least one.\<close>

definition rules_target_ok :: "rule_target_spec \<Rightarrow> bool" where
  "rules_target_ok t \<longleftrightarrow> target_kind_of t = Target_Id \<or> target_kind_of t = Target_Tags \<and> target_tags t \<noteq> []"

lemma map_exn_length: "map_exn f xs = Inr ys \<Longrightarrow> length ys = length xs"
  by (induction xs arbitrary: ys) (auto simp: bind_exn_Inr)

lemma map_exn_set: "map_exn f xs = Inr ys \<Longrightarrow> y \<in> set ys \<Longrightarrow> \<exists>x. f x = Inr y"
  by (induction xs arbitrary: ys) (auto simp: bind_exn_Inr)

lemma parse_rules_target_ok: "parse_rules_target target = Inr t \<Longrightarrow> rules_target_ok t"
  by (auto simp: parse_rules_target_def bind_exn_Inr rules_target_ok_def split: if_splits dest!: map_exn_length)

lemma parse_filter_targets_ok: "parse_filter_targets flt = Inr ts \<Longrightarrow> t \<in> set ts \<Longrightarrow> rules_target_ok t"
  by (auto simp: parse_filter_targets_def bind_exn_Inr dest!: map_exn_set intro: parse_rules_target_ok)

text \<open>The filters: conditions that are well formed, and targets that the manifest has.\<close>

definition known :: "manifest \<Rightarrow> u32 \<Rightarrow> bool" where
  "known m t \<longleftrightarrow> (\<exists>a. manifest_find m a = Some t)"

definition input_filter_ok :: "object_limits \<Rightarrow> manifest \<Rightarrow> input_filter_spec \<Rightarrow> bool" where
  "input_filter_ok lim m f \<longleftrightarrow> (\<forall>c \<in> set (ifs_conditions f). cond_ok lim m c) \<and> (\<forall>t \<in> filter_targets (ifs_filter f). known m t) \<and>
     (\<forall>t \<in> set (ifs_targets f). rules_target_ok t)"

definition rule_filter_ok :: "object_limits \<Rightarrow> manifest \<Rightarrow> rule_filter_spec \<Rightarrow> bool" where
  "rule_filter_ok lim m f \<longleftrightarrow> (\<forall>c \<in> set (rfs_conditions f). cond_ok lim m c) \<and> (\<forall>t \<in> set (rfs_targets f). rules_target_ok t)"

definition filters_ok :: "object_limits \<Rightarrow> manifest \<Rightarrow> filter_spec_container \<Rightarrow> bool" where
  "filters_ok lim m c \<longleftrightarrow> (\<forall>f \<in> snd ` set (spec_rule_filters c). rule_filter_ok lim m f) \<and>
     (\<forall>f \<in> snd ` set (spec_input_filters c). input_filter_ok lim m f)"

lemma known_grows: "manifest_grows m m' \<Longrightarrow> known m t \<Longrightarrow> known m' t"
  by (auto simp: known_def manifest_grows_def)

lemma input_filter_ok_grows: "manifest_grows m m' \<Longrightarrow> input_filter_ok lim m f \<Longrightarrow> input_filter_ok lim m' f"
  by (simp add: input_filter_ok_def cond_ok_grows known_grows)

lemma rule_filter_ok_grows: "manifest_grows m m' \<Longrightarrow> rule_filter_ok lim m f \<Longrightarrow> rule_filter_ok lim m' f"
  by (simp add: rule_filter_ok_def cond_ok_grows)

lemma filters_ok_grows: "manifest_grows m m' \<Longrightarrow> filters_ok lim m c \<Longrightarrow> filters_ok lim m' c"
  by (auto simp: filters_ok_def intro: input_filter_ok_grows rule_filter_ok_grows)

lemma parse_filter_conditions_ok:
  "makes parse_grows (\<lambda>_ cs s. \<forall>c \<in> set cs. cond_ok lim (ps_manifest s) c) (parse_filter_conditions env flt lim)"
proof -
  have "makes parse_grows (conds_ok lim) (for_each (\<lambda>cond. bind_act (lift (to_map cond)) (\<lambda>c. parse_filter_condition env c lim)) xs)" for xs
    by (rule each_condition, rule parse.bind_lift_rule, rule parse_filter_condition_ok)
  then show ?thesis
    unfolding parse_filter_conditions_def
    by (intro parse.bind_lift_rule, rule makes_weaken) (simp_all add: conds_ok_def)
qed

lemma filter_inputs_known:
  "filter_inputs_of m xs f = Inr f' \<Longrightarrow> \<forall>t \<in> filter_targets f. known m t \<Longrightarrow> \<forall>t \<in> filter_targets f'. known m t"
proof (induction xs arbitrary: f)
  case (Cons x xs)
  from Cons.prems(1) obtain input_map a where a: "to_map x = Inr input_map" "at to_string input_map ''address'' = Inr a"
    by (auto simp: bind_exn_Inr)
  show ?case
  proof (cases "manifest_find m a")
    case None
    with Cons show ?thesis
      by (simp add: a)
  next
    case (Some target)
    then obtain kp where "filter_inputs_of m xs (filter_insert f target kp) = Inr f'"
      using Cons.prems(1) by (auto simp: a bind_exn_Inr)
    moreover have "known m target"
      using Some by (auto simp: known_def)
    then have "\<forall>t \<in> filter_targets (filter_insert f target kp). known m t"
      using Cons.prems(2) by (simp add: filter_insert_def Let_def)
    ultimately show ?thesis
      by (rule Cons.IH)
  qed
qed simp

lemma parse_input_filter_ok: "makes parse_grows (\<lambda>_ f s. input_filter_ok lim (ps_manifest s) f) (parse_input_filter env flt lim)"
proof -
  have "makes parse_grows (\<lambda>s f s'. (\<forall>c \<in> set conds. cond_ok lim (ps_manifest s) c) \<longrightarrow> parse_grows s0 s \<longrightarrow> input_filter_ok lim (ps_manifest s') f)
      (\<lambda>s. bind_act (lift (filter_inputs_of (ps_manifest s) inputs_array (new_object_filter lim))) (\<lambda>obj_filter.
         lift (Inr \<lparr>ifs_conditions = conds, ifs_filter = obj_filter, ifs_targets = rules_target\<rparr>)) s)"
    if "parse_filter_targets flt = Inr rules_target" for conds inputs_array rules_target s0
    unfolding makes_def
  proof (intro allI impI)
    fix s s' :: parse_state and r
    assume run: "bind_act (lift (filter_inputs_of (ps_manifest s) inputs_array (new_object_filter lim))) (\<lambda>obj_filter.
         lift (Inr \<lparr>ifs_conditions = conds, ifs_filter = obj_filter, ifs_targets = rules_target\<rparr>)) s = Some (r, s')"
    show "parse_grows s s' \<and> (\<forall>x. r = Inr x \<longrightarrow> (\<forall>c \<in> set conds. cond_ok lim (ps_manifest s) c) \<longrightarrow> parse_grows s0 s \<longrightarrow>
        input_filter_ok lim (ps_manifest s') x)"
    proof (cases "filter_inputs_of (ps_manifest s) inputs_array (new_object_filter lim)")
      case (Inr f)
      with filter_inputs_known [OF this] run parse_filter_targets_ok [OF that] show ?thesis
        by (auto simp: bind_act_def lift_def parse.R_refl input_filter_ok_def new_object_filter_def)
    qed (use run in \<open>auto simp: bind_act_def lift_def parse.R_refl\<close>)
  qed
  then show ?thesis
    unfolding parse_input_filter_def
    by (intro parse.bind_rule [OF parse_filter_conditions_ok] parse.bind_lift_rule) (auto intro: parse.lift_rule)
qed

lemma parse_rule_filter_ok: "makes parse_grows (\<lambda>_ f s. rule_filter_ok lim (ps_manifest s) f) (parse_rule_filter env flt lim)"
  unfolding parse_rule_filter_def
  by (intro parse.bind_rule [OF parse_filter_conditions_ok] parse.bind_lift_rule)
    (auto intro!: parse.lift_rule simp: rule_filter_ok_def parse_filter_targets_ok)

lemma filters_ok_emplace:
  assumes "filters_ok lim m c"
  shows "input_filter_ok lim m f \<Longrightarrow> filters_ok lim m (c\<lparr>filter_ids := ids, spec_input_filters := emplace i f (spec_input_filters c)\<rparr>)"
    and "rule_filter_ok lim m g \<Longrightarrow> filters_ok lim m (c\<lparr>filter_ids := ids, spec_rule_filters := emplace i g (spec_rule_filters c)\<rparr>)"
  using assms by (auto simp: filters_ok_def emplace_def)

lemma parse_filter_ok:
  assumes "filters_ok lim (ps_manifest s) c" "parse_filter env lim node c s = Some (r, s')"
  shows "parse_grows s s' \<and> (\<forall>c'. r = Inr c' \<longrightarrow> filters_ok lim (ps_manifest s') c')"
proof -
  let ?G = "\<lambda>s c' s'. filters_ok lim (ps_manifest s) c \<longrightarrow> filters_ok lim (ps_manifest s') c'"
  have keep: "filters_ok lim (ps_manifest s1) c" if "filters_ok lim (ps_manifest s0) c" "parse_grows s0 s1" for s0 s1
    using that filters_ok_grows by (auto simp: parse_grows_def)
  have input: "makes parse_grows ?G (bind_act (parse_input_filter env node lim) (\<lambda>f.
       lift (Inr (c\<lparr>filter_ids := insert i (filter_ids c), spec_input_filters := emplace i f (spec_input_filters c)\<rparr>))))" for i
    by (rule parse.bind_rule [OF parse_input_filter_ok], rule parse.lift_rule) (auto dest: keep simp: filters_ok_emplace)
  have rule: "makes parse_grows ?G (bind_act (parse_rule_filter env node lim) (\<lambda>f.
       lift (Inr (c\<lparr>filter_ids := insert i (filter_ids c), spec_rule_filters := emplace i f (spec_rule_filters c)\<rparr>))))" for i
    by (rule parse.bind_rule [OF parse_rule_filter_ok], rule parse.lift_rule) (auto dest: keep simp: filters_ok_emplace)
  have "makes parse_grows ?G (lift (Inr c))"
    by (rule parse.lift_rule) simp
  with input rule have "makes parse_grows ?G (parse_filter env lim node c)"
    unfolding parse_filter_def by (intro parse.bind_lift_rule) simp
  from makesD [OF this assms(2)] assms(1) show ?thesis
    by blast
qed

lemma parse_filters_loop_ok:
  "filters_ok lim (ps_manifest s) c \<Longrightarrow> parse_filters_loop env lim xs c s = Some (r, s') \<Longrightarrow>
   parse_grows s s' \<and> (\<forall>c'. r = Inr c' \<longrightarrow> filters_ok lim (ps_manifest s') c')"
proof (induction xs arbitrary: s c)
  case Nil
  then show ?case
    by (auto simp: lift_def parse.R_refl)
next
  case (Cons x xs)
  show ?case
  proof (cases "to_map x")
    case (Inl e)
    with Cons.prems(2) show ?thesis
      by (auto simp: bind_act_def lift_def parse.R_refl)
  next
    case (Inr node)
    then obtain res s1 where run: "parse_filter env lim node c s = Some (res, s1)"
      and rest: "parse_filters_loop env lim xs (case res of Inl _ \<Rightarrow> c | Inr c' \<Rightarrow> c') s1 = Some (r, s')"
      using Cons.prems(2) by (auto simp: bind_act_def lift_def bind_eq_Some_conv)
    have ok: "parse_grows s s1" "\<And>c'. res = Inr c' \<Longrightarrow> filters_ok lim (ps_manifest s1) c'"
      using parse_filter_ok [OF Cons.prems(1) run] by auto
    then have "filters_ok lim (ps_manifest s1) (case res of Inl _ \<Rightarrow> c | Inr c' \<Rightarrow> c')"
      using Cons.prems(1) by (auto simp: parse_grows_def intro: filters_ok_grows split: sum.splits)
    from Cons.IH [OF this rest] parse.R_trans [OF ok(1)] show ?thesis
      by blast
  qed
qed

lemma parse_filters_ok:
  "parse_filters env lim xs s = Some (r, s') \<Longrightarrow> parse_grows s s' \<and> (\<forall>c. r = Inr c \<longrightarrow> filters_ok lim (ps_manifest s') c)"
  unfolding parse_filters_def by (erule parse_filters_loop_ok [rotated]) (simp add: filters_ok_def no_filters_def)

definition override_ok :: "target_kind \<Rightarrow> override_spec \<Rightarrow> bool" where
  "override_ok k ovrd \<longleftrightarrow> ovrd_targets ovrd \<noteq> [] \<and> (ovrd_enabled ovrd \<noteq> None \<or> ovrd_actions ovrd \<noteq> None) \<and>
     (\<forall>t \<in> set (ovrd_targets ovrd). rules_target_ok t \<and> target_kind_of t = k)"

lemma override_targets_loop_ok:
  "override_targets_loop xs k acc = Inr (ts, k') \<Longrightarrow> \<forall>t \<in> set acc. rules_target_ok t \<and> target_kind_of t = k \<Longrightarrow>
   (k = Target_None \<Longrightarrow> acc = []) \<Longrightarrow>
   length ts = length acc + length xs \<and> (\<forall>t \<in> set ts. rules_target_ok t \<and> target_kind_of t = k')"
proof (induction xs arbitrary: k acc)
  case (Cons x xs)
  from Cons.prems(1) obtain m t where t: "to_map x = Inr m" "parse_rules_target m = Inr t"
    by (auto simp: bind_exn_Inr)
  have ok: "rules_target_ok t" "target_kind_of t \<noteq> Target_None"
    using parse_rules_target_ok [OF t(2)] by (auto simp: rules_target_ok_def)
  show ?case
  proof (cases "k = Target_None")
    case True
    then have "override_targets_loop xs (target_kind_of t) [t] = Inr (ts, k')" "acc = []"
      using Cons.prems by (simp_all add: t)
    with Cons.IH [OF this(1)] ok show ?thesis
      by simp
  next
    case False
    then have "override_targets_loop xs k (acc @ [t]) = Inr (ts, k')" "k = target_kind_of t"
      using Cons.prems(1) by (simp_all add: t split: if_splits)
    with Cons.IH [OF this(1)] Cons.prems(2) False ok show ?thesis
      by simp
  qed
qed simp

lemma parse_override_ok: "parse_override node = Inr (spec, k) \<Longrightarrow> override_ok k spec"
proof -
  assume parsed: "parse_override node = Inr (spec, k)"
  from parsed obtain e a rules_array res where res: "(if rules_array \<noteq> [] then override_targets_loop rules_array Target_None []
      else bind_exn (at to_string node ''id'') (\<lambda>i.
        Inr ([\<lparr>target_kind_of = Target_Id, target_rule_id = i, target_tags = []\<rparr>], Target_Id))) = Inr res"
    "(case res of (ts, type) \<Rightarrow> if a = None \<and> e = None then Inl (Parsing_Exn ''rules_override without side-effects'')
      else Inr (\<lparr>ovrd_enabled = e, ovrd_actions = a, ovrd_targets = ts\<rparr>, type)) = Inr (spec, k)"
    unfolding parse_override_def bind_exn_Inr by (elim exE conjE) (rule that)
  obtain ts k0 where "res = (ts, k0)"
    by (rule prod.exhaust)
  with res have ts: "(if rules_array \<noteq> [] then override_targets_loop rules_array Target_None []
      else bind_exn (at to_string node ''id'') (\<lambda>i.
        Inr ([\<lparr>target_kind_of = Target_Id, target_rule_id = i, target_tags = []\<rparr>], Target_Id))) = Inr (ts, k)"
    "a \<noteq> None \<or> e \<noteq> None" "spec = \<lparr>ovrd_enabled = e, ovrd_actions = a, ovrd_targets = ts\<rparr>"
    by (simp_all split: if_splits)
  have "ts \<noteq> [] \<and> (\<forall>t \<in> set ts. rules_target_ok t \<and> target_kind_of t = k)"
  proof (cases "rules_array = []")
    case True
    then show ?thesis
      using ts(1) by (auto simp: bind_exn_Inr rules_target_ok_def)
  next
    case False
    then show ?thesis
      using override_targets_loop_ok [of rules_array Target_None "[]" ts k] ts(1) by auto
  qed
  then show ?thesis
    using ts(2) by (auto simp: override_ok_def ts(3))
qed

definition overrides_ok :: "override_spec_container \<Rightarrow> bool" where
  "overrides_ok c \<longleftrightarrow> (\<forall>ovrd \<in> set (by_ids c). override_ok Target_Id ovrd) \<and> (\<forall>ovrd \<in> set (by_tags c). override_ok Target_Tags ovrd)"

lemma parse_overrides_ok: "parse_overrides xs = Inr c \<Longrightarrow> overrides_ok c"
proof -
  have "parse_overrides_loop xs c0 = Inr c \<Longrightarrow> overrides_ok c0 \<Longrightarrow> overrides_ok c" for c0
  proof (induction xs arbitrary: c0)
    case (Cons x xs)
    from Cons.prems(1) obtain node where node: "to_map x = Inr node"
      by (auto simp: bind_exn_Inr)
    have "overrides_ok (case parse_override node of
          Inl _ \<Rightarrow> c0
        | Inr (spec, type) \<Rightarrow>
            (case type of
               Target_Id \<Rightarrow> c0\<lparr>by_ids := by_ids c0 @ [spec]\<rparr>
             | Target_Tags \<Rightarrow> c0\<lparr>by_tags := by_tags c0 @ [spec]\<rparr>
             | Target_None \<Rightarrow> c0))"
    proof (cases "parse_override node")
      case (Inr res)
      obtain spec k where res: "res = (spec, k)"
        by (rule prod.exhaust)
      have "override_ok k spec"
        using Inr by (intro parse_override_ok) (simp add: res)
      then show ?thesis
        using Cons.prems(2) by (cases k) (simp_all add: Inr res overrides_ok_def)
    qed (simp add: Cons.prems(2))
    with Cons.IH Cons.prems(1) show ?case
      by (simp add: node)
  qed simp
  from this [of no_overrides] show "parse_overrides xs = Inr c \<Longrightarrow> overrides_ok c"
    unfolding parse_overrides_def by (simp add: overrides_ok_def no_overrides_def)
qed

section \<open>The rules of an array\<close>

text \<open>C8: Whatever the array of rules holds, the rules that come out of a load have identifiers of
  their own and are well formed: each has a type, its conditions have at least one target and no
  unknown transformer, and the identifier of every target is the one that the manifest gives its
  address, none of the addresses known before being forgotten. The diagnostics are told of every
  entry exactly once, loaded for the rules that came out and failed for the others.\<close>

theorem parsed_rules_well_formed:
  assumes "parse_rules alloc env lim rule_array s info = Some (Inr specs, s', info')"
  shows "specs_ok lim (ps_manifest s') specs \<and> manifest_grows (ps_manifest s) (ps_manifest s') \<and>
    (\<exists>cs. accounts alloc cs info info' (length rule_array) (length specs))"
proof -
  have "specs_ok lim (ps_manifest s) []"
    by (simp add: specs_ok_def)
  from parse_rules_loop_ok [OF assms [unfolded parse_rules_def] this] show ?thesis
    by (auto simp: parse_grows_def)
qed

text \<open>A small rule set as objects.\<close>

definition o_str :: "string \<Rightarrow> ddwaf_object" where
  "o_str s = Obj None (Str (Some s) (length s))"

definition o_array :: "ddwaf_object list \<Rightarrow> ddwaf_object" where
  "o_array xs = Obj None (Array (Arr (length xs) xs))"

definition o_map :: "(string \<times> ddwaf_object) list \<Rightarrow> ddwaf_object" where
  "o_map kvs = Obj None (Map (Arr (length kvs) (map (\<lambda>(k, ob). Obj (Some k) (payload ob)) kvs)))"

definition o_rule :: "string \<Rightarrow> string \<Rightarrow> string \<Rightarrow> ddwaf_object" where
  "o_rule i address word = o_map [(''id'', o_str i), (''name'', o_str ''a rule''), (''tags'', o_map [(''type'', o_str ''attack'')]),
     (''conditions'', o_array [o_map [(''operator'', o_str ''exact_match''), (''parameters'', o_map [
        (''inputs'', o_array [o_map [(''address'', o_str address)]]), (''list'', o_array [o_str word])])]])]"

definition start_state :: parse_state where
  "start_state = \<lparr>ps_manifest = empty_manifest, ps_data_ids = [], ps_next = 0\<rparr>"

definition wide_limits :: object_limits where
  "wide_limits = \<lparr>max_container_depth = 20, max_container_size = 256, max_string_length = 4096\<rparr>"

text \<open>The definitions that evaluate a parser on an object.\<close>

lemmas parse_code =
  o_str_def o_array_def o_map_def o_rule_def start_state_def wide_limits_def empty_manifest_def manifest_insert_def manifest_find_def
  to_map_def to_vector_def to_strings_def to_string_views_def to_string_def to_string_view_def to_bool_def obj_type_def
  at_def at_default_def keyed_def str_of_def bind_act_def lift_def lift_opt_def cast_if_def
  parse_processor_def list_or_data_def exact_match_of_strings_def parse_targets_def parse_target_def insert_target_def
  new_condition_def note_data_id_def parse_rule_condition_def parse_tags_def parse_rule_def parse_rules_def
  parse_filter_condition_def parse_filter_conditions_def parse_filter_targets_def parse_rules_target_def
  parse_input_filter_def parse_rule_filter_def parse_filter_def parse_filters_def no_filters_def
  parse_override_def parse_overrides_def no_overrides_def
  new_ruleset_info_def add_failed_def add_loaded_def on_info_def insert_error_def emplace_def Let_def

lemma parse_sample:
  "(case parse_rules (\<lambda>_. True) no_libs wide_limits [o_rule ''r1'' ''server.request'' ''evil'', o_map [(''id'', o_str ''r2'')], o_rule ''r1'' ''x'' ''y'']
      start_state (new_ruleset_info None) of
     Some (Inr specs, s', _) \<Rightarrow> Some (map fst specs, targets (ps_manifest s')) | _ \<Rightarrow> None) =
   Some ([''r1''], [(''server.request'', 1)])"
  by (simp add: parse_code)

theorem parsed_rules_well_formed_witness:
  "\<exists>specs s' info'. parse_rules (\<lambda>_. True) no_libs wide_limits
      [o_rule ''r1'' ''server.request'' ''evil'', o_map [(''id'', o_str ''r2'')], o_rule ''r1'' ''x'' ''y'']
      start_state (new_ruleset_info None) = Some (Inr specs, s', info') \<and>
    map fst specs = [''r1''] \<and> specs_ok wide_limits (ps_manifest s') specs \<and>
    (\<exists>cs. accounts (\<lambda>_. True) cs (new_ruleset_info None) info' 3 1)"
proof -
  obtain specs s' info' where run: "parse_rules (\<lambda>_. True) no_libs wide_limits
      [o_rule ''r1'' ''server.request'' ''evil'', o_map [(''id'', o_str ''r2'')], o_rule ''r1'' ''x'' ''y'']
      start_state (new_ruleset_info None) = Some (Inr specs, s', info')" "map fst specs = [''r1'']"
    using parse_sample by (auto split: option.splits sum.splits prod.splits)
  then have "length specs = 1"
    by (metis length_map length_Cons list.size(3) One_nat_def)
  with parsed_rules_well_formed [OF run(1)] run show ?thesis
    by (auto simp: eval_nat_numeral)
qed

text \<open>
  A condition on the rule data of no name: it has neither a processor nor an identifier under which
  one could be looked up, and the rule is loaded nevertheless (\<open>parser_v2.cpp:111\<close>).
\<close>

lemma empty_data_id: "parse_processor env ''ip_match'' [(''data'', o_str [])] = Some (Inr ([], None))"
  by (simp add: parse_code)

section \<open>Parsing is defined\<close>

text \<open>An action that is defined in every state. Without a diagnostics structure nothing is allocated.\<close>

definition defined :: "('s, 'a) action \<Rightarrow> bool" where
  "defined m \<longleftrightarrow> (\<forall>s. \<exists>r s'. m s = Some (r, s'))"

lemma definedD: "defined m \<Longrightarrow> \<exists>r s'. m s = Some (r, s')"
  by (simp add: defined_def)

lemma defined_lift: "defined (lift r)"
  by (simp add: defined_def lift_def)

lemma defined_lift_opt: "r \<noteq> None \<Longrightarrow> defined (lift_opt r)"
  by (auto simp: defined_def lift_opt_def)

lemma defined_bind:
  assumes "defined m" "\<And>x. defined (f x)"
  shows "defined (bind_act m f)"
  unfolding defined_def
proof
  fix s
  obtain r s1 where "m s = Some (r, s1)"
    using definedD [OF assms(1)] by blast
  then show "\<exists>r s'. bind_act m f s = Some (r, s')"
    using assms(2) by (cases r) (auto simp: bind_act_def defined_def)
qed

lemma defined_for_each: "(\<And>x. defined (f x)) \<Longrightarrow> defined (for_each f xs)"
  by (induction xs) (auto intro: defined_lift defined_bind)

lemma defined_if: "defined m1 \<Longrightarrow> defined m2 \<Longrightarrow> defined (if c then m1 else m2)"
  by simp

lemma defined_pair: "(\<And>a b. defined (f a b)) \<Longrightarrow> defined (case x of (a, b) \<Rightarrow> f a b)"
  by (cases x) simp

lemmas defined_rules = defined_bind defined_lift defined_for_each defined_if defined_pair

lemma ip_match_defined: "inet_ok net \<Longrightarrow> ip_match_of_data net ips \<noteq> None"
  using ip_match_loop_entries [of net Null Map.empty ips] by (auto simp: ip_match_of_data_def)

lemma parse_processor_defined: "inet_ok (lib_inet env) \<Longrightarrow> parse_processor env operation params \<noteq> None"
  using ip_match_defined
  by (auto simp: parse_processor_def list_or_data_def ip_match_of_strings_def Let_def split: option.split sum.split)

lemma parse_targets_defined: "defined (parse_targets params)"
proof -
  have "defined (insert_target a kp)" for a kp
    by (simp add: defined_def insert_target_def split_beta Let_def)
  then show ?thesis
    unfolding parse_targets_def parse_target_def by (intro defined_rules)
qed

lemma new_condition_defined: "defined (new_condition ts xfs p i lim source)"
  by (simp add: defined_def new_condition_def)

lemma processor_defined: "inet_ok (lib_inet env) \<Longrightarrow> defined (lift_opt (parse_processor env operation params))"
  by (rule defined_lift_opt [OF parse_processor_defined])

lemmas condition_rules = defined_rules parse_targets_defined new_condition_defined processor_defined

lemma parse_rule_condition_defined:
  assumes "inet_ok (lib_inet env)"
  shows "defined (parse_rule_condition env cond source xfs lim)"
proof -
  have "defined (note_data_id i operation)" for i operation
    by (simp add: defined_def note_data_id_def)
  with assms show ?thesis
    unfolding parse_rule_condition_def by (intro condition_rules)
qed

lemma parse_rule_defined: "inet_ok (lib_inet env) \<Longrightarrow> defined (parse_rule env rule_map lim)"
  unfolding parse_rule_def by (intro defined_rules parse_rule_condition_defined)

lemma parse_filter_conditions_defined: "inet_ok (lib_inet env) \<Longrightarrow> defined (parse_filter_conditions env flt lim)"
  unfolding parse_filter_conditions_def parse_filter_condition_def by (intro condition_rules)

lemma parse_filter_defined: "inet_ok (lib_inet env) \<Longrightarrow> defined (parse_filter env lim node c)"
proof -
  assume net: "inet_ok (lib_inet env)"
  have "defined (\<lambda>s. bind_act (lift (filter_inputs_of (ps_manifest s) inputs_array (new_object_filter lim))) (\<lambda>obj_filter.
      lift (Inr \<lparr>ifs_conditions = conds, ifs_filter = obj_filter, ifs_targets = rules_target\<rparr>)) s)" for inputs_array conds rules_target
    unfolding defined_def by (intro allI definedD defined_rules)
  with net have input: "defined (parse_input_filter env node lim)"
    unfolding parse_input_filter_def by (intro defined_rules parse_filter_conditions_defined)
  have "defined (parse_rule_filter env node lim)"
    unfolding parse_rule_filter_def using net by (intro defined_rules parse_filter_conditions_defined)
  with input show ?thesis
    unfolding parse_filter_def by (intro defined_rules)
qed

lemma parse_filters_loop_defined:
  assumes "inet_ok (lib_inet env)"
  shows "\<exists>r s'. parse_filters_loop env lim xs c s = Some (r, s')"
proof (induction xs arbitrary: c s)
  case (Cons x xs)
  show ?case
  proof (cases "to_map x")
    case (Inr node)
    obtain r s1 where "parse_filter env lim node c s = Some (r, s1)"
      using definedD [OF parse_filter_defined [OF assms]] by blast
    with Cons.IH show ?thesis
      by (simp add: bind_act_def lift_def Inr)
  qed (simp add: bind_act_def lift_def)
qed (simp add: lift_def)

lemma parse_rule_data_defined: "inet_ok (lib_inet env) \<Longrightarrow> parse_rule_data env ids xs ps \<noteq> None"
proof (induction xs arbitrary: ps)
  case (Cons x xs)
  have "parse_data_entry env ids x \<noteq> None"
    using ip_match_defined [OF Cons.prems] by (auto simp: parse_data_entry_def Let_def split: sum.split prod.split)
  then obtain r where r: "parse_data_entry env ids x = Some r"
    by blast
  have rest: "parse_rule_data env ids xs ps' \<noteq> None" for ps'
    using Cons.IH Cons.prems by blast
  show ?case
  proof (cases r)
    case (Inl e)
    with rest show ?thesis
      by (simp add: r)
  next
    case (Inr found)
    with rest show ?thesis
      by (cases found) (simp_all add: r split_beta)
  qed
qed simp

lemma info_null_keeps: "info_ptr info = None \<Longrightarrow> info_ptr (add_failed info) = None \<and> info_ptr (add_loaded info) = None \<and> insert_error alloc i err info = Some info"
  by (simp add: add_failed_def add_loaded_def on_info_def insert_error_def)

lemma parse_rules_loop_defined:
  assumes "inet_ok (lib_inet env)"
  shows "info_ptr info = None \<Longrightarrow> \<exists>r s' info'. parse_rules_loop alloc env lim xs specs s info = Some (r, s', info') \<and> info_ptr info' = None"
proof (induction xs arbitrary: specs s info)
  case (Cons x xs)
  note null = info_null_keeps [OF Cons.prems]
  have rest: "\<exists>r s' info'. parse_rules_loop alloc env lim xs specs' s1 info1 = Some (r, s', info') \<and> info_ptr info' = None"
    if "info1 = info \<or> info1 = add_failed info \<or> info1 = add_loaded info" for specs' s1 info1
    using Cons.IH Cons.prems null that by blast
  show ?case
  proof (cases "to_map x")
    case (Inr m)
    show ?thesis
    proof (cases "at to_string m ''id''")
      case i: (Inr i)
      obtain r s1 where r: "parse_rule env m lim s = Some (r, s1)"
        using definedD [OF parse_rule_defined [OF assms]] by blast
      show ?thesis
        using rest null by (cases r) (auto simp: Inr i r Cons.prems)
    qed (use rest in \<open>simp add: Inr\<close>)
  qed (use Cons.prems in simp)
qed simp

end
