(* ===== verification/Builder.thy ===== *)
theory Builder
  imports Parser_V2 Ruleset Mkmap
begin

text \<open>
  The builder of rule sets (\<open>src/ruleset_builder.hpp\<close>, \<open>src/ruleset_builder.cpp\<close>): it keeps what
  the last loads gave and makes a new rule set of it at every update.
\<close>

section \<open>The code\<close>

text \<open>The changes of a load, a set of flags.\<close>

type_synonym change_state = u32

abbreviation (input) change_none :: change_state where "change_none \<equiv> 0"
abbreviation (input) change_rules :: change_state where "change_rules \<equiv> 1"
abbreviation (input) change_overrides :: change_state where "change_overrides \<equiv> 2"
abbreviation (input) change_filters :: change_state where "change_filters \<equiv> 4"
abbreviation (input) change_data :: change_state where "change_data \<equiv> 8"

record ruleset_builder =
  rb_limits :: object_limits
  rb_free_fn :: bool
  rb_obfuscator :: obfuscator
  target_manifest :: manifest
  rb_data_ids :: "(string \<times> string) list"
  base_rules :: rule_spec_container
  dynamic_processors :: rule_data_container
  overrides :: override_spec_container
  exclusions :: filter_spec_container
  final_rules :: "(string \<times> rule) list"
  rules_by_tags :: "nat multi_key_map"
  targets_from_rules :: "u32 set"
  rb_rule_filters :: "(string \<times> rule_filter) list"
  rb_input_filters :: "(string \<times> input_filter) list"
  targets_from_filters :: "u32 set"
  next_ptr :: nat

definition new_builder :: "object_limits \<Rightarrow> bool \<Rightarrow> obfuscator \<Rightarrow> ruleset_builder" where
  "new_builder lim free_fn ob =
     \<lparr>rb_limits = lim, rb_free_fn = free_fn, rb_obfuscator = ob, target_manifest = empty_manifest, rb_data_ids = [],
      base_rules = [], dynamic_processors = [], overrides = no_overrides, exclusions = no_filters, final_rules = [],
      rules_by_tags = mk_empty, targets_from_rules = {}, rb_rule_filters = [], rb_input_filters = [],
      targets_from_filters = {}, next_ptr = 0\<rparr>"

text \<open>
  A load, one key after the other. An exception leaves what the keys before it have changed; the
  manifest is changed in place, also by rules that are not kept in the end.
\<close>

type_synonym 'a load = "ruleset_builder \<times> ruleset_info \<Rightarrow> ('a throws \<times> ruleset_builder \<times> ruleset_info) option"

definition load_version :: "pmap \<Rightarrow> unit load" where
  "load_version root_map = (\<lambda>(b, info).
     case at_default to_map root_map ''metadata'' [] of
       Inl e \<Rightarrow> Some (Inl e, b, info)
     | Inr metadata \<Rightarrow>
         (case map_of metadata ''rules_version'' of
            None \<Rightarrow> Some (Inr (), b, info)
          | Some v \<Rightarrow>
              (case to_string_view v of
                 Inl e \<Rightarrow> Some (Inl e, b, info)
               | Inr str \<Rightarrow> Some (Inr (), b, set_version str info))))"

definition no_valid_rules :: exn where
  "no_valid_rules = Parsing_Exn ''no valid rules found''"

definition load_rules :: "(nat \<Rightarrow> bool) \<Rightarrow> libs \<Rightarrow> pmap \<Rightarrow> change_state load" where
  "load_rules alloc env root_map = (\<lambda>(b, info).
     case map_of root_map ''rules'' of
       None \<Rightarrow> Some (if base_rules b = [] then Inl no_valid_rules else Inr change_none, b, info)
     | Some ob \<Rightarrow>
         (case to_vector ob of
            Inl e \<Rightarrow> Some (Inl e, b, info)
          | Inr array \<Rightarrow>
              do { (res, s, info') \<leftarrow> parse_rules alloc env (rb_limits b) array
                     \<lparr>ps_manifest = target_manifest b, ps_data_ids = [], ps_next = next_ptr b\<rparr> info;
                   let b1 = b\<lparr>target_manifest := ps_manifest s, next_ptr := ps_next s\<rparr>
                   in (case res of
                         Inl e \<Rightarrow> Some (Inl e, b1, info')
                       | Inr specs \<Rightarrow>
                           if specs = [] then Some (Inl no_valid_rules, b1, info')
                           else Some (Inr change_rules, b1\<lparr>base_rules := specs, rb_data_ids := ps_data_ids s\<rparr>, info')) }))"

definition load_data :: "libs \<Rightarrow> pmap \<Rightarrow> change_state load" where
  "load_data env root_map = (\<lambda>(b, info).
     case map_of root_map ''rules_data'' of
       None \<Rightarrow> Some (Inr change_none, b, info)
     | Some ob \<Rightarrow>
         (case to_vector ob of
            Inl e \<Rightarrow> Some (Inl e, b, info)
          | Inr array \<Rightarrow>
              if array = [] then Some (Inr change_data, b\<lparr>dynamic_processors := []\<rparr>, info)
              else do { res \<leftarrow> parse_rule_data env (rb_data_ids b) array [];
                        (case res of
                           Inl e \<Rightarrow> Some (Inl e, b, info)
                         | Inr new_processors \<Rightarrow> Some (Inr change_data, b\<lparr>dynamic_processors := new_processors\<rparr>, info)) }))"

definition load_overrides :: "pmap \<Rightarrow> change_state load" where
  "load_overrides root_map = (\<lambda>(b, info).
     case map_of root_map ''rules_override'' of
       None \<Rightarrow> Some (Inr change_none, b, info)
     | Some ob \<Rightarrow>
         (case to_vector ob of
            Inl e \<Rightarrow> Some (Inl e, b, info)
          | Inr array \<Rightarrow>
              if array = [] then Some (Inr change_overrides, b\<lparr>overrides := overrides_clear (overrides b)\<rparr>, info)
              else (case parse_overrides array of
                      Inl e \<Rightarrow> Some (Inl e, b, info)
                    | Inr new_overrides \<Rightarrow>
                        if overrides_empty new_overrides then Some (Inr change_none, b, info)
                        else Some (Inr change_overrides, b\<lparr>overrides := new_overrides\<rparr>, info))))"

definition load_filters :: "libs \<Rightarrow> pmap \<Rightarrow> change_state load" where
  "load_filters env root_map = (\<lambda>(b, info).
     case map_of root_map ''exclusions'' of
       None \<Rightarrow> Some (Inr change_none, b, info)
     | Some ob \<Rightarrow>
         (case to_vector ob of
            Inl e \<Rightarrow> Some (Inl e, b, info)
          | Inr array \<Rightarrow>
              if array = [] then Some (Inr change_filters, b\<lparr>exclusions := filters_clear (exclusions b)\<rparr>, info)
              else do { (res, s) \<leftarrow> parse_filters env (rb_limits b) array
                          \<lparr>ps_manifest = target_manifest b, ps_data_ids = [], ps_next = next_ptr b\<rparr>;
                        let b1 = b\<lparr>target_manifest := ps_manifest s, next_ptr := ps_next s\<rparr>
                        in (case res of
                              Inl e \<Rightarrow> Some (Inl e, b1, info)
                            | Inr new_exclusions \<Rightarrow>
                                if filters_empty new_exclusions then Some (Inr change_none, b1, info)
                                else Some (Inr change_filters, b1\<lparr>exclusions := new_exclusions\<rparr>, info)) }))"

unbundle bit_operations_syntax

definition load :: "(nat \<Rightarrow> bool) \<Rightarrow> libs \<Rightarrow> pmap \<Rightarrow> change_state load" where
  "load alloc env root_map =
     bind_act (load_version root_map) (\<lambda>_.
     bind_act (load_rules alloc env root_map) (\<lambda>c1.
     bind_act (load_data env root_map) (\<lambda>c2.
     bind_act (load_overrides root_map) (\<lambda>c3.
     bind_act (load_filters env root_map) (\<lambda>c4.
     lift (Inr (c1 OR c2 OR c3 OR c4)))))))"

text \<open>The rules that are meant: all of them when there are no targets. A rule is its pointer.\<close>

primrec targets_loop ::
    "(string \<times> rule) list \<Rightarrow> nat multi_key_map \<Rightarrow> rule_target_spec list \<Rightarrow> nat set \<Rightarrow> nat set option" where
  "targets_loop rs tag_map [] acc = Some acc"
| "targets_loop rs tag_map (t # ts) acc =
     (case target_kind_of t of
        Target_Id \<Rightarrow> targets_loop rs tag_map ts
          (case map_of rs (target_rule_id t) of None \<Rightarrow> acc | Some r \<Rightarrow> insert (rule_ptr r) acc)
      | Target_Tags \<Rightarrow> do { current \<leftarrow> multifind tag_map (target_tags t);
                           targets_loop rs tag_map ts (acc \<union> current) }
      | Target_None \<Rightarrow> targets_loop rs tag_map ts acc)"

definition target_to_rules ::
    "rule_target_spec list \<Rightarrow> (string \<times> rule) list \<Rightarrow> nat multi_key_map \<Rightarrow> nat set option" where
  "target_to_rules ts rs tag_map =
     (if ts \<noteq> [] then targets_loop rs tag_map ts {} else Some (set (map (\<lambda>(i, r). rule_ptr r) rs)))"

text \<open>The rules of the specifications, new objects each time.\<close>

definition spec_targets :: "condition list \<Rightarrow> u32 set" where
  "spec_targets conds = set (concat (map (\<lambda>c. map root (cond_targets c)) conds))"

definition rule_of_spec :: "nat \<Rightarrow> string \<Rightarrow> rule_spec \<Rightarrow> rule" where
  "rule_of_spec p i spec = \<lparr>rule_ptr = p, enabled = spec_enabled spec, rule_id = i, rule_name = spec_name spec,
     tags = spec_tags spec, conditions = spec_conditions spec, actions = spec_actions spec\<rparr>"

primrec make_rules :: "rule_spec_container \<Rightarrow> ruleset_builder \<Rightarrow> ruleset_builder" where
  "make_rules [] b = b"
| "make_rules (entry # specs) b =
     (let (i, spec) = entry; r = rule_of_spec (next_ptr b) i spec in
      make_rules specs (b\<lparr>targets_from_rules := targets_from_rules b \<union> spec_targets (spec_conditions spec),
        final_rules := emplace (rule_id r) r (final_rules b),
        rules_by_tags := mk_insert (tags r) (rule_ptr r) (rules_by_tags b),
        next_ptr := next_ptr b + 1\<rparr>))"

definition override_rule :: "override_spec \<Rightarrow> rule \<Rightarrow> rule" where
  "override_rule ovrd r =
     (let r1 = (case ovrd_enabled ovrd of None \<Rightarrow> r | Some v \<Rightarrow> toggle r v)
      in (case ovrd_actions ovrd of None \<Rightarrow> r1 | Some acts \<Rightarrow> r1\<lparr>actions := acts\<rparr>))"

primrec apply_overrides ::
    "nat multi_key_map \<Rightarrow> override_spec list \<Rightarrow> (string \<times> rule) list \<Rightarrow> (string \<times> rule) list option" where
  "apply_overrides tag_map [] rs = Some rs"
| "apply_overrides tag_map (ovrd # ovrds) rs =
     do { rule_targets \<leftarrow> target_to_rules (ovrd_targets ovrd) rs tag_map;
          apply_overrides tag_map ovrds
            (map (\<lambda>(i, r). (i, if rule_ptr r \<in> rule_targets then override_rule ovrd r else r)) rs) }"

definition regenerate_rules :: "ruleset_builder \<Rightarrow> ruleset_builder option" where
  "regenerate_rules b =
     (let b1 = make_rules (base_rules b) (b\<lparr>final_rules := [], rules_by_tags := mk_empty, targets_from_rules := {}\<rparr>) in
      do { rs1 \<leftarrow> apply_overrides (rules_by_tags b1) (by_tags (overrides b1)) (final_rules b1);
           rs2 \<leftarrow> apply_overrides (rules_by_tags b1) (by_ids (overrides b1)) rs1;
           Some (b1\<lparr>final_rules := rs2\<rparr>) })"

text \<open>The filters, over the final rules.\<close>

primrec make_rule_filters :: "(string \<times> rule_filter_spec) list \<Rightarrow> ruleset_builder \<Rightarrow> ruleset_builder option" where
  "make_rule_filters [] b = Some b"
| "make_rule_filters (entry # rest) b =
     (let (i, flt) = entry in
      do { rule_targets \<leftarrow> target_to_rules (rfs_targets flt) (final_rules b) (rules_by_tags b);
           make_rule_filters rest (b\<lparr>rb_rule_filters := emplace i
               \<lparr>rf_id = i, rf_conditions = rfs_conditions flt, rf_rule_targets = rule_targets\<rparr> (rb_rule_filters b),
             targets_from_filters := targets_from_filters b \<union> spec_targets (rfs_conditions flt)\<rparr>) })"

primrec make_input_filters :: "(string \<times> input_filter_spec) list \<Rightarrow> ruleset_builder \<Rightarrow> ruleset_builder option" where
  "make_input_filters [] b = Some b"
| "make_input_filters (entry # rest) b =
     (let (i, flt) = entry in
      do { rule_targets \<leftarrow> target_to_rules (ifs_targets flt) (final_rules b) (rules_by_tags b);
           make_input_filters rest (b\<lparr>rb_input_filters := emplace i
               \<lparr>if_id = i, if_conditions = ifs_conditions flt, if_rule_targets = rule_targets, if_filter = ifs_filter flt\<rparr>
               (rb_input_filters b),
             targets_from_filters := targets_from_filters b \<union> filter_targets (ifs_filter flt) \<union> spec_targets (ifs_conditions flt)\<rparr>) })"

definition regenerate_filters :: "ruleset_builder \<Rightarrow> ruleset_builder option" where
  "regenerate_filters b =
     do { b1 \<leftarrow> make_rule_filters (spec_rule_filters (exclusions b))
                (b\<lparr>rb_rule_filters := [], rb_input_filters := [], targets_from_filters := {}\<rparr>);
          make_input_filters (spec_input_filters (exclusions b1)) b1 }"

definition clean_manifest :: "ruleset_builder \<Rightarrow> ruleset_builder" where
  "clean_manifest b = b\<lparr>target_manifest := remove_unused (target_manifest b) (targets_from_rules b \<union> targets_from_filters b)\<rparr>"

definition ruleset_of :: "ruleset_builder \<Rightarrow> ruleset" where
  "ruleset_of b = (insert_rules (final_rules b)
     ((empty_ruleset (rb_obfuscator b))\<lparr>rs_manifest := target_manifest b\<rparr>))
       \<lparr>rs_dynamic_processors := dynamic_processors b, rule_filters := rb_rule_filters b,
        input_filters := rb_input_filters b, rs_free_fn := rb_free_fn b\<rparr>"

definition rebuild :: "change_state \<Rightarrow> ruleset_builder \<Rightarrow> ruleset_builder option" where
  "rebuild state b =
     (let rule_update = change_rules OR change_overrides;
          filters_update = rule_update OR change_filters;
          manifest_update = change_rules OR change_filters in
      do { b1 \<leftarrow> (if state AND rule_update \<noteq> change_none then regenerate_rules b else Some b);
           b2 \<leftarrow> (if state AND filters_update \<noteq> change_none then regenerate_filters b1 else Some b1);
           Some (if state AND manifest_update \<noteq> change_none then clean_manifest b2 else b2) })"

text \<open>No rule set at all when nothing has changed.\<close>

definition build ::
    "(nat \<Rightarrow> bool) \<Rightarrow> libs \<Rightarrow> pmap \<Rightarrow> ruleset option load" where
  "build alloc env root_map = (\<lambda>(b, info).
     do { (res, b1, info1) \<leftarrow> load alloc env root_map (b, info);
          (case res of
             Inl e \<Rightarrow> Some (Inl e, b1, info1)
           | Inr state \<Rightarrow>
               if state = change_none then Some (Inr None, b1, info1)
               else do { b2 \<leftarrow> rebuild state b1; Some (Inr (Some (ruleset_of b2)), b2, info1) }) })"

definition build_object :: "(nat \<Rightarrow> bool) \<Rightarrow> libs \<Rightarrow> ddwaf_object \<Rightarrow> ruleset option load" where
  "build_object alloc env ob = bind_act (lift (to_map ob)) (\<lambda>root_map. build alloc env root_map)"

section \<open>The generated rules\<close>

text \<open>A rule stands for a specification: all of it but the switch and the actions, which overrides change.\<close>

definition stands_for :: "string \<times> rule_spec \<Rightarrow> string \<times> rule \<Rightarrow> bool" where
  "stands_for x y \<longleftrightarrow> fst y = fst x \<and> rule_id (snd y) = fst x \<and> rule_name (snd y) = spec_name (snd x) \<and>
     tags (snd y) = spec_tags (snd x) \<and> conditions (snd y) = spec_conditions (snd x)"

definition all_targets :: "rule_spec_container \<Rightarrow> u32 set" where
  "all_targets specs = (\<Union>(i, spec) \<in> set specs. spec_targets (spec_conditions spec))"

primrec numbered :: "nat \<Rightarrow> rule_spec_container \<Rightarrow> (string \<times> rule) list" where
  "numbered p [] = []"
| "numbered p (x # specs) = (fst x, rule_of_spec p (fst x) (snd x)) # numbered (Suc p) specs"

lemma numbered_stand: "list_all2 stands_for specs (numbered p specs)"
  by (induction specs arbitrary: p) (auto simp: stands_for_def rule_of_spec_def)

lemma numbered_ptr: "x \<in> set (numbered p specs) \<Longrightarrow> p \<le> rule_ptr (snd x) \<and> rule_ptr (snd x) < p + length specs"
  by (induction specs arbitrary: p) (auto simp: rule_of_spec_def, fastforce+)

lemma numbered_distinct: "distinct (map (\<lambda>(i, r). rule_ptr r) (numbered p specs))"
proof (induction specs arbitrary: p)
  case (Cons x specs)
  obtain i spec where "x = (i, spec)"
    by (rule prod.exhaust)
  with Cons.IH [of "Suc p"] numbered_ptr [of _ "Suc p" specs] show ?case
    by (force simp: rule_of_spec_def)
qed simp

lemma make_rules_numbered:
  "distinct (map fst (final_rules b) @ map fst specs) \<Longrightarrow>
   make_rules specs b = b\<lparr>final_rules := final_rules b @ numbered (next_ptr b) specs,
     targets_from_rules := targets_from_rules b \<union> all_targets specs,
     rules_by_tags := fold (\<lambda>(i, r). mk_insert (tags r) (rule_ptr r)) (numbered (next_ptr b) specs) (rules_by_tags b),
     next_ptr := next_ptr b + length specs\<rparr>"
proof (induction specs arbitrary: b)
  case (Cons x specs)
  obtain i spec where x: "x = (i, spec)"
    by (rule prod.exhaust)
  have new: "map_of (final_rules b) i = None"
    using Cons.prems by (auto simp: x map_of_eq_None_iff)
  show ?case
    using Cons.prems
    by (simp add: x Let_def emplace_def new rule_of_spec_def [of "next_ptr b"] Cons.IH all_targets_def Un_assoc)
qed (simp add: all_targets_def)

text \<open>The overrides one after the other, as a function of the rule.\<close>

definition meant :: "nat multi_key_map \<Rightarrow> (string \<times> rule) list \<Rightarrow> override_spec \<Rightarrow> nat set" where
  "meant tag_map rs ovrd = (case target_to_rules (ovrd_targets ovrd) rs tag_map of None \<Rightarrow> {} | Some ps \<Rightarrow> ps)"

text \<open>What is meant does not depend on the switches and actions.\<close>

definition same_ids :: "(string \<times> rule) list \<Rightarrow> (string \<times> rule) list \<Rightarrow> bool" where
  "same_ids = list_all2 (\<lambda>x y. fst x = fst y \<and> rule_ptr (snd x) = rule_ptr (snd y))"

lemma same_ids_lookup: "same_ids rs rs' \<Longrightarrow> map_option rule_ptr (map_of rs i) = map_option rule_ptr (map_of rs' i)"
  unfolding same_ids_def by (induction rule: list_all2_induct) auto

lemma targets_loop_same:
  assumes "same_ids rs rs'"
  shows "targets_loop rs tag_map ts acc = targets_loop rs' tag_map ts acc"
proof (induction ts arbitrary: acc)
  case (Cons t ts)
  have "(case map_of rs i of None \<Rightarrow> acc | Some r \<Rightarrow> insert (rule_ptr r) acc) =
      (case map_of rs' i of None \<Rightarrow> acc | Some r \<Rightarrow> insert (rule_ptr r) acc)" for i
    using same_ids_lookup [OF assms, of i] by (auto split: option.splits)
  with Cons.IH show ?case
    by (auto split: target_kind.split)
qed simp

lemma target_to_rules_same: "same_ids rs rs' \<Longrightarrow> target_to_rules ts rs tag_map = target_to_rules ts rs' tag_map"
proof -
  assume same: "same_ids rs rs'"
  then have "map (\<lambda>(i, r). rule_ptr r) rs = map (\<lambda>(i, r). rule_ptr r) rs'"
    unfolding same_ids_def by (induction rule: list_all2_induct) auto
  then show ?thesis
    by (simp add: target_to_rules_def targets_loop_same [OF same])
qed

lemma override_rule_simps [simp]:
  "rule_ptr (override_rule ovrd r) = rule_ptr r" "rule_id (override_rule ovrd r) = rule_id r"
  "rule_name (override_rule ovrd r) = rule_name r" "tags (override_rule ovrd r) = tags r"
  "conditions (override_rule ovrd r) = conditions r"
  "enabled (override_rule ovrd r) = (case ovrd_enabled ovrd of None \<Rightarrow> enabled r | Some v \<Rightarrow> v)"
  "actions (override_rule ovrd r) = (case ovrd_actions ovrd of None \<Rightarrow> actions r | Some acts \<Rightarrow> acts)"
  by (auto simp: override_rule_def toggle_def Let_def split: option.split)

definition overridden :: "nat multi_key_map \<Rightarrow> (string \<times> rule) list \<Rightarrow> override_spec list \<Rightarrow> rule \<Rightarrow> rule" where
  "overridden tag_map rs ovrds r = fold override_rule (filter (\<lambda>ovrd. rule_ptr r \<in> meant tag_map rs ovrd) ovrds) r"

lemma overridden_ptr: "rule_ptr (overridden tag_map rs ovrds r) = rule_ptr r"
proof -
  have "rule_ptr (fold override_rule os r) = rule_ptr r" for os
    by (induction os arbitrary: r) simp_all
  then show ?thesis
    by (simp add: overridden_def)
qed

lemma apply_overrides_overridden:
  assumes "\<forall>ovrd \<in> set ovrds. target_to_rules (ovrd_targets ovrd) rs tag_map \<noteq> None"
  shows "apply_overrides tag_map ovrds rs = Some (map (\<lambda>(i, r). (i, overridden tag_map rs ovrds r)) rs)"
  using assms
proof (induction ovrds arbitrary: rs)
  case Nil
  show ?case
    by (simp add: overridden_def case_prod_eta)
next
  case (Cons ovrd ovrds)
  then obtain ps where ps: "target_to_rules (ovrd_targets ovrd) rs tag_map = Some ps"
    by auto
  let ?f = "\<lambda>r. if rule_ptr r \<in> ps then override_rule ovrd r else r"
  let ?rs = "map (\<lambda>(i, r). (i, ?f r)) rs"
  have same: "same_ids ?rs rs"
    by (auto simp: same_ids_def list_all2_conv_all_nth split: prod.split)
  then have "\<forall>ovrd \<in> set ovrds. target_to_rules (ovrd_targets ovrd) ?rs tag_map \<noteq> None"
    using Cons.prems by (simp add: target_to_rules_same)
  from Cons.IH [OF this] have "apply_overrides tag_map (ovrd # ovrds) rs =
      Some (map (\<lambda>(i, r). (i, overridden tag_map ?rs ovrds r)) ?rs)"
    by (simp add: ps)
  moreover have "overridden tag_map ?rs ovrds (?f r) = overridden tag_map rs (ovrd # ovrds) r" for r
    using target_to_rules_same [OF same] by (simp add: overridden_def meant_def ps)
  ultimately show ?case
    by (simp add: comp_def case_prod_unfold)
qed

text \<open>Which rules are meant: those with the identifier, or with all the tags.\<close>

lemma targets_loop_defined: "\<forall>t \<in> set ts. rules_target_ok t \<Longrightarrow> \<exists>ps. targets_loop rs tag_map ts acc = Some ps"
  by (induction ts arbitrary: acc) (auto simp: rules_target_ok_def multifind_inter)

lemma target_to_rules_defined: "\<forall>t \<in> set ts. rules_target_ok t \<Longrightarrow> target_to_rules ts rs tag_map \<noteq> None"
  using targets_loop_defined [of ts rs tag_map "{}"] by (auto simp: target_to_rules_def)

definition tag_map_of :: "(string \<times> rule) list \<Rightarrow> nat multi_key_map" where
  "tag_map_of rs = mk_file (map (\<lambda>(i, r). (tags r, rule_ptr r)) rs)"

lemma tag_map_fold: "fold (\<lambda>(i, r). mk_insert (tags r) (rule_ptr r)) rs mk_empty = tag_map_of rs"
  by (simp add: tag_map_of_def mk_file_def fold_map comp_def case_prod_unfold)

definition targeted :: "rule_target_spec \<Rightarrow> string \<times> rule \<Rightarrow> bool" where
  "targeted t x \<longleftrightarrow> (case target_kind_of t of
     Target_Id \<Rightarrow> fst x = target_rule_id t
   | Target_Tags \<Rightarrow> set (target_tags t) \<subseteq> set (tags (snd x))
   | Target_None \<Rightarrow> False)"

lemma multifind_rules:
  assumes "distinct (map (\<lambda>(i, r). rule_ptr r) rs)" "x \<in> set rs" "ts \<noteq> []" "multifind (tag_map_of rs) ts = Some ps"
  shows "rule_ptr (snd x) \<in> ps \<longleftrightarrow> set ts \<subseteq> set (tags (snd x))"
proof -
  have own: "tags (snd y) = tags (snd x)" if "y \<in> set rs" "rule_ptr (snd y) = rule_ptr (snd x)" for y
    using that assms(1,2) inj_onD [of "\<lambda>(i, r). rule_ptr r" "set rs" y x] by (auto simp: distinct_map case_prod_unfold)
  have "rule_ptr (snd x) \<in> mk_find (tag_map_of rs) k \<longleftrightarrow> k \<in> set (tags (snd x))" for k
  proof -
    have "rule_ptr (snd x) \<in> mk_find (tag_map_of rs) k \<longleftrightarrow>
        (\<exists>y \<in> set rs. rule_ptr (snd y) = rule_ptr (snd x) \<and> k \<in> set (tags (snd y)))"
      unfolding tag_map_of_def mk_file_find set_map case_prod_unfold image_iff prod.inject by (blast intro: sym)
    then show ?thesis
      using assms(2) by (metis own)
  qed
  then show ?thesis
    using assms(3,4) by (auto simp: multifind_inter)
qed

lemma targets_loop_mem:
  assumes "distinct (map (\<lambda>(i, r). rule_ptr r) rs)" "distinct (map fst rs)" "x \<in> set rs"
  shows "\<forall>t \<in> set ts. rules_target_ok t \<Longrightarrow> targets_loop rs (tag_map_of rs) ts acc = Some ps \<Longrightarrow>
    rule_ptr (snd x) \<in> ps \<longleftrightarrow> rule_ptr (snd x) \<in> acc \<or> (\<exists>t \<in> set ts. targeted t x)"
proof (induction ts arbitrary: acc)
  case (Cons t ts)
  show ?case
  proof (cases "target_kind_of t")
    case Target_None
    with Cons.prems(1) show ?thesis
      by (simp add: rules_target_ok_def)
  next
    case Target_Id
    have "(\<exists>r. map_of rs (target_rule_id t) = Some r \<and> rule_ptr (snd x) = rule_ptr r) \<longleftrightarrow> fst x = target_rule_id t"
    proof
      assume "\<exists>r. map_of rs (target_rule_id t) = Some r \<and> rule_ptr (snd x) = rule_ptr r"
      then obtain r where "(target_rule_id t, r) \<in> set rs" "rule_ptr (snd x) = rule_ptr r"
        using map_of_SomeD by fastforce
      with assms(1,3) inj_onD [of "\<lambda>(i, r). rule_ptr r" "set rs" x "(target_rule_id t, r)"] show "fst x = target_rule_id t"
        by (auto simp: distinct_map case_prod_unfold)
    next
      assume "fst x = target_rule_id t"
      then have "(target_rule_id t, snd x) \<in> set rs"
        using assms(3) by (metis prod.collapse)
      then have "map_of rs (target_rule_id t) = Some (snd x)"
        using assms(2) by (intro map_of_is_SomeI)
      then show "\<exists>r. map_of rs (target_rule_id t) = Some r \<and> rule_ptr (snd x) = rule_ptr r"
        by simp
    qed
    then have "rule_ptr (snd x) \<in> (case map_of rs (target_rule_id t) of None \<Rightarrow> acc | Some r \<Rightarrow> insert (rule_ptr r) acc) \<longleftrightarrow>
        rule_ptr (snd x) \<in> acc \<or> targeted t x"
      by (auto simp: targeted_def Target_Id split: option.split)
    with Cons.IH [of "case map_of rs (target_rule_id t) of None \<Rightarrow> acc | Some r \<Rightarrow> insert (rule_ptr r) acc"] Cons.prems show ?thesis
      by (auto simp: Target_Id)
  next
    case Target_Tags
    then obtain current where current: "multifind (tag_map_of rs) (target_tags t) = Some current"
      "targets_loop rs (tag_map_of rs) ts (acc \<union> current) = Some ps"
      using Cons.prems(2) by (auto simp: bind_eq_Some_conv)
    have "rule_ptr (snd x) \<in> current \<longleftrightarrow> targeted t x"
      using multifind_rules [OF assms(1,3) _ current(1)] Cons.prems(1) by (simp add: targeted_def Target_Tags rules_target_ok_def)
    with Cons.IH [OF _ current(2)] Cons.prems(1) show ?thesis
      by auto
  qed
qed simp

lemma meant_iff:
  assumes "distinct (map (\<lambda>(i, r). rule_ptr r) rs)" "distinct (map fst rs)" "x \<in> set rs" "override_ok k ovrd"
  shows "rule_ptr (snd x) \<in> meant (tag_map_of rs) rs ovrd \<longleftrightarrow> (\<exists>t \<in> set (ovrd_targets ovrd). targeted t x)"
proof -
  have ok: "\<forall>t \<in> set (ovrd_targets ovrd). rules_target_ok t" "ovrd_targets ovrd \<noteq> []"
    using assms(4) by (simp_all add: override_ok_def)
  obtain ps where ps: "targets_loop rs (tag_map_of rs) (ovrd_targets ovrd) {} = Some ps"
    using targets_loop_defined [OF ok(1)] by blast
  with targets_loop_mem [OF assms(1-3) ok(1) ps] ok(2) show ?thesis
    by (simp add: meant_def target_to_rules_def)
qed

section \<open>Overrides\<close>

text \<open>What a list of overrides sets: the last one that says something counts.\<close>

definition setting :: "(override_spec \<Rightarrow> 'a option) \<Rightarrow> override_spec list \<Rightarrow> 'a \<Rightarrow> 'a" where
  "setting get ovrds dflt = (case filter (\<lambda>ovrd. get ovrd \<noteq> None) ovrds of [] \<Rightarrow> dflt | os \<Rightarrow> the (get (last os)))"

lemma setting_snoc: "setting get (ovrds @ [ovrd]) dflt = (case get ovrd of None \<Rightarrow> setting get ovrds dflt | Some v \<Rightarrow> v)"
proof (cases "get ovrd")
  case (Some v)
  have "(case os @ [ovrd] of [] \<Rightarrow> dflt | os \<Rightarrow> the (get (last os))) = v" for os
    using Some by (cases os) simp_all
  with Some show ?thesis
    by (simp add: setting_def)
qed (simp add: setting_def)

lemma fold_override_rule:
  "enabled (fold override_rule ovrds r) = setting ovrd_enabled ovrds (enabled r) \<and>
   actions (fold override_rule ovrds r) = setting ovrd_actions ovrds (actions r) \<and>
   rule_ptr (fold override_rule ovrds r) = rule_ptr r \<and> rule_id (fold override_rule ovrds r) = rule_id r \<and>
   rule_name (fold override_rule ovrds r) = rule_name r \<and> tags (fold override_rule ovrds r) = tags r \<and>
   conditions (fold override_rule ovrds r) = conditions r"
  by (induction ovrds rule: rev_induct) (auto simp: setting_snoc setting_def [of _ "[]"] split: option.split)

text \<open>All overrides, those by identifiers after those by tags.\<close>

definition all_overrides :: "ruleset_builder \<Rightarrow> override_spec list" where
  "all_overrides b = by_tags (overrides b) @ by_ids (overrides b)"

lemma regenerate_rules_form:
  assumes "distinct (map fst (base_rules b))" "overrides_ok (overrides b)"
  defines "rs \<equiv> numbered (next_ptr b) (base_rules b)"
  shows "regenerate_rules b = Some (b\<lparr>
    final_rules := map (\<lambda>(i, r). (i, overridden (tag_map_of rs) rs (all_overrides b) r)) rs,
    rules_by_tags := tag_map_of rs, targets_from_rules := all_targets (base_rules b), next_ptr := next_ptr b + length (base_rules b)\<rparr>)"
proof -
  let ?b = "b\<lparr>final_rules := [], rules_by_tags := mk_empty, targets_from_rules := {}\<rparr>"
  let ?tm = "tag_map_of rs"
  let ?rs1 = "map (\<lambda>(i, r). (i, overridden ?tm rs (by_tags (overrides b)) r)) rs"
  have b1: "make_rules (base_rules b) ?b = b\<lparr>final_rules := rs, rules_by_tags := ?tm,
      targets_from_rules := all_targets (base_rules b), next_ptr := next_ptr b + length (base_rules b)\<rparr>"
    using make_rules_numbered [of ?b "base_rules b"] assms(1) by (simp add: rs_def tag_map_fold)
  have def_tags: "\<forall>ovrd \<in> set (by_tags (overrides b)). target_to_rules (ovrd_targets ovrd) rs ?tm \<noteq> None" for rs
    using assms(2) target_to_rules_defined by (simp add: overrides_ok_def override_ok_def)
  have def_ids: "\<forall>ovrd \<in> set (by_ids (overrides b)). target_to_rules (ovrd_targets ovrd) rs ?tm \<noteq> None" for rs
    using assms(2) target_to_rules_defined by (simp add: overrides_ok_def override_ok_def)
  have same: "same_ids ?rs1 rs"
    by (auto simp: same_ids_def list_all2_conv_all_nth overridden_ptr split: prod.split)
  have two: "overridden ?tm ?rs1 (by_ids (overrides b)) (overridden ?tm rs (by_tags (overrides b)) r) =
      overridden ?tm rs (all_overrides b) r" for r
    using target_to_rules_same [OF same] fold_override_rule
    by (simp add: overridden_def all_overrides_def meant_def)
  show ?thesis
    unfolding regenerate_rules_def b1 Let_def
    using apply_overrides_overridden [OF def_tags [of rs]] apply_overrides_overridden [OF def_ids [of ?rs1]]
    by (simp add: two [unfolded case_prod_unfold] comp_def case_prod_unfold)
qed

text \<open>An override covers a rule that one of its targets names or describes.\<close>

definition covers :: "string \<Rightarrow> rule_spec \<Rightarrow> override_spec \<Rightarrow> bool" where
  "covers i spec ovrd \<longleftrightarrow> (\<exists>t \<in> set (ovrd_targets ovrd). case target_kind_of t of
     Target_Id \<Rightarrow> target_rule_id t = i
   | Target_Tags \<Rightarrow> set (target_tags t) \<subseteq> set (spec_tags spec)
   | Target_None \<Rightarrow> False)"

text \<open>A rule as it is to come out of its specification and the overrides.\<close>

definition as_overridden :: "override_spec list \<Rightarrow> string \<times> rule_spec \<Rightarrow> string \<times> rule \<Rightarrow> bool" where
  "as_overridden ovrds x y \<longleftrightarrow> stands_for x y \<and>
     enabled (snd y) = setting ovrd_enabled (filter (covers (fst x) (snd x)) ovrds) (spec_enabled (snd x)) \<and>
     actions (snd y) = setting ovrd_actions (filter (covers (fst x) (snd x)) ovrds) (spec_actions (snd x))"

lemma numbered_ids [simp]: "map fst (numbered p specs) = map fst specs"
  by (induction specs arbitrary: p) simp_all

lemma overridden_as:
  assumes ids: "distinct (map fst (base_rules b))" and ok: "overrides_ok (overrides b)"
    and x: "(x, y) \<in> set (zip (base_rules b) rs)" and rs: "rs = numbered (next_ptr b) (base_rules b)"
  shows "as_overridden (all_overrides b) x (fst y, overridden (tag_map_of rs) rs (all_overrides b) (snd y))"
proof -
  have y: "stands_for x y" "y \<in> set rs" "enabled (snd y) = spec_enabled (snd x)" "actions (snd y) = spec_actions (snd x)"
  proof -
    have "stands_for x y \<and> enabled (snd y) = spec_enabled (snd x) \<and> actions (snd y) = spec_actions (snd x)"
      if "(x, y) \<in> set (zip specs (numbered p specs))" for p specs
      using that by (induction specs arbitrary: p) (auto simp: stands_for_def rule_of_spec_def)
    then show "stands_for x y" "y \<in> set rs" "enabled (snd y) = spec_enabled (snd x)" "actions (snd y) = spec_actions (snd x)"
      using x set_zip_rightD [OF x] by (simp_all add: rs)
  qed
  have dist: "distinct (map (\<lambda>(i, r). rule_ptr r) rs)" "distinct (map fst rs)"
    using numbered_distinct ids by (simp_all add: rs)
  have "rule_ptr (snd y) \<in> meant (tag_map_of rs) rs ovrd \<longleftrightarrow> covers (fst x) (snd x) ovrd" if mem: "ovrd \<in> set (all_overrides b)" for ovrd
  proof -
    obtain k where k: "override_ok k ovrd"
      using ok mem by (auto simp: all_overrides_def overrides_ok_def)
    have "targeted t y \<longleftrightarrow> (case target_kind_of t of
        Target_Id \<Rightarrow> target_rule_id t = fst x | Target_Tags \<Rightarrow> set (target_tags t) \<subseteq> set (spec_tags (snd x)) | Target_None \<Rightarrow> False)" for t
      using y(1) by (auto simp: targeted_def stands_for_def split: target_kind.split)
    with meant_iff [OF dist y(2) k] show ?thesis
      by (simp add: covers_def)
  qed
  then have "filter (\<lambda>ovrd. rule_ptr (snd y) \<in> meant (tag_map_of rs) rs ovrd) (all_overrides b) =
      filter (covers (fst x) (snd x)) (all_overrides b)"
    by (intro filter_cong) simp_all
  with y fold_override_rule show ?thesis
    by (simp add: as_overridden_def overridden_def stands_for_def)
qed

text \<open>C7: When the rules are generated, every one of them comes out as its specification says, but
  for the switch and the actions: these are those of the last override that covers the rule and
  says something about them, an override by identifiers counting after every override by tags.
  An override covers the rules that it names and those that have all the tags of one of its targets.\<close>

theorem overrides_precedence:
  assumes "distinct (map fst (base_rules b))" "overrides_ok (overrides b)"
  shows "\<exists>b'. regenerate_rules b = Some b' \<and> list_all2 (as_overridden (all_overrides b)) (base_rules b) (final_rules b')"
proof -
  let ?rs = "numbered (next_ptr b) (base_rules b)"
  have "length ?rs = length (base_rules b)"
    using numbered_stand [of "base_rules b" "next_ptr b"] by (simp add: list_all2_lengthD)
  then have "list_all2 (as_overridden (all_overrides b)) (base_rules b)
      (map (\<lambda>(i, r). (i, overridden (tag_map_of ?rs) ?rs (all_overrides b) r)) ?rs)"
    using overridden_as [OF assms _ refl] by (auto simp: list_all2_iff zip_map2 case_prod_unfold)
  then show ?thesis
    using regenerate_rules_form [OF assms] by (intro exI conjI) (assumption, simp)
qed

definition sample_spec :: "string \<Rightarrow> rule_spec" where
  "sample_spec type = \<lparr>spec_enabled = True, spec_name = ''a rule'', spec_tags = [(''type'', type)], spec_conditions = [], spec_actions = []\<rparr>"

definition sample_builder :: ruleset_builder where
  "sample_builder = (new_builder wide_limits True \<lparr>key_regex = None, value_regex = None\<rparr>)\<lparr>
     base_rules := [(''r1'', sample_spec ''attack''), (''r2'', sample_spec ''attack'')],
     overrides := \<lparr>by_ids = [\<lparr>ovrd_enabled = Some True, ovrd_actions = None,
         ovrd_targets = [\<lparr>target_kind_of = Target_Id, target_rule_id = ''r2'', target_tags = []\<rparr>]\<rparr>],
       by_tags = [\<lparr>ovrd_enabled = Some False, ovrd_actions = Some [''block''],
         ovrd_targets = [\<lparr>target_kind_of = Target_Tags, target_rule_id = [], target_tags = [(''type'', ''attack'')]\<rparr>]\<rparr>]\<rparr>\<rparr>"

theorem overrides_precedence_witness:
  "\<exists>b'. regenerate_rules sample_builder = Some b' \<and>
     list_all2 (as_overridden (all_overrides sample_builder)) (base_rules sample_builder) (final_rules b')"
  by (rule overrides_precedence)
    (simp_all add: sample_builder_def overrides_ok_def override_ok_def rules_target_ok_def)

end
