(* ===== verification/Updates.thy ===== *)
theory Updates
  imports Builder
begin

text \<open>
  The updates of a builder as a state machine: what holds of the builder between updates, and of
  the rule sets that come out.
\<close>

unbundle bit_operations_syntax

section \<open>Loads\<close>

text \<open>What is loaded is well formed for the manifest of the builder.\<close>

definition loaded_ok :: "ruleset_builder \<Rightarrow> bool" where
  "loaded_ok b \<longleftrightarrow> distinct (map fst (targets (target_manifest b))) \<and> specs_ok (rb_limits b) (target_manifest b) (base_rules b) \<and>
     filters_ok (rb_limits b) (target_manifest b) (exclusions b) \<and> overrides_ok (overrides b)"

text \<open>What holds of the builder in any case, also after an update that threw half way.\<close>

definition sane :: "ruleset_builder \<Rightarrow> bool" where
  "sane b \<longleftrightarrow> distinct (map fst (base_rules b)) \<and> overrides_ok (overrides b)"

text \<open>A load changes none of what was generated.\<close>

definition load_step :: "ruleset_builder \<Rightarrow> ruleset_builder \<Rightarrow> bool" where
  "load_step b b' \<longleftrightarrow> rb_limits b' = rb_limits b \<and> manifest_grows (target_manifest b) (target_manifest b') \<and> next_ptr b \<le> next_ptr b' \<and>
     final_rules b' = final_rules b \<and> rules_by_tags b' = rules_by_tags b \<and> targets_from_rules b' = targets_from_rules b \<and>
     rb_rule_filters b' = rb_rule_filters b \<and> rb_input_filters b' = rb_input_filters b \<and>
     targets_from_filters b' = targets_from_filters b \<and> (loaded_ok b \<longrightarrow> loaded_ok b') \<and> (sane b \<longrightarrow> sane b')"

lemma load_step_refl: "load_step b b"
  by (simp add: load_step_def manifest_grows_refl)

lemma load_step_trans: "load_step b b' \<Longrightarrow> load_step b' b'' \<Longrightarrow> load_step b b''"
  by (auto simp: load_step_def intro: manifest_grows_trans)

lemma loaded_ok_grows:
  assumes "loaded_ok b" "manifest_grows (target_manifest b) m"
  shows "loaded_ok (b\<lparr>target_manifest := m, next_ptr := n\<rparr>)"
  using assms by (auto simp: loaded_ok_def manifest_grows_def intro: specs_ok_grows [OF assms(2)] filters_ok_grows [OF assms(2)])

lemma load_step_grows:
  "manifest_grows (target_manifest b) m \<Longrightarrow> next_ptr b \<le> n \<Longrightarrow> load_step b (b\<lparr>target_manifest := m, next_ptr := n\<rparr>)"
  by (simp add: load_step_def loaded_ok_grows sane_def)

lemma load_version_same: "load_version root_map (b, info) = Some (r, b', info') \<Longrightarrow> b' = b"
  by (auto simp: load_version_def split: sum.splits option.splits)

lemma load_rules_step:
  assumes run: "load_rules alloc env root_map (b, info) = Some (r, b', info')"
  shows "load_step b b' \<and> exclusions b' = exclusions b \<and> overrides b' = overrides b \<and>
    (case r of Inl _ \<Rightarrow> base_rules b' = base_rules b | Inr c \<Rightarrow> c = change_rules \<or> c = change_none \<and> base_rules b' = base_rules b)"
proof (cases "map_of root_map ''rules''")
  case None
  with run show ?thesis
    by (auto simp: load_rules_def load_step_refl split: if_splits)
next
  case (Some ob)
  show ?thesis
  proof (cases "to_vector ob")
    case (Inl e)
    with run Some show ?thesis
      by (auto simp: load_rules_def load_step_refl)
  next
    case (Inr array)
    let ?s = "\<lparr>ps_manifest = target_manifest b, ps_data_ids = [], ps_next = next_ptr b\<rparr>"
    obtain res s info1 where parsed: "parse_rules alloc env (rb_limits b) array ?s info = Some (res, s, info1)"
      using run by (auto simp: load_rules_def Some Inr bind_eq_Some_conv)
    have grows: "parse_grows ?s s"
      using parsed unfolding parse_rules_def by (rule parse_rules_loop_grows)
    then have m: "manifest_grows (target_manifest b) (ps_manifest s)" "next_ptr b \<le> ps_next s"
      by (simp_all add: parse_grows_def)
    have fresh: "loaded_ok (b\<lparr>target_manifest := ps_manifest s, next_ptr := ps_next s, base_rules := specs, rb_data_ids := ids\<rparr>)"
      if "loaded_ok b" "res = Inr specs" for specs ids
      using loaded_ok_grows [OF that(1) m(1)] parse_rules_loop_ok [OF parsed [unfolded parse_rules_def that(2)]]
      by (simp add: loaded_ok_def specs_ok_def)
    have ids: "distinct (map fst specs)" if "res = Inr specs" for specs
      using parse_rules_loop_ok [OF parsed [unfolded parse_rules_def that]] by (simp add: specs_ok_def)
    show ?thesis
      using run load_step_grows [OF m] fresh ids
      by (auto simp: sane_def load_rules_def Some Inr parsed Let_def load_step_def split: sum.splits if_splits)
  qed
qed

lemma load_data_step:
  assumes "load_data env root_map (b, info) = Some (r, b', info')"
  shows "load_step b b' \<and> base_rules b' = base_rules b \<and> exclusions b' = exclusions b \<and> overrides b' = overrides b \<and>
    (\<forall>c. r = Inr c \<longrightarrow> c \<in> {change_none, change_data})"
proof -
  have "(b' = b \<or> (\<exists>ps. b' = b\<lparr>dynamic_processors := ps\<rparr>)) \<and> (\<forall>c. r = Inr c \<longrightarrow> c \<in> {change_none, change_data})"
  proof (cases "map_of root_map ''rules_data''")
    case (Some ob)
    show ?thesis
    proof (cases "to_vector ob")
      case (Inr array)
      show ?thesis
      proof (cases "array = []")
        case False
        then obtain res where "parse_rule_data env (rb_data_ids b) array [] = Some res"
          using assms by (auto simp: load_data_def Some Inr bind_eq_Some_conv)
        then show ?thesis
          using assms False by (cases res) (auto simp: load_data_def Some Inr)
      qed (use assms in \<open>auto simp: load_data_def Some Inr\<close>)
    qed (use assms in \<open>auto simp: load_data_def Some\<close>)
  qed (use assms in \<open>auto simp: load_data_def\<close>)
  then show ?thesis
    by (auto simp: load_step_def loaded_ok_def sane_def manifest_grows_refl)
qed

lemma load_overrides_step:
  assumes "load_overrides root_map (b, info) = Some (r, b', info')"
  shows "load_step b b' \<and> base_rules b' = base_rules b \<and> exclusions b' = exclusions b \<and>
    (\<forall>c. r = Inr c \<longrightarrow> c = change_overrides \<or> c = change_none \<and> overrides b' = overrides b)"
  using assms by (auto simp: load_overrides_def load_step_def loaded_ok_def sane_def manifest_grows_refl
    overrides_clear_def overrides_ok_def dest: parse_overrides_ok [unfolded overrides_ok_def] split: option.splits sum.splits if_splits)

lemma load_filters_step:
  assumes run: "load_filters env root_map (b, info) = Some (r, b', info')"
  shows "load_step b b' \<and> base_rules b' = base_rules b \<and> overrides b' = overrides b \<and>
    (case r of Inl _ \<Rightarrow> exclusions b' = exclusions b | Inr c \<Rightarrow> c = change_filters \<or> c = change_none \<and> exclusions b' = exclusions b)"
proof (cases "map_of root_map ''exclusions''")
  case None
  with run show ?thesis
    by (auto simp: load_filters_def load_step_refl)
next
  case (Some ob)
  show ?thesis
  proof (cases "to_vector ob")
    case (Inl e)
    with run Some show ?thesis
      by (auto simp: load_filters_def load_step_refl)
  next
    case (Inr array)
    let ?s = "\<lparr>ps_manifest = target_manifest b, ps_data_ids = [], ps_next = next_ptr b\<rparr>"
    show ?thesis
    proof (cases "array = []")
      case True
      with run show ?thesis
        by (auto simp: load_filters_def Some Inr load_step_def loaded_ok_def sane_def filters_ok_def filters_clear_def manifest_grows_refl)
    next
      case False
      then obtain res s where parsed: "parse_filters env (rb_limits b) array ?s = Some (res, s)"
        using run by (auto simp: load_filters_def Some Inr bind_eq_Some_conv)
      have m: "manifest_grows (target_manifest b) (ps_manifest s)" "next_ptr b \<le> ps_next s"
        and ok: "\<And>c. res = Inr c \<Longrightarrow> filters_ok (rb_limits b) (ps_manifest s) c"
        using parse_filters_ok [OF parsed] by (simp_all add: parse_grows_def)
      have fresh: "loaded_ok (b\<lparr>target_manifest := ps_manifest s, next_ptr := ps_next s, exclusions := c\<rparr>)"
        if "loaded_ok b" "res = Inr c" for c
        using loaded_ok_grows [OF that(1) m(1)] ok [OF that(2)] by (simp add: loaded_ok_def)
      show ?thesis
        using run False load_step_grows [OF m] fresh
        by (auto simp: sane_def load_filters_def Some Inr parsed Let_def load_step_def split: sum.splits if_splits)
    qed
  qed
qed

lemma bind_act_cases:
  assumes "bind_act m f s = Some (r, s')"
  obtains (throws) e where "m s = Some (Inl e, s')" "r = Inl e"
  | (goes_on) x s1 where "m s = Some (Inr x, s1)" "f x s1 = Some (r, s')"
  using assms by (auto simp: bind_act_def split: option.splits sum.splits)

text \<open>The flags that a load gives say what may have changed.\<close>

lemma flags:
  assumes "c1 \<in> {change_none, change_rules}" "c2 \<in> {change_none, change_data}"
    "c3 \<in> {change_none, change_overrides}" "c4 \<in> {change_none, change_filters}"
  shows "(c1 OR c2 OR c3 OR c4) AND 3 = 0 \<longleftrightarrow> c1 = 0 \<and> c3 = 0" "(c1 OR c2 OR c3 OR c4) AND 7 = 0 \<longleftrightarrow> c1 = 0 \<and> c3 = 0 \<and> c4 = 0"
    "(c1 OR c2 OR c3 OR c4) AND 5 = 0 \<longleftrightarrow> c1 = 0 \<and> c4 = 0" "(c1 OR c2 OR c3 OR c4) AND 1 = 0 \<longleftrightarrow> c1 = 0"
  using assms by auto

text \<open>A load that ends.\<close>

definition changed_as :: "change_state \<Rightarrow> ruleset_builder \<Rightarrow> ruleset_builder \<Rightarrow> bool" where
  "changed_as state b b' \<longleftrightarrow> (state AND 1 = 0 \<longrightarrow> base_rules b' = base_rules b) \<and>
     (state AND 3 = 0 \<longrightarrow> base_rules b' = base_rules b \<and> overrides b' = overrides b) \<and>
     (state AND 7 = 0 \<longrightarrow> base_rules b' = base_rules b \<and> exclusions b' = exclusions b) \<and>
     (state AND 5 = 0 \<longrightarrow> base_rules b' = base_rules b \<and> exclusions b' = exclusions b)"

lemma load_cases:
  assumes run: "load alloc env root_map (b, info) = Some (r, b', info')"
  shows "load_step b b' \<and> (case r of Inl _ \<Rightarrow> exclusions b' = exclusions b | Inr state \<Rightarrow> changed_as state b b')"
  using run unfolding load_def
proof (cases rule: bind_act_cases)
  case (throws e)
  with load_version_same [OF throws(1)] show ?thesis
    by (simp add: load_step_refl)
next
  case (goes_on u s1)
  obtain info1 where s1: "s1 = (b, info1)"
    using load_version_same goes_on(1) by (cases s1) blast
  from goes_on(2) [unfolded s1] show ?thesis
  proof (cases rule: bind_act_cases)
    case (throws e)
    with load_rules_step show ?thesis
      by (fastforce split: sum.splits)
  next
    case (goes_on c1 s2)
    obtain b2 info2 where s2: "s2 = (b2, info2)"
      by (rule prod.exhaust)
    note r1 = load_rules_step [OF goes_on(1) [unfolded s2]]
    from goes_on(2) [unfolded s2] show ?thesis
    proof (cases rule: bind_act_cases)
      case (throws e)
      with load_data_step [OF throws(1)] r1 show ?thesis
        by (auto intro: load_step_trans)
    next
      case (goes_on c2 s3)
      obtain b3 info3 where s3: "s3 = (b3, info3)"
        by (rule prod.exhaust)
      note r2 = load_data_step [OF goes_on(1) [unfolded s3]]
      from goes_on(2) [unfolded s3] show ?thesis
      proof (cases rule: bind_act_cases)
        case (throws e)
        with load_overrides_step [OF throws(1)] r1 r2 show ?thesis
          by (auto intro: load_step_trans)
      next
        case (goes_on c3 s4)
        obtain b4 info4 where s4: "s4 = (b4, info4)"
          by (rule prod.exhaust)
        note r3 = load_overrides_step [OF goes_on(1) [unfolded s4]]
        have steps: "load_step b b4"
          using r1 r2 r3 by (blast intro: load_step_trans)
        from goes_on(2) [unfolded s4] show ?thesis
        proof (cases rule: bind_act_cases)
          case (throws e)
          with load_filters_step [OF throws(1)] r1 r2 r3 steps show ?thesis
            by (auto intro: load_step_trans)
        next
          case (goes_on c4 s5)
          then have s5: "s5 = (b', info')" "r = Inr (c1 OR c2 OR c3 OR c4)"
            by (auto simp: lift_def)
          note r4 = load_filters_step [OF goes_on(1) [unfolded s5]]
          have "changed_as (c1 OR c2 OR c3 OR c4) b b'"
            using r1 r2 r3 r4 flags [of c1 c2 c3 c4] unfolding changed_as_def by auto
          with r4 steps show ?thesis
            by (auto simp: s5(2) intro: load_step_trans)
        qed
      qed
    qed
  qed
qed

section \<open>Generation\<close>

text \<open>The generated rules are those of the specifications; the filters, those of the exclusions.\<close>

definition rules_derived :: "ruleset_builder \<Rightarrow> bool" where
  "rules_derived b \<longleftrightarrow> list_all2 stands_for (base_rules b) (final_rules b) \<and> targets_from_rules b = all_targets (base_rules b) \<and>
     distinct (map (\<lambda>(i, r). rule_ptr r) (final_rules b))"

definition filter_roots :: "filter_spec_container \<Rightarrow> u32 set" where
  "filter_roots c = (\<Union>(i, f) \<in> set (spec_rule_filters c). spec_targets (rfs_conditions f)) \<union>
     (\<Union>(i, f) \<in> set (spec_input_filters c). filter_targets (ifs_filter f) \<union> spec_targets (ifs_conditions f))"

definition filters_derived :: "ruleset_builder \<Rightarrow> bool" where
  "filters_derived b \<longleftrightarrow>
     (\<forall>(i, f) \<in> set (rb_rule_filters b). \<exists>flt. (i, flt) \<in> set (spec_rule_filters (exclusions b)) \<and>
        rf_id f = i \<and> rf_conditions f = rfs_conditions flt) \<and>
     (\<forall>(i, f) \<in> set (rb_input_filters b). \<exists>flt. (i, flt) \<in> set (spec_input_filters (exclusions b)) \<and>
        if_id f = i \<and> if_conditions f = ifs_conditions flt \<and> if_filter f = ifs_filter flt) \<and>
     targets_from_filters b = filter_roots (exclusions b)"

lemma regenerate_rules_derived:
  assumes "loaded_ok b"
  shows "\<exists>rs tm n. regenerate_rules b = Some (b\<lparr>final_rules := rs, rules_by_tags := tm, targets_from_rules := all_targets (base_rules b), next_ptr := n\<rparr>) \<and>
    list_all2 stands_for (base_rules b) rs \<and> distinct (map (\<lambda>(i, r). rule_ptr r) rs)"
proof -
  have ok: "distinct (map fst (base_rules b))" "overrides_ok (overrides b)"
    using assms by (simp_all add: loaded_ok_def specs_ok_def)
  let ?rs = "numbered (next_ptr b) (base_rules b)"
  let ?rs' = "map (\<lambda>(i, r). (i, overridden (tag_map_of ?rs) ?rs (all_overrides b) r)) ?rs"
  have "stands_for x (fst y, overridden tm rs ovrds (snd y))" if "stands_for x y" for x y tm rs ovrds
    using that fold_override_rule by (simp add: stands_for_def overridden_def)
  then have "list_all2 stands_for (base_rules b) ?rs'"
    using numbered_stand [of "base_rules b" "next_ptr b"]
    by (auto simp: list_all2_conv_all_nth case_prod_unfold)
  moreover have "map (\<lambda>(i, r). rule_ptr r) ?rs' = map (\<lambda>(i, r). rule_ptr r) ?rs"
    by (simp add: overridden_ptr case_prod_unfold)
  then have "distinct (map (\<lambda>(i, r). rule_ptr r) ?rs')"
    using numbered_distinct by metis
  ultimately show ?thesis
    using regenerate_rules_form [OF ok] by blast
qed

lemma make_rule_filters_form:
  "\<forall>(i, flt) \<in> set xs. \<forall>t \<in> set (rfs_targets flt). rules_target_ok t \<Longrightarrow>
   \<exists>fs. make_rule_filters xs b = Some (b\<lparr>rb_rule_filters := fs,
       targets_from_filters := targets_from_filters b \<union> (\<Union>(i, flt) \<in> set xs. spec_targets (rfs_conditions flt))\<rparr>) \<and>
     (\<forall>(i, f) \<in> set fs. (i, f) \<in> set (rb_rule_filters b) \<or>
        (\<exists>flt. (i, flt) \<in> set xs \<and> rf_id f = i \<and> rf_conditions f = rfs_conditions flt))"
proof (induction xs arbitrary: b)
  case Nil
  show ?case
    by (intro exI [of _ "rb_rule_filters b"]) auto
next
  case (Cons x xs)
  obtain i flt where x: "x = (i, flt)"
    by (rule prod.exhaust)
  have "target_to_rules (rfs_targets flt) (final_rules b) (rules_by_tags b) \<noteq> None"
    using Cons.prems by (intro target_to_rules_defined) (simp add: x)
  then obtain ps where ps: "target_to_rules (rfs_targets flt) (final_rules b) (rules_by_tags b) = Some ps"
    by blast
  let ?f = "\<lparr>rf_id = i, rf_conditions = rfs_conditions flt, rf_rule_targets = ps\<rparr>"
  let ?b = "b\<lparr>rb_rule_filters := emplace i ?f (rb_rule_filters b),
      targets_from_filters := targets_from_filters b \<union> spec_targets (rfs_conditions flt)\<rparr>"
  have "\<forall>(i, flt) \<in> set xs. \<forall>t \<in> set (rfs_targets flt). rules_target_ok t"
    using Cons.prems by simp
  from Cons.IH [OF this, of ?b] obtain fs where fs:
    "make_rule_filters xs ?b = Some (?b\<lparr>rb_rule_filters := fs,
       targets_from_filters := targets_from_filters ?b \<union> (\<Union>(i, flt) \<in> set xs. spec_targets (rfs_conditions flt))\<rparr>)"
    "\<forall>(i, f) \<in> set fs. (i, f) \<in> set (rb_rule_filters ?b) \<or>
        (\<exists>flt. (i, flt) \<in> set xs \<and> rf_id f = i \<and> rf_conditions f = rfs_conditions flt)"
    by (elim exE conjE) (rule that)
  show ?case
  proof (intro exI [of _ fs] conjI)
    show "make_rule_filters (x # xs) b = Some (b\<lparr>rb_rule_filters := fs,
        targets_from_filters := targets_from_filters b \<union> (\<Union>(i, flt) \<in> set (x # xs). spec_targets (rfs_conditions flt))\<rparr>)"
      using fs(1) by (simp add: x ps Un_assoc)
    show "\<forall>(i, f) \<in> set fs. (i, f) \<in> set (rb_rule_filters b) \<or>
        (\<exists>flt. (i, flt) \<in> set (x # xs) \<and> rf_id f = i \<and> rf_conditions f = rfs_conditions flt)"
      using fs(2) by (fastforce simp: x emplace_def split: if_splits)
  qed
qed

lemma make_input_filters_form:
  "\<forall>(i, flt) \<in> set xs. \<forall>t \<in> set (ifs_targets flt). rules_target_ok t \<Longrightarrow>
   \<exists>fs. make_input_filters xs b = Some (b\<lparr>rb_input_filters := fs,
       targets_from_filters := targets_from_filters b \<union>
         (\<Union>(i, flt) \<in> set xs. filter_targets (ifs_filter flt) \<union> spec_targets (ifs_conditions flt))\<rparr>) \<and>
     (\<forall>(i, f) \<in> set fs. (i, f) \<in> set (rb_input_filters b) \<or>
        (\<exists>flt. (i, flt) \<in> set xs \<and> if_id f = i \<and> if_conditions f = ifs_conditions flt \<and> if_filter f = ifs_filter flt))"
proof (induction xs arbitrary: b)
  case Nil
  show ?case
    by (intro exI [of _ "rb_input_filters b"]) auto
next
  case (Cons x xs)
  obtain i flt where x: "x = (i, flt)"
    by (rule prod.exhaust)
  have "target_to_rules (ifs_targets flt) (final_rules b) (rules_by_tags b) \<noteq> None"
    using Cons.prems by (intro target_to_rules_defined) (simp add: x)
  then obtain ps where ps: "target_to_rules (ifs_targets flt) (final_rules b) (rules_by_tags b) = Some ps"
    by blast
  let ?f = "\<lparr>if_id = i, if_conditions = ifs_conditions flt, if_rule_targets = ps, if_filter = ifs_filter flt\<rparr>"
  let ?b = "b\<lparr>rb_input_filters := emplace i ?f (rb_input_filters b),
      targets_from_filters := targets_from_filters b \<union> filter_targets (ifs_filter flt) \<union> spec_targets (ifs_conditions flt)\<rparr>"
  have "\<forall>(i, flt) \<in> set xs. \<forall>t \<in> set (ifs_targets flt). rules_target_ok t"
    using Cons.prems by simp
  from Cons.IH [OF this, of ?b] obtain fs where fs:
    "make_input_filters xs ?b = Some (?b\<lparr>rb_input_filters := fs, targets_from_filters := targets_from_filters ?b \<union>
         (\<Union>(i, flt) \<in> set xs. filter_targets (ifs_filter flt) \<union> spec_targets (ifs_conditions flt))\<rparr>)"
    "\<forall>(i, f) \<in> set fs. (i, f) \<in> set (rb_input_filters ?b) \<or>
        (\<exists>flt. (i, flt) \<in> set xs \<and> if_id f = i \<and> if_conditions f = ifs_conditions flt \<and> if_filter f = ifs_filter flt)"
    by (elim exE conjE) (rule that)
  show ?case
  proof (intro exI [of _ fs] conjI)
    show "make_input_filters (x # xs) b = Some (b\<lparr>rb_input_filters := fs, targets_from_filters := targets_from_filters b \<union>
         (\<Union>(i, flt) \<in> set (x # xs). filter_targets (ifs_filter flt) \<union> spec_targets (ifs_conditions flt))\<rparr>)"
      using fs(1) by (simp add: x ps Un_assoc)
    show "\<forall>(i, f) \<in> set fs. (i, f) \<in> set (rb_input_filters b) \<or>
        (\<exists>flt. (i, flt) \<in> set (x # xs) \<and> if_id f = i \<and> if_conditions f = ifs_conditions flt \<and> if_filter f = ifs_filter flt)"
      using fs(2) by (fastforce simp: x emplace_def split: if_splits)
  qed
qed

lemma regenerate_filters_derived:
  assumes "loaded_ok b"
  shows "\<exists>rfs ifs. regenerate_filters b =
      Some (b\<lparr>rb_rule_filters := rfs, rb_input_filters := ifs, targets_from_filters := filter_roots (exclusions b)\<rparr>) \<and>
    filters_derived (b\<lparr>rb_rule_filters := rfs, rb_input_filters := ifs, targets_from_filters := filter_roots (exclusions b)\<rparr>)"
proof -
  let ?b = "b\<lparr>rb_rule_filters := [], rb_input_filters := [], targets_from_filters := {}\<rparr>"
  have ok: "\<forall>(i, flt) \<in> set (spec_rule_filters (exclusions b)). \<forall>t \<in> set (rfs_targets flt). rules_target_ok t"
    "\<forall>(i, flt) \<in> set (spec_input_filters (exclusions b)). \<forall>t \<in> set (ifs_targets flt). rules_target_ok t"
    using assms by (auto simp: loaded_ok_def filters_ok_def rule_filter_ok_def input_filter_ok_def)
  obtain rfs where rfs: "make_rule_filters (spec_rule_filters (exclusions b)) ?b = Some (?b\<lparr>rb_rule_filters := rfs,
       targets_from_filters := targets_from_filters ?b \<union> (\<Union>(i, flt) \<in> set (spec_rule_filters (exclusions b)). spec_targets (rfs_conditions flt))\<rparr>)"
     "\<forall>(i, f) \<in> set rfs. (i, f) \<in> set (rb_rule_filters ?b) \<or>
        (\<exists>flt. (i, flt) \<in> set (spec_rule_filters (exclusions b)) \<and> rf_id f = i \<and> rf_conditions f = rfs_conditions flt)"
    using make_rule_filters_form [OF ok(1), of ?b] by (elim exE conjE) (rule that)
  let ?b1 = "?b\<lparr>rb_rule_filters := rfs,
       targets_from_filters := targets_from_filters ?b \<union> (\<Union>(i, flt) \<in> set (spec_rule_filters (exclusions b)). spec_targets (rfs_conditions flt))\<rparr>"
  obtain ifs where ifs: "make_input_filters (spec_input_filters (exclusions b)) ?b1 = Some (?b1\<lparr>rb_input_filters := ifs,
       targets_from_filters := targets_from_filters ?b1 \<union>
         (\<Union>(i, flt) \<in> set (spec_input_filters (exclusions b)). filter_targets (ifs_filter flt) \<union> spec_targets (ifs_conditions flt))\<rparr>)"
     "\<forall>(i, f) \<in> set ifs. (i, f) \<in> set (rb_input_filters ?b1) \<or>
        (\<exists>flt. (i, flt) \<in> set (spec_input_filters (exclusions b)) \<and> if_id f = i \<and> if_conditions f = ifs_conditions flt \<and> if_filter f = ifs_filter flt)"
    using make_input_filters_form [OF ok(2), of ?b1] by (elim exE conjE) (rule that)
  show ?thesis
    by (rule exI [of _ rfs], rule exI [of _ ifs])
      (use rfs ifs in \<open>simp add: regenerate_filters_def filters_derived_def filter_roots_def\<close>)
qed

section \<open>The builder between updates\<close>

definition builder_ok :: "ruleset_builder \<Rightarrow> bool" where
  "builder_ok b \<longleftrightarrow> loaded_ok b \<and> rules_derived b \<and> filters_derived b"

lemma remove_unused_keeps:
  "distinct (map fst (targets m)) \<Longrightarrow> manifest_find m a = Some t \<Longrightarrow> t \<in> valid \<Longrightarrow> manifest_find (remove_unused m valid) a = Some t"
  unfolding manifest_find_def remove_unused_def by (auto intro!: map_of_is_SomeI distinct_map_filter dest: map_of_SomeD)

lemma cond_ok_remove:
  assumes "distinct (map fst (targets m))" "cond_ok lim m c" "root ` set (cond_targets c) \<subseteq> valid"
  shows "cond_ok lim (remove_unused m valid) c"
  using assms by (auto simp: cond_ok_def target_ok_def intro!: remove_unused_keeps)

lemma spec_targets_cond: "c \<in> set cs \<Longrightarrow> root ` set (cond_targets c) \<subseteq> spec_targets cs"
  by (auto simp: spec_targets_def)

lemma conds_remove:
  assumes "distinct (map fst (targets m))" "\<forall>c \<in> set cs. cond_ok lim m c" "spec_targets cs \<subseteq> valid"
  shows "\<forall>c \<in> set cs. cond_ok lim (remove_unused m valid) c"
proof
  fix c
  assume c: "c \<in> set cs"
  show "cond_ok lim (remove_unused m valid) c"
    by (rule cond_ok_remove [OF assms(1) bspec [OF assms(2) c] order.trans [OF spec_targets_cond [OF c] assms(3)]])
qed

lemma known_remove: "distinct (map fst (targets m)) \<Longrightarrow> known m t \<Longrightarrow> t \<in> valid \<Longrightarrow> known (remove_unused m valid) t"
  by (auto simp: known_def intro: remove_unused_keeps)

lemma targets_remove: "snd ` set (targets (remove_unused m valid)) = valid \<inter> snd ` set (targets m)"
  by (force simp: remove_unused_def)

lemma loaded_ok_clean:
  assumes "loaded_ok b" "all_targets (base_rules b) \<subseteq> targets_from_rules b" "filter_roots (exclusions b) \<subseteq> targets_from_filters b"
  shows "loaded_ok (clean_manifest b)"
proof -
  let ?m = "target_manifest b" and ?valid = "targets_from_rules b \<union> targets_from_filters b"
  have dist: "distinct (map fst (targets ?m))"
    using assms(1) by (simp add: loaded_ok_def)
  have "spec_ok (rb_limits b) (remove_unused ?m ?valid) spec" if "(i, spec) \<in> set (base_rules b)" for i spec
  proof -
    have "spec_targets (spec_conditions spec) \<subseteq> ?valid"
      using assms(2) that by (auto simp: all_targets_def)
    with conds_remove [OF dist] that assms(1) show ?thesis
      by (auto simp: spec_ok_def loaded_ok_def specs_ok_def)
  qed
  moreover have "rule_filter_ok (rb_limits b) (remove_unused ?m ?valid) f" if "(i, f) \<in> set (spec_rule_filters (exclusions b))" for i f
  proof -
    have "spec_targets (rfs_conditions f) \<subseteq> ?valid"
      using assms(3) that by (auto simp: filter_roots_def)
    with conds_remove [OF dist] that assms(1) show ?thesis
      by (auto simp: rule_filter_ok_def loaded_ok_def filters_ok_def)
  qed
  moreover have "input_filter_ok (rb_limits b) (remove_unused ?m ?valid) f" if "(i, f) \<in> set (spec_input_filters (exclusions b))" for i f
  proof -
    have valid: "spec_targets (ifs_conditions f) \<subseteq> ?valid" "filter_targets (ifs_filter f) \<subseteq> ?valid"
      using assms(3) that by (auto simp: filter_roots_def)
    have ok: "input_filter_ok (rb_limits b) ?m f"
      using assms(1) that by (auto simp: loaded_ok_def filters_ok_def)
    have "known (remove_unused ?m ?valid) t" if "t \<in> filter_targets (ifs_filter f)" for t
      using ok valid(2) that by (intro known_remove [OF dist]) (auto simp: input_filter_ok_def)
    with conds_remove [OF dist _ valid(1)] ok show ?thesis
      by (auto simp: input_filter_ok_def)
  qed
  moreover have "distinct (map fst (targets (remove_unused ?m ?valid)))"
    using dist by (simp add: remove_unused_def distinct_map_filter)
  ultimately show ?thesis
    using assms(1) by (auto simp: loaded_ok_def clean_manifest_def specs_ok_def filters_ok_def)
qed

text \<open>Every identifier that the rules and the filters use is in the manifest.\<close>

lemma used_known:
  assumes "loaded_ok b"
  shows "all_targets (base_rules b) \<union> filter_roots (exclusions b) \<subseteq> snd ` set (targets (target_manifest b))"
proof -
  have one: "t \<in> snd ` set (targets m)" if "known m t" for m t
    using that by (force simp: known_def manifest_find_def dest: map_of_SomeD)
  have conds: "spec_targets cs \<subseteq> snd ` set (targets m)" if cs: "\<forall>c \<in> set cs. cond_ok lim m c" for cs lim m
  proof
    fix t
    assume "t \<in> spec_targets cs"
    then obtain c u where "c \<in> set cs" "u \<in> set (cond_targets c)" "t = root u"
      by (auto simp: spec_targets_def)
    with cs have "known m t"
      by (auto simp: cond_ok_def target_ok_def known_def)
    then show "t \<in> snd ` set (targets m)"
      by (rule one)
  qed
  let ?ids = "snd ` set (targets (target_manifest b))"
  have "spec_targets (spec_conditions spec) \<subseteq> ?ids" if "(i, spec) \<in> set (base_rules b)" for i spec
    using assms that by (intro conds [of _ "rb_limits b"]) (auto simp: loaded_ok_def specs_ok_def spec_ok_def)
  moreover have "spec_targets (rfs_conditions f) \<subseteq> ?ids" if "(i, f) \<in> set (spec_rule_filters (exclusions b))" for i f
    using assms that by (intro conds [of _ "rb_limits b"]) (auto simp: loaded_ok_def filters_ok_def rule_filter_ok_def)
  moreover have "spec_targets (ifs_conditions f) \<subseteq> ?ids \<and> filter_targets (ifs_filter f) \<subseteq> ?ids"
    if "(i, f) \<in> set (spec_input_filters (exclusions b))" for i f
  proof -
    have "input_filter_ok (rb_limits b) (target_manifest b) f"
      using assms that by (auto simp: loaded_ok_def filters_ok_def)
    then show ?thesis
      using conds [of "ifs_conditions f" "rb_limits b"] one by (auto simp: input_filter_ok_def)
  qed
  ultimately show ?thesis
    by (fastforce simp: all_targets_def filter_roots_def)
qed

definition manifest_exact :: "ruleset_builder \<Rightarrow> bool" where
  "manifest_exact b \<longleftrightarrow> snd ` set (targets (target_manifest b)) = all_targets (base_rules b) \<union> filter_roots (exclusions b)"

lemma rebuild_ok:
  assumes "loaded_ok b" "state AND 3 = 0 \<Longrightarrow> rules_derived b" "state AND 7 = 0 \<Longrightarrow> filters_derived b"
  shows "\<exists>b'. rebuild state b = Some b' \<and> builder_ok b' \<and> rb_limits b' = rb_limits b \<and> base_rules b' = base_rules b \<and>
    (state AND 5 \<noteq> 0 \<longrightarrow> manifest_exact b')"
proof -
  obtain b1 where b1: "(if state AND 3 \<noteq> 0 then regenerate_rules b else Some b) = Some b1"
    "loaded_ok b1" "rules_derived b1" "rb_limits b1 = rb_limits b" "base_rules b1 = base_rules b"
    "state AND 7 = 0 \<Longrightarrow> filters_derived b1"
  proof (cases "state AND 3 = 0")
    case True
    with assms that [of b] show ?thesis
      by simp
  next
    case False
    obtain rs tm n where r: "regenerate_rules b = Some (b\<lparr>final_rules := rs, rules_by_tags := tm,
        targets_from_rules := all_targets (base_rules b), next_ptr := n\<rparr>)"
      "list_all2 stands_for (base_rules b) rs" "distinct (map (\<lambda>(i, r). rule_ptr r) rs)"
      using regenerate_rules_derived [OF assms(1)] by (elim exE conjE) (rule that)
    show ?thesis
    proof (rule that)
      show "(if state AND 3 \<noteq> 0 then regenerate_rules b else Some b) = Some (b\<lparr>final_rules := rs, rules_by_tags := tm,
        targets_from_rules := all_targets (base_rules b), next_ptr := n\<rparr>)"
        using False r(1) by simp
    qed (use assms r(2,3) in \<open>simp_all add: loaded_ok_def rules_derived_def filters_derived_def\<close>)
  qed
  obtain b2 where b2: "(if state AND 7 \<noteq> 0 then regenerate_filters b1 else Some b1) = Some b2" "builder_ok b2"
    "rb_limits b2 = rb_limits b" "base_rules b2 = base_rules b"
  proof (cases "state AND 7 = 0")
    case True
    with b1 that [of b1] show ?thesis
      by (simp add: builder_ok_def)
  next
    case False
    obtain rfs ifs where f: "regenerate_filters b1 =
        Some (b1\<lparr>rb_rule_filters := rfs, rb_input_filters := ifs, targets_from_filters := filter_roots (exclusions b1)\<rparr>)"
      "filters_derived (b1\<lparr>rb_rule_filters := rfs, rb_input_filters := ifs, targets_from_filters := filter_roots (exclusions b1)\<rparr>)"
      using regenerate_filters_derived [OF b1(2)] by (elim exE conjE) (rule that)
    show ?thesis
      by (rule that [of "b1\<lparr>rb_rule_filters := rfs, rb_input_filters := ifs, targets_from_filters := filter_roots (exclusions b1)\<rparr>"])
        (use False b1 f in \<open>simp_all add: builder_ok_def loaded_ok_def rules_derived_def\<close>)
  qed
  have derived: "targets_from_rules b2 = all_targets (base_rules b2)" "targets_from_filters b2 = filter_roots (exclusions b2)"
    using b2(2) by (simp_all add: builder_ok_def rules_derived_def filters_derived_def)
  have clean: "builder_ok (clean_manifest b2)"
    using loaded_ok_clean [of b2] b2(2) derived
    by (simp add: builder_ok_def rules_derived_def filters_derived_def) (simp add: clean_manifest_def)
  have "loaded_ok b2"
    using b2(2) by (simp add: builder_ok_def)
  from used_known [OF this] have exact: "manifest_exact (clean_manifest b2)"
    unfolding manifest_exact_def clean_manifest_def derived by (simp add: targets_remove) blast
  have "rebuild state b = Some (if state AND 5 \<noteq> 0 then clean_manifest b2 else b2)"
    using b1(1) b2(1) by (simp add: rebuild_def)
  with b2 clean exact show ?thesis
    by (auto simp: clean_manifest_def)
qed

section \<open>Rule sets\<close>

text \<open>
  A rule set is fit for its manifest: every rule is filed under its own identifier, the rules are
  told apart by identifier and pointer, and what the conditions and filters look for is what the
  manifest files the addresses under.
\<close>

definition ruleset_fits :: "object_limits \<Rightarrow> ruleset \<Rightarrow> bool" where
  "ruleset_fits lim rs \<longleftrightarrow> distinct (map fst (rules rs)) \<and> distinct (map (\<lambda>(i, r). rule_ptr r) (rules rs)) \<and>
     (\<forall>(i, r) \<in> set (rules rs). rule_id r = i \<and> get_tag r ''type'' = the (map_of (tags r) ''type'') \<and> distinct (map cond_ptr (conditions r)) \<and>
        (\<forall>c \<in> set (conditions r). cond_ok lim (rs_manifest rs) c)) \<and>
     (\<forall>(i, f) \<in> set (rule_filters rs). rf_id f = i \<and> (\<forall>c \<in> set (rf_conditions f). cond_ok lim (rs_manifest rs) c)) \<and>
     (\<forall>(i, f) \<in> set (input_filters rs). if_id f = i \<and> (\<forall>c \<in> set (if_conditions f). cond_ok lim (rs_manifest rs) c) \<and>
        (\<forall>t \<in> filter_targets (if_filter f). known (rs_manifest rs) t))"

lemma insert_rules_keeps:
  "rules (insert_rules new_rules rs) = new_rules" "rs_manifest (insert_rules new_rules rs) = rs_manifest rs"
proof -
  have "rules (fold (\<lambda>(i, r). file_rule r) xs rs) = rules rs \<and> rs_manifest (fold (\<lambda>(i, r). file_rule r) xs rs) = rs_manifest rs"
    for xs :: "(string \<times> rule) list" and rs
    by (induction xs arbitrary: rs) (auto simp: file_rule_def)
  then show "rules (insert_rules new_rules rs) = new_rules" "rs_manifest (insert_rules new_rules rs) = rs_manifest rs"
    by (simp_all add: insert_rules_def)
qed

lemma stands_for_spec: "list_all2 stands_for specs rs \<Longrightarrow> y \<in> set rs \<Longrightarrow> \<exists>x \<in> set specs. stands_for x y"
  by (induction rule: list_all2_induct) auto

lemma builder_ok_fits:
  assumes "builder_ok b"
  shows "ruleset_fits (rb_limits b) (ruleset_of b)"
proof -
  have b: "loaded_ok b" "list_all2 stands_for (base_rules b) (final_rules b)" "filters_derived b"
    "distinct (map (\<lambda>(i, r). rule_ptr r) (final_rules b))"
    using assms by (simp_all add: builder_ok_def rules_derived_def)
  have "map fst (final_rules b) = map fst (base_rules b)"
    using b(2) by (induction rule: list_all2_induct) (auto simp: stands_for_def)
  then have ids: "distinct (map fst (final_rules b))"
    using b(1) by (simp add: loaded_ok_def specs_ok_def)
  have rules_ok: "rule_id r = i \<and> get_tag r ''type'' = the (map_of (tags r) ''type'') \<and> distinct (map cond_ptr (conditions r)) \<and>
      (\<forall>c \<in> set (conditions r). cond_ok (rb_limits b) (target_manifest b) c)" if mem: "(i, r) \<in> set (final_rules b)" for i r
  proof -
    obtain x where x: "x \<in> set (base_rules b)" "stands_for x (i, r)"
      using stands_for_spec [OF b(2) mem] by blast
    then have "spec_ok (rb_limits b) (target_manifest b) (snd x)"
      using b(1) by (force simp: loaded_ok_def specs_ok_def)
    with x(2) show ?thesis
      by (auto simp: stands_for_def spec_ok_def get_tag_def)
  qed
  have rf: "rf_id f = i \<and> (\<forall>c \<in> set (rf_conditions f). cond_ok (rb_limits b) (target_manifest b) c)"
    if "(i, f) \<in> set (rb_rule_filters b)" for i f
    using that b(1,3) by (fastforce simp: filters_derived_def loaded_ok_def filters_ok_def rule_filter_ok_def)
  have inf: "if_id f = i \<and> (\<forall>c \<in> set (if_conditions f). cond_ok (rb_limits b) (target_manifest b) c) \<and>
      (\<forall>t \<in> filter_targets (if_filter f). known (target_manifest b) t)"
    if "(i, f) \<in> set (rb_input_filters b)" for i f
    using that b(1,3) by (fastforce simp: filters_derived_def loaded_ok_def filters_ok_def input_filter_ok_def)
  show ?thesis
    using ids b(4) rules_ok rf inf by (auto simp: ruleset_fits_def ruleset_of_def insert_rules_keeps)
qed

section \<open>The life of a builder\<close>

text \<open>
  An update: any object, with diagnostics of its own. One that throws may follow only when it has
  not replaced the rules; what happens otherwise is shown at the end.
\<close>

inductive update :: "(nat \<Rightarrow> bool) \<Rightarrow> libs \<Rightarrow> ruleset_builder \<Rightarrow> ruleset_builder \<Rightarrow> bool" for alloc env where
  ends: "build_object alloc env ob (b, info) = Some (Inr rs, b', info') \<Longrightarrow> update alloc env b b'"
| throws: "build_object alloc env ob (b, info) = Some (Inl e, b', info') \<Longrightarrow> base_rules b' = base_rules b \<Longrightarrow> update alloc env b b'"

inductive reachable :: "(nat \<Rightarrow> bool) \<Rightarrow> libs \<Rightarrow> object_limits \<Rightarrow> bool \<Rightarrow> obfuscator \<Rightarrow> ruleset_builder \<Rightarrow> bool"
  for alloc env lim free_fn ob where
  start: "reachable alloc env lim free_fn ob (new_builder lim free_fn ob)"
| later: "reachable alloc env lim free_fn ob b \<Longrightarrow> update alloc env b b' \<Longrightarrow> reachable alloc env lim free_fn ob b'"

inductive_cases update_cases: "update alloc env b b'"

lemma new_builder_ok: "builder_ok (new_builder lim free_fn ob)"
  by (simp add: builder_ok_def loaded_ok_def new_builder_def specs_ok_def filters_ok_def overrides_ok_def no_overrides_def no_filters_def
      rules_derived_def filters_derived_def all_targets_def filter_roots_def empty_manifest_def)

text \<open>What has not changed is still derived.\<close>

lemma still_derived:
  assumes "load_step b b1" "builder_ok b"
  shows "loaded_ok b1" "base_rules b1 = base_rules b \<Longrightarrow> rules_derived b1" "exclusions b1 = exclusions b \<Longrightarrow> filters_derived b1"
  using assms by (simp_all add: load_step_def builder_ok_def rules_derived_def filters_derived_def)

lemma build_object_cases:
  assumes "build_object alloc env ob (b, info) = Some (r, b', info')"
  obtains (no_map) e where "to_map ob = Inl e" "r = Inl e" "b' = b"
  | (failed) root_map e where "to_map ob = Inr root_map" "load alloc env root_map (b, info) = Some (Inl e, b', info')" "r = Inl e"
  | (same) root_map where "to_map ob = Inr root_map" "load alloc env root_map (b, info) = Some (Inr 0, b', info')" "r = Inr None"
  | (built) root_map state b1 where "to_map ob = Inr root_map" "load alloc env root_map (b, info) = Some (Inr state, b1, info')"
      "rebuild state b1 = Some b'" "r = Inr (Some (ruleset_of b'))" "state \<noteq> 0"
proof (cases "to_map ob")
  case (Inl e)
  with assms no_map show ?thesis
    by (auto simp: build_object_def bind_act_def lift_def)
next
  case (Inr root_map)
  then have run: "build alloc env root_map (b, info) = Some (r, b', info')"
    using assms by (simp add: build_object_def bind_act_def lift_def)
  then obtain res b1 info1 where l: "load alloc env root_map (b, info) = Some (res, b1, info1)"
    by (auto simp: build_def bind_eq_Some_conv)
  show ?thesis
  proof (cases res)
    case Inl: (Inl e)
    with run l failed [OF Inr, of e] show ?thesis
      by (simp add: build_def)
  next
    case state: (Inr state)
    show ?thesis
    proof (cases "state = 0")
      case True
      with run l state same [OF Inr] show ?thesis
        by (simp add: build_def)
    next
      case False
      with run l state built [OF Inr] show ?thesis
        by (auto simp: build_def bind_eq_Some_conv)
    qed
  qed
qed

text \<open>One update: the builder stays in order, and a rule set that comes out fits.\<close>

lemma built_ok:
  assumes ok: "builder_ok b" and run: "build_object alloc env ob (b, info) = Some (r, b', info')"
  shows "(\<forall>rs. r = Inr rs \<longrightarrow> builder_ok b') \<and> (base_rules b' = base_rules b \<longrightarrow> builder_ok b') \<and> rb_limits b' = rb_limits b \<and>
    (\<forall>rs. r = Inr (Some rs) \<longrightarrow> rs = ruleset_of b')"
  using run
proof (cases rule: build_object_cases)
  case (no_map e)
  with ok show ?thesis
    by simp
next
  case (failed root_map e)
  from load_cases [OF failed(2)] have step: "load_step b b'" "exclusions b' = exclusions b"
    by simp_all
  with still_derived [OF step(1) ok] failed(3) show ?thesis
    by (auto simp: builder_ok_def load_step_def)
next
  case (same root_map)
  from load_cases [OF same(2)] have step: "load_step b b'" "changed_as 0 b b'"
    by simp_all
  with still_derived [OF step(1) ok] same(3) show ?thesis
    by (auto simp: builder_ok_def load_step_def changed_as_def)
next
  case (built root_map state b1)
  from load_cases [OF built(2)] have step: "load_step b b1" "changed_as state b b1"
    by simp_all
  have "state AND 3 = 0 \<Longrightarrow> rules_derived b1" "state AND 7 = 0 \<Longrightarrow> filters_derived b1"
    using step(2) still_derived [OF step(1) ok] by (simp_all add: changed_as_def)
  from rebuild_ok [of b1 state, OF still_derived(1) [OF step(1) ok] this] built(3) have "builder_ok b'" "rb_limits b' = rb_limits b1"
    by auto
  with built(4) step(1) show ?thesis
    by (simp add: load_step_def)
qed

lemma reachable_ok: "reachable alloc env lim free_fn ob b \<Longrightarrow> builder_ok b \<and> rb_limits b = lim"
proof (induction rule: reachable.induct)
  case start
  show ?case
    by (simp add: new_builder_ok) (simp add: new_builder_def)
next
  case (later b b')
  from later.hyps(2) show ?case
    by (cases rule: update_cases) (use later.IH built_ok in \<open>blast+\<close>)
qed

text \<open>C6: Whatever updates a builder has been through, as long as none of them threw after replacing
  the rules, every rule set that comes out fits its own manifest: the rules are told apart, each has
  its own identifier and a type, and every condition and filter looks for an identifier that the
  manifest gives the address the condition names, so that a context finds what a rule is about.\<close>

theorem updates_keep_addresses:
  assumes "reachable alloc env lim free_fn ob b" "build_object alloc env input (b, info) = Some (Inr (Some rs), b', info')"
  shows "ruleset_fits lim rs"
proof -
  have ok: "builder_ok b" "rb_limits b = lim"
    using reachable_ok [OF assms(1)] by simp_all
  from built_ok [OF ok(1) assms(2)] have "builder_ok b'" "rb_limits b' = lim" "rs = ruleset_of b'"
    using ok(2) by auto
  with builder_ok_fits show ?thesis
    by blast
qed

text \<open>Small rule sets, evaluated.\<close>

definition xss_rule :: "string \<Rightarrow> string \<Rightarrow> ddwaf_object" where
  "xss_rule i address = o_map [(''id'', o_str i), (''name'', o_str ''a rule''), (''tags'', o_map [(''type'', o_str ''attack'')]),
     (''conditions'', o_array [o_map [(''operator'', o_str ''is_xss''), (''parameters'', o_map [
        (''inputs'', o_array [o_map [(''address'', o_str address)]])])]])]"

definition empty_builder :: ruleset_builder where
  "empty_builder = new_builder wide_limits True \<lparr>key_regex = None, value_regex = None\<rparr>"

lemmas builder_code =
  xss_rule_def empty_builder_def new_builder_def build_object_def build_def load_def load_version_def load_rules_def load_data_def
  load_overrides_def load_filters_def overrides_clear_def overrides_empty_def filters_clear_def filters_empty_def
  rebuild_def regenerate_rules_def regenerate_filters_def clean_manifest_def remove_unused_def ruleset_of_def insert_rules_keeps
  rule_of_spec_def target_to_rules_def spec_targets_def

definition built_from :: "ddwaf_object \<Rightarrow> ruleset_builder \<Rightarrow> (exn + ruleset option) \<times> ruleset_builder" where
  "built_from input b = (case build_object (\<lambda>_. True) no_libs input (b, new_ruleset_info None) of
     Some (r, b', _) \<Rightarrow> (r, b'))"

lemma first_build:
  "\<exists>rs b' info'. build_object (\<lambda>_. True) no_libs (o_map [(''rules'', o_array [xss_rule ''r1'' ''a''])]) (empty_builder, new_ruleset_info None) =
     Some (Inr (Some rs), b', info') \<and> map fst (rules rs) = [''r1''] \<and> targets (rs_manifest rs) = [(''a'', 1)]"
  by (simp add: parse_code builder_code)

theorem updates_keep_addresses_witness:
  "\<exists>rs b' info'. build_object (\<lambda>_. True) no_libs (o_map [(''rules'', o_array [xss_rule ''r1'' ''a''])]) (empty_builder, new_ruleset_info None) =
     Some (Inr (Some rs), b', info') \<and> map fst (rules rs) = [''r1''] \<and> ruleset_fits wide_limits rs"
proof -
  have start: "reachable (\<lambda>_. True) no_libs wide_limits True \<lparr>key_regex = None, value_regex = None\<rparr> empty_builder"
    unfolding empty_builder_def by (rule reachable.start)
  obtain rs b' info' where run: "build_object (\<lambda>_. True) no_libs (o_map [(''rules'', o_array [xss_rule ''r1'' ''a''])])
      (empty_builder, new_ruleset_info None) = Some (Inr (Some rs), b', info')" "map fst (rules rs) = [''r1'']"
    using first_build by (elim exE conjE) (rule that)
  from updates_keep_addresses [OF start run(1)] run show ?thesis
    by (intro exI conjI)
qed

text \<open>
  Half a load: the second update brings new rules, but its rule data are no array. It throws after
  the rules have been replaced (\<open>ruleset_builder.cpp:210\<close>), and the caller keeps the old rule set.
  The third one, on exclusions alone, cleans the manifest by the targets of the old rules; the fourth,
  on overrides alone, generates the new rules, whose address is no longer in the manifest.
\<close>

lemma half_a_load:
  "let b1 = snd (built_from (o_map [(''rules'', o_array [xss_rule ''r1'' ''a''])]) empty_builder);
       (r2, b2) = built_from (o_map [(''rules'', o_array [xss_rule ''r2'' ''b'']), (''rules_data'', o_str ''x'')]) b1;
       b3 = snd (built_from (o_map [(''exclusions'', o_array [])]) b2);
       (r4, b4) = built_from (o_map [(''rules_override'', o_array [])]) b3
   in r2 = Inl (Bad_Cast ''array'' ''string'') \<and>
      (case r4 of Inr (Some rs) \<Rightarrow> map fst (rules rs) = [''r2''] \<and> manifest_find (rs_manifest rs) ''b'' = None \<and> \<not> ruleset_fits wide_limits rs
       | _ \<Rightarrow> False)"
  by (simp add: built_from_def parse_code builder_code ruleset_fits_def cond_ok_def target_ok_def)

text \<open>
  New rule data alone do not make the rules anew: the comment before \<open>ruleset_builder.cpp:78\<close> names
  \<open>rules_data\<close> among the keys that do.
\<close>

lemma data_keeps_rules: "rebuild change_data b = Some b"
  by (simp add: rebuild_def)

text \<open>
  The addresses of an exclusion are resolved when it is parsed (\<open>parser_v2.cpp:346\<close>): one that only a
  later update brings is not excluded, though the exclusion stays in force. In one update, it is.
\<close>

definition exclude_b :: "string \<times> ddwaf_object" where
  "exclude_b = (''exclusions'', o_array [o_map [(''id'', o_str ''e''), (''inputs'', o_array [o_map [(''address'', o_str ''b'')]])]])"

lemma late_address:
  "let b1 = snd (built_from (o_map [(''rules'', o_array [xss_rule ''r1'' ''a'']), exclude_b]) empty_builder);
       b2 = snd (built_from (o_map [(''rules'', o_array [xss_rule ''r2'' ''b''])]) b1);
       b3 = snd (built_from (o_map [(''rules'', o_array [xss_rule ''r2'' ''b'']), exclude_b]) empty_builder)
   in map (\<lambda>(i, f). filter_targets (ifs_filter f)) (spec_input_filters (exclusions b2)) = [{}] \<and>
      map (\<lambda>(i, f). filter_targets (ifs_filter f)) (spec_input_filters (exclusions b3)) = [{1}]"
  by (simp add: built_from_def exclude_b_def parse_code builder_code new_object_filter_def filter_insert_def)

section \<open>An update is defined\<close>

lemma load_parts_defined:
  assumes "inet_ok (lib_inet env)" "info_ptr info = None"
  shows "\<exists>r b' info'. load_version root_map (b, info) = Some (r, b', info') \<and> info_ptr info' = None"
    and "\<exists>r b' info'. load_rules alloc env root_map (b, info) = Some (r, b', info') \<and> info_ptr info' = None"
    and "\<exists>r b'. load_data env root_map (b, info) = Some (r, b', info)"
    and "\<exists>r b'. load_overrides root_map (b, info) = Some (r, b', info)"
    and "\<exists>r b'. load_filters env root_map (b, info) = Some (r, b', info)"
proof -
  show "\<exists>r b' info'. load_version root_map (b, info) = Some (r, b', info') \<and> info_ptr info' = None"
    using assms(2) by (auto simp: load_version_def set_version_def on_info_def split: sum.split option.split)
  show "\<exists>r b'. load_overrides root_map (b, info) = Some (r, b', info)"
    by (auto simp: load_overrides_def split: sum.split option.split)
  show "\<exists>r b'. load_data env root_map (b, info) = Some (r, b', info)"
  proof (cases "map_of root_map ''rules_data''")
    case (Some ob)
    show ?thesis
    proof (cases "to_vector ob")
      case (Inr array)
      obtain r where "parse_rule_data env (rb_data_ids b) array [] = Some r"
        using parse_rule_data_defined [OF assms(1)] by blast
      then show ?thesis
        by (cases r) (simp_all add: load_data_def Some Inr)
    qed (simp add: load_data_def Some)
  qed (simp add: load_data_def)
  show "\<exists>r b'. load_filters env root_map (b, info) = Some (r, b', info)"
  proof (cases "map_of root_map ''exclusions''")
    case (Some ob)
    show ?thesis
    proof (cases "to_vector ob")
      case (Inr array)
      obtain r s where "parse_filters env (rb_limits b) array
          \<lparr>ps_manifest = target_manifest b, ps_data_ids = [], ps_next = next_ptr b\<rparr> = Some (r, s)"
        unfolding parse_filters_def using parse_filters_loop_defined [OF assms(1)] by blast
      then show ?thesis
        by (cases r) (simp_all add: load_filters_def Some Inr Let_def)
    qed (simp add: load_filters_def Some)
  qed (simp add: load_filters_def)
  show "\<exists>r b' info'. load_rules alloc env root_map (b, info) = Some (r, b', info') \<and> info_ptr info' = None"
  proof (cases "map_of root_map ''rules''")
    case (Some ob)
    show ?thesis
    proof (cases "to_vector ob")
      case (Inr array)
      obtain r s info' where "parse_rules alloc env (rb_limits b) array
          \<lparr>ps_manifest = target_manifest b, ps_data_ids = [], ps_next = next_ptr b\<rparr> info = Some (r, s, info')" "info_ptr info' = None"
        unfolding parse_rules_def using parse_rules_loop_defined [OF assms] by blast
      then show ?thesis
        by (cases r) (simp_all add: load_rules_def Some Inr Let_def)
    qed (use assms(2) in \<open>simp add: load_rules_def Some\<close>)
  qed (use assms(2) in \<open>simp add: load_rules_def\<close>)
qed

lemma load_defined:
  assumes "inet_ok (lib_inet env)" "info_ptr info = None"
  shows "\<exists>r b' info'. load alloc env root_map (b, info) = Some (r, b', info')"
proof -
  obtain r0 b0 info0 where l0: "load_version root_map (b, info) = Some (r0, b0, info0)" "info_ptr info0 = None"
    using load_parts_defined(1) [OF assms] by blast
  obtain r1 b1 info1 where l1: "load_rules alloc env root_map (b0, info0) = Some (r1, b1, info1)" "info_ptr info1 = None"
    using load_parts_defined(2) [OF assms(1) l0(2)] by blast
  obtain r2 b2 where l2: "load_data env root_map (b1, info1) = Some (r2, b2, info1)"
    using load_parts_defined(3) [OF assms(1) l1(2)] by blast
  obtain r3 b3 where l3: "load_overrides root_map (b2, info1) = Some (r3, b3, info1)"
    using load_parts_defined(4) [OF assms(1) l1(2)] by blast
  obtain r4 b4 where l4: "load_filters env root_map (b3, info1) = Some (r4, b4, info1)"
    using load_parts_defined(5) [OF assms(1) l1(2)] by blast
  show ?thesis
    by (cases r0; cases r1; cases r2; cases r3; cases r4)
      (simp_all add: load_def bind_act_def lift_def l0 l1 l2 l3 l4)
qed

lemma build_object_defined:
  assumes "inet_ok (lib_inet env)" "builder_ok b"
  shows "\<exists>r b' info'. build_object alloc env input (b, new_ruleset_info None) = Some (r, b', info')"
proof (cases "to_map input")
  case (Inl e)
  then show ?thesis
    by (simp add: build_object_def bind_act_def lift_def)
next
  case (Inr root_map)
  have no_info: "info_ptr (new_ruleset_info None) = None"
    by (simp add: new_ruleset_info_def)
  obtain r b1 info1 where l: "load alloc env root_map (b, new_ruleset_info None) = Some (r, b1, info1)"
    using load_defined [OF assms(1) no_info] by blast
  have "\<exists>b2. rebuild state b1 = Some b2" if "r = Inr state" for state
  proof -
    have step: "load_step b b1" "changed_as state b b1"
      using load_cases [OF l] that by simp_all
    have "state AND 3 = 0 \<Longrightarrow> rules_derived b1" "state AND 7 = 0 \<Longrightarrow> filters_derived b1"
      using step(2) still_derived [OF step(1) assms(2)] by (simp_all add: changed_as_def)
    from rebuild_ok [of b1 state, OF still_derived(1) [OF step(1) assms(2)] this] show ?thesis
      by blast
  qed
  then show ?thesis
    by (cases r) (auto simp: build_object_def build_def bind_act_def lift_def Inr l)
qed



text \<open>The first load of a builder always changes the rules, so that its build gives a rule set or throws.\<close>

lemma first_load:
  assumes "base_rules b = []" "load alloc env root_map (b, info) = Some (Inr state, b', info')"
  shows "state \<noteq> 0"
proof -
  obtain b1 info1 where v: "load_version root_map (b, info) = Some (Inr (), b1, info1)"
    and rest1: "bind_act (load_rules alloc env root_map) (\<lambda>c1. bind_act (load_data env root_map) (\<lambda>c2.
      bind_act (load_overrides root_map) (\<lambda>c3. bind_act (load_filters env root_map) (\<lambda>c4.
      lift (Inr (c1 OR c2 OR c3 OR c4)))))) (b1, info1) = Some (Inr state, b', info')"
    using assms(2) unfolding load_def by (rule bind_act_cases) (auto split: prod.splits)
  from rest1 obtain c1 s2 where r: "load_rules alloc env root_map (b1, info1) = Some (Inr c1, s2)"
    and rest2: "bind_act (load_data env root_map) (\<lambda>c2.
      bind_act (load_overrides root_map) (\<lambda>c3. bind_act (load_filters env root_map) (\<lambda>c4.
      lift (Inr (c1 OR c2 OR c3 OR c4))))) s2 = Some (Inr state, b', info')"
    by (rule bind_act_cases) auto
  have "base_rules b1 = []"
    using load_version_same [OF v] assms(1) by simp
  with r have c1: "c1 = change_rules"
    unfolding load_rules_def
    by (auto simp: bind_eq_Some_conv Let_def split: option.splits sum.splits if_splits) (metis obj_sumE)
  from rest2 obtain c2 s3 where rest3: "bind_act (load_overrides root_map) (\<lambda>c3. bind_act (load_filters env root_map) (\<lambda>c4.
      lift (Inr (c1 OR c2 OR c3 OR c4)))) s3 = Some (Inr state, b', info')"
    by (rule bind_act_cases) auto
  from rest3 obtain c3 s4 where rest4: "bind_act (load_filters env root_map) (\<lambda>c4. lift (Inr (c1 OR c2 OR c3 OR c4))) s4 = Some (Inr state, b', info')"
    by (rule bind_act_cases) auto
  from rest4 obtain c4 where "state = c1 OR c2 OR c3 OR c4"
    by (rule bind_act_cases) (auto simp: lift_def)
  then have "bit state 0"
    by (simp add: c1 bit_simps)
  then show ?thesis
    by auto
qed

end
