(* ===== verification/Parser_V1.thy ===== *)
theory Parser_V1
  imports Parser_V2 Ruleset
begin

text \<open>The parser of rule sets of version 1 (\<open>src/parser/parser_v1.cpp\<close>).\<close>

section \<open>The code\<close>

definition parse_processor_v1 :: "libs \<Rightarrow> string \<Rightarrow> pmap \<Rightarrow> processor throws" where
  "parse_processor_v1 env operation params =
     (if operation = ''phrase_match'' then parse_phrase_match env params
      else if operation = ''match_regex'' then parse_regex_match env params
      else if operation = ''is_xss'' then Inr Is_Xss
      else if operation = ''is_sqli'' then Inr Is_Sqli
      else Inl (Parsing_Exn (''unknown processor: '' @ operation)))"

text \<open>An address and, after the first colon, a key; a colon at the very end is part of the address.\<close>

definition split_input :: "string \<Rightarrow> string \<times> string" where
  "split_input input =
     (let pos = length (takeWhile (\<lambda>c. c \<noteq> CHR '':'') input) in
      if pos = length input \<or> pos + 1 \<ge> length input then (input, [])
      else (take pos input, drop (pos + 1) input))"

definition parse_input_v1 :: "ddwaf_object \<Rightarrow> (parse_state, target_type) action" where
  "parse_input_v1 input_param =
     bind_act (lift (to_string input_param)) (\<lambda>input.
     if input = [] then lift (Inl (Parsing_Exn ''empty address''))
     else let (address, kp) = split_input input in insert_target address (if kp = [] then [] else [kp]))"

definition parseCondition ::
    "libs \<Rightarrow> pmap \<Rightarrow> transform_id list \<Rightarrow> object_limits \<Rightarrow> (parse_state, condition) action" where
  "parseCondition env cond xfs lim =
     bind_act (lift (at to_string_view cond ''operation'')) (\<lambda>operation.
     bind_act (lift (at to_map cond ''parameters'')) (\<lambda>params.
     bind_act (lift (parse_processor_v1 env operation params)) (\<lambda>p.
     bind_act (lift (at to_vector params ''inputs'')) (\<lambda>inputs.
     bind_act (for_each parse_input_v1 inputs) (\<lambda>ts.
     new_condition ts xfs (Some p) [] lim Values)))))"

primrec transformers_v1 :: "ddwaf_object list \<Rightarrow> transform_id list throws" where
  "transformers_v1 [] = Inr []"
| "transformers_v1 (transformer_param # rest) =
     bind_exn (to_string_view transformer_param) (\<lambda>transformer.
     let transform_id = getIDForString transformer in
     if transform_id = PWT_INVALID then Inl (Parsing_Exn (''invalid transformer'' @ transformer))
     else bind_exn (transformers_v1 rest) (\<lambda>xfs. Inr (transform_id # xfs)))"

text \<open>The \<open>try\<close> block of a rule, up to the rule that it makes.\<close>

definition new_rule ::
    "string \<Rightarrow> string \<Rightarrow> (string \<times> string) list \<Rightarrow> condition list \<Rightarrow> (parse_state, rule) action" where
  "new_rule i name rule_tags conds = (\<lambda>s.
     Some (Inr \<lparr>rule_ptr = ps_next s, enabled = True, rule_id = i, rule_name = name, tags = rule_tags,
                conditions = conds, actions = []\<rparr>, s\<lparr>ps_next := ps_next s + 1\<rparr>))"

definition parse_rule_v1 :: "libs \<Rightarrow> pmap \<Rightarrow> string \<Rightarrow> object_limits \<Rightarrow> (parse_state, rule) action" where
  "parse_rule_v1 env rule_map i lim =
     bind_act (lift (at_default to_vector rule_map ''transformers'' [])) (\<lambda>transformers_array.
     bind_act (lift (transformers_v1 transformers_array)) (\<lambda>xfs.
     bind_act (lift (at to_vector rule_map ''conditions'')) (\<lambda>conditions_array.
     bind_act (for_each (\<lambda>cond_param. bind_act (lift (to_map cond_param)) (\<lambda>cond.
         parseCondition env cond xfs lim)) conditions_array) (\<lambda>conds.
     bind_act (lift (parse_tags rule_map)) (\<lambda>rule_tags.
     bind_act (lift (at to_string rule_map ''name'')) (\<lambda>name.
     new_rule i name rule_tags conds))))))"

text \<open>
  A rule, with the rule set it goes into, the pointer of the next object and the diagnostics. Its
  manifest keeps the addresses of the rules that fail. An exception before the \<open>try\<close> block is
  caught by the caller.
\<close>

definition parseRule ::
    "(nat \<Rightarrow> bool) \<Rightarrow> libs \<Rightarrow> object_limits \<Rightarrow> pmap \<Rightarrow> ruleset \<Rightarrow> nat \<Rightarrow> ruleset_info \<Rightarrow> (ruleset \<times> nat \<times> ruleset_info) throws option" where
  "parseRule alloc env lim rule_map rs n info =
     (case at to_string rule_map ''id'' of
        Inl e \<Rightarrow> Some (Inl e)
      | Inr i \<Rightarrow>
          if map_of (rules rs) i \<noteq> None then
            map_option (\<lambda>info'. Inr (rs, n, info')) (insert_error alloc i ''duplicate rule'' info)
          else
            do { (res, s) \<leftarrow> parse_rule_v1 env rule_map i lim \<lparr>ps_manifest = rs_manifest rs, ps_data_ids = [], ps_next = n\<rparr>;
                 let rs1 = rs\<lparr>rs_manifest := ps_manifest s\<rparr>
                 in (case res of
                       Inr r \<Rightarrow> Some (Inr (insert_rule r rs1, ps_next s, add_loaded info))
                     | Inl e \<Rightarrow> map_option (\<lambda>info'. Inr (rs1, ps_next s, info')) (insert_error alloc i (c_str (what e)) info)) })"

primrec events_loop ::
    "(nat \<Rightarrow> bool) \<Rightarrow> libs \<Rightarrow> object_limits \<Rightarrow> ddwaf_object list \<Rightarrow> ruleset \<Rightarrow> nat \<Rightarrow> ruleset_info
     \<Rightarrow> (ruleset \<times> nat \<times> ruleset_info) option" where
  "events_loop alloc env lim [] rs n info = Some (rs, n, info)"
| "events_loop alloc env lim (rule_param # rest) rs n info =
     do { res \<leftarrow> (case to_map rule_param of
                   Inl e \<Rightarrow> Some (Inl e)
                 | Inr rule_map \<Rightarrow> parseRule alloc env lim rule_map rs n info);
          (case res of
             Inl _ \<Rightarrow> events_loop alloc env lim rest rs n (add_failed info)
           | Inr (rs', n', info') \<Rightarrow> events_loop alloc env lim rest rs' n' info') }"

definition parse_v1 ::
    "(nat \<Rightarrow> bool) \<Rightarrow> libs \<Rightarrow> object_limits \<Rightarrow> pmap \<Rightarrow> ruleset \<Rightarrow> ruleset_info \<Rightarrow> (ruleset throws \<times> ruleset_info) option" where
  "parse_v1 alloc env lim root_map rs info =
     (case at to_vector root_map ''events'' of
        Inl e \<Rightarrow> Some (Inl e, info)
      | Inr rules_array \<Rightarrow>
          do { (rs', _, info') \<leftarrow> events_loop alloc env lim rules_array rs 0 info;
               Some (if rules rs' = [] then Inl (Parsing_Exn ''no valid rules found'') else Inr rs', info') })"

section \<open>The rules of version 1\<close>

text \<open>A target is filed: the manifest gives its address the identifier that it has.\<close>

definition filed :: "manifest \<Rightarrow> target_type \<Rightarrow> bool" where
  "filed m t \<longleftrightarrow> manifest_find m (target_name t) = Some (root t)"

definition all_filed :: "manifest \<Rightarrow> condition list \<Rightarrow> bool" where
  "all_filed m cs \<longleftrightarrow> (\<forall>c \<in> set cs. \<forall>t \<in> set (cond_targets c). filed m t)"

lemma filed_grows: "manifest_grows m m' \<Longrightarrow> filed m t \<Longrightarrow> filed m' t"
  by (simp add: filed_def manifest_grows_def)

lemma all_filed_grows: "manifest_grows m m' \<Longrightarrow> all_filed m cs \<Longrightarrow> all_filed m' cs"
  by (auto simp: all_filed_def intro: filed_grows)

lemma insert_target_filed: "makes parse_grows (\<lambda>_ t s. filed (ps_manifest s) t) (insert_target a kp)"
  unfolding makes_def
proof (intro allI impI)
  fix s r s'
  assume run: "insert_target a kp s = Some (r, s')"
  obtain t m where i: "manifest_insert (ps_manifest s) a = (t, m)"
    by (rule prod.exhaust)
  from run manifest_grows_insert [OF i] show "parse_grows s s' \<and> (\<forall>t. r = Inr t \<longrightarrow> filed (ps_manifest s') t)"
    by (auto simp: insert_target_def i parse_grows_def filed_def)
qed

lemma parse_input_v1_filed: "makes parse_grows (\<lambda>_ t s. filed (ps_manifest s) t) (parse_input_v1 ob)"
  unfolding parse_input_v1_def split_beta Let_def
  by (intro parse.bind_lift_rule) (auto intro: parse.lift_rule insert_target_filed)

lemma parseCondition_filed:
  "makes parse_grows (\<lambda>s c s'. \<forall>t \<in> set (cond_targets c). filed (ps_manifest s') t) (parseCondition env cond xfs lim)"
proof -
  have each: "makes parse_grows (\<lambda>_ ts s. \<forall>t \<in> set ts. filed (ps_manifest s) t) (for_each parse_input_v1 xs)" for xs
    by (rule parse.each_rule [OF parse_input_v1_filed]) (auto simp: parse_grows_def intro: filed_grows)
  show ?thesis
    unfolding parseCondition_def
    by (intro parse.bind_lift_rule, rule parse.bind_rule [OF each])
      (auto simp: makes_def new_condition_def parse_grows_def manifest_grows_refl)
qed

text \<open>What a rule is to be, from its old state to the new one.\<close>

definition v1_rule_ok :: "string \<Rightarrow> manifest \<Rightarrow> rule \<Rightarrow> bool" where
  "v1_rule_ok i m r \<longleftrightarrow> rule_id r = i \<and> enabled r \<and> actions r = [] \<and> map_of (tags r) ''type'' \<noteq> None \<and> all_filed m (conditions r)"

lemma parse_rule_v1_ok:
  "makes parse_grows (\<lambda>s r s'. v1_rule_ok i (ps_manifest s') r \<and> ps_next s \<le> rule_ptr r \<and> rule_ptr r < ps_next s')
     (parse_rule_v1 env rule_map i lim)"
proof -
  have each: "makes parse_grows (\<lambda>_ cs s. \<forall>c \<in> set cs. \<forall>t \<in> set (cond_targets c). filed (ps_manifest s) t)
      (for_each (\<lambda>cond_param. bind_act (lift (to_map cond_param)) (\<lambda>cond. parseCondition env cond xfs lim)) xs)" for xfs xs
    by (rule parse.each_rule, rule parse.bind_lift_rule, rule parseCondition_filed) (auto simp: parse_grows_def intro: filed_grows)
  show ?thesis
    unfolding parse_rule_v1_def
    by (intro parse.bind_lift_rule, rule parse.bind_rule [OF each], intro parse.bind_lift_rule)
      (auto simp: makes_def new_rule_def parse_grows_def manifest_grows_refl v1_rule_ok_def all_filed_def dest: parse_tags_type)
qed

definition v1_ruleset_ok :: "ruleset \<Rightarrow> nat \<Rightarrow> bool" where
  "v1_ruleset_ok rs n \<longleftrightarrow> distinct (map fst (rules rs)) \<and> distinct (map (\<lambda>(i, r). rule_ptr r) (rules rs)) \<and>
     (\<forall>(i, r) \<in> set (rules rs). rule_ptr r < n \<and> v1_rule_ok i (rs_manifest rs) r)"

lemma insert_rule_keeps:
  "rules (insert_rule r rs) = emplace (rule_id r) r (rules rs)" "rs_manifest (insert_rule r rs) = rs_manifest rs"
  by (simp_all add: insert_rule_def file_rule_def)

lemma v1_ruleset_ok_grows:
  assumes "v1_ruleset_ok rs n" "manifest_grows (rs_manifest rs) m" "n \<le> n'"
  shows "v1_ruleset_ok (rs\<lparr>rs_manifest := m\<rparr>) n'"
  using assms by (auto simp: v1_ruleset_ok_def v1_rule_ok_def intro: all_filed_grows)

lemma v1_ruleset_ok_insert:
  assumes "v1_ruleset_ok rs n" "map_of (rules rs) i = None" "v1_rule_ok i (rs_manifest rs) r" "n \<le> rule_ptr r" "rule_ptr r < n'"
  shows "v1_ruleset_ok (insert_rule r rs) n'"
proof -
  have i: "rule_id r = i"
    using assms(3) by (simp add: v1_rule_ok_def)
  then have "rules (insert_rule r rs) = rules rs @ [(i, r)]"
    using assms(2) by (simp add: insert_rule_keeps emplace_def)
  moreover have "i \<notin> fst ` set (rules rs)"
    using assms(2) by (simp add: map_of_eq_None_iff)
  ultimately show ?thesis
    using assms by (fastforce simp: v1_ruleset_ok_def insert_rule_keeps(2))
qed

lemma parseRule_ok:
  assumes "v1_ruleset_ok rs n" "parseRule alloc env lim rule_map rs n info = Some (Inr (rs', n', info'))"
  shows "v1_ruleset_ok rs' n' \<and> manifest_grows (rs_manifest rs) (rs_manifest rs') \<and>
    (\<exists>c. info_step alloc c info = Some info' \<and> reports_entry c \<and> length (rules rs') = length (rules rs) + (if c = Add_Loaded then 1 else 0))"
proof -
  obtain i where i: "at to_string rule_map ''id'' = Inr i"
    using assms(2) by (auto simp: parseRule_def split: sum.splits)
  show ?thesis
  proof (cases "map_of (rules rs) i")
    case (Some r)
    with assms show ?thesis
      by (auto simp: parseRule_def i manifest_grows_refl intro!: exI [of _ "Insert_Error i ''duplicate rule''"])
  next
    case None
    let ?s = "\<lparr>ps_manifest = rs_manifest rs, ps_data_ids = [], ps_next = n\<rparr>"
    obtain res s where run: "parse_rule_v1 env rule_map i lim ?s = Some (res, s)"
      using assms(2) None by (auto simp: parseRule_def i bind_eq_Some_conv)
    from makesD [OF parse_rule_v1_ok run] have grows: "manifest_grows (rs_manifest rs) (ps_manifest s)" "n \<le> ps_next s"
      and rule: "\<And>r. res = Inr r \<Longrightarrow> v1_rule_ok i (ps_manifest s) r \<and> n \<le> rule_ptr r \<and> rule_ptr r < ps_next s"
      by (auto simp: parse_grows_def)
    let ?rs = "rs\<lparr>rs_manifest := ps_manifest s\<rparr>"
    show ?thesis
    proof (cases res)
      case (Inl e)
      then have "rs' = ?rs" "n' = ps_next s" "insert_error alloc i (c_str (what e)) info = Some info'"
        using assms(2) None by (auto simp: parseRule_def i run Let_def)
      then show ?thesis
        using v1_ruleset_ok_grows [OF assms(1) grows] grows
        by (auto intro!: exI [of _ "Insert_Error i (c_str (what e))"])
    next
      case (Inr r)
      then have r: "rs' = insert_rule r ?rs" "n' = ps_next s" "info' = add_loaded info"
        using assms(2) None by (auto simp: parseRule_def i run Let_def)
      have "v1_ruleset_ok ?rs n"
        using v1_ruleset_ok_grows [OF assms(1) grows(1) order.refl] .
      from v1_ruleset_ok_insert [OF this _ _ _ _, of i r "ps_next s"] None rule [OF Inr] have "v1_ruleset_ok rs' n'"
        by (simp add: r)
      moreover have "rule_id r = i"
        using rule [OF Inr] by (simp add: v1_rule_ok_def)
      ultimately show ?thesis
        using grows None by (auto simp: r insert_rule_keeps emplace_def intro!: exI [of _ Add_Loaded])
    qed
  qed
qed

lemma events_loop_ok:
  "v1_ruleset_ok rs n \<Longrightarrow> events_loop alloc env lim xs rs n info = Some (rs', n', info') \<Longrightarrow>
   v1_ruleset_ok rs' n' \<and> (\<exists>k cs. length (rules rs') = length (rules rs) + k \<and> accounts alloc cs info info' (length xs) k)"
proof (induction xs arbitrary: rs n info)
  case Nil
  then show ?case
    by (auto simp: accounts_def intro!: exI [of _ 0] exI [of _ "[]"])
next
  case (Cons x xs)
  have failed: ?case if "events_loop alloc env lim xs rs n (add_failed info) = Some (rs', n', info')"
    using Cons.IH [OF Cons.prems(1) that] accounts_Cons [of alloc Add_Failed info "add_failed info" info' "length xs"] by fastforce
  show ?case
  proof (cases "to_map x")
    case (Inl e)
    with Cons.prems(2) failed show ?thesis
      by simp
  next
    case (Inr rule_map)
    then obtain res where res: "parseRule alloc env lim rule_map rs n info = Some res"
      using Cons.prems(2) by (auto simp: bind_eq_Some_conv)
    show ?thesis
    proof (cases res)
      case Inl: (Inl e)
      with Cons.prems(2) failed show ?thesis
        by (simp add: Inr res)
    next
      case ok: (Inr res1)
      obtain rs1 n1 info1 where res1: "res1 = (rs1, n1, info1)"
        by (rule prod_cases3)
      obtain c where c: "v1_ruleset_ok rs1 n1" "info_step alloc c info = Some info1" "reports_entry c"
        "length (rules rs1) = length (rules rs) + (if c = Add_Loaded then 1 else 0)"
        using parseRule_ok [OF Cons.prems(1) res [unfolded ok res1]] by (elim exE conjE) (rule that)
      have "events_loop alloc env lim xs rs1 n1 info1 = Some (rs', n', info')"
        using Cons.prems(2) by (simp add: Inr res ok res1)
      from Cons.IH [OF c(1) this] obtain k where k: "v1_ruleset_ok rs' n'" "length (rules rs') = length (rules rs1) + k"
        "\<exists>cs. accounts alloc cs info1 info' (length xs) k"
        by blast
      from accounts_Cons [OF c(2,3) k(3)] k(1,2) c(4) show ?thesis
        by (intro conjI exI [of _ "if c = Add_Loaded then Suc k else k"]) auto
    qed
  qed
qed

text \<open>C40: A load of version 1 that ends gives at least one rule; the rules have identifiers and
  pointers of their own, each is enabled, has a type and no actions, and its targets have the
  identifiers that the manifest gives their addresses. Every entry of the array is reported exactly
  once, as loaded or as failed.\<close>

theorem v1_rules_filed:
  assumes "rules rs = []" "parse_v1 alloc env lim root_map rs info = Some (Inr rs', info')"
  shows "rules rs' \<noteq> [] \<and> distinct (map fst (rules rs')) \<and> distinct (map (\<lambda>(i, r). rule_ptr r) (rules rs')) \<and>
    (\<forall>(i, r) \<in> set (rules rs'). v1_rule_ok i (rs_manifest rs') r) \<and>
    (\<exists>entries cs. at to_vector root_map ''events'' = Inr entries \<and> accounts alloc cs info info' (length entries) (length (rules rs')))"
proof -
  obtain entries where entries: "at to_vector root_map ''events'' = Inr entries"
    using assms(2) by (auto simp: parse_v1_def split: sum.splits)
  obtain n where run: "events_loop alloc env lim entries rs 0 info = Some (rs', n, info')" "rules rs' \<noteq> []"
    using assms(2) by (auto simp: parse_v1_def entries bind_eq_Some_conv split: if_splits)
  have "v1_ruleset_ok rs 0"
    by (simp add: v1_ruleset_ok_def assms(1))
  from events_loop_ok [OF this run(1)] run(2) entries assms(1) show ?thesis
    by (auto simp: v1_ruleset_ok_def)
qed

definition v1_rule :: "string \<Rightarrow> string \<Rightarrow> (string \<times> ddwaf_object) list \<Rightarrow> ddwaf_object" where
  "v1_rule i address named = o_map ([(''id'', o_str i), (''tags'', o_map [(''type'', o_str ''attack'')]),
     (''conditions'', o_array [o_map [(''operation'', o_str ''is_xss''), (''parameters'', o_map [
        (''inputs'', o_array [o_str address])])]])] @ named)"

definition v1_events :: pmap where
  "v1_events = [(''events'', o_array [v1_rule ''r1'' ''a:key'' [(''name'', o_str ''one'')], v1_rule ''r2'' ''b'' []])]"

definition v1_start :: ruleset where
  "v1_start = empty_ruleset \<lparr>key_regex = None, value_regex = None\<rparr>"

lemmas v1_code = v1_rule_def v1_events_def v1_start_def empty_ruleset_def parse_v1_def parseRule_def parse_rule_v1_def parseCondition_def
  parse_processor_v1_def parse_input_v1_def split_input_def new_rule_def insert_rule_keeps

text \<open>
  The address of the rule that failed stays in the manifest (\<open>parser_v1.cpp:97\<close>), and with it
  among the addresses that the caller is told to provide.
\<close>

lemma v1_run:
  "\<exists>rs info'. parse_v1 (\<lambda>_. True) no_libs wide_limits v1_events v1_start (new_ruleset_info None) = Some (Inr rs, info') \<and>
     map fst (rules rs) = [''r1''] \<and> targets (rs_manifest rs) = [(''a'', 1), (''b'', 2)]"
  by (simp add: parse_code v1_code)

theorem v1_rules_filed_witness:
  "\<exists>rs info'. parse_v1 (\<lambda>_. True) no_libs wide_limits v1_events v1_start (new_ruleset_info None) = Some (Inr rs, info') \<and>
     map fst (rules rs) = [''r1''] \<and> (\<forall>(i, r) \<in> set (rules rs). v1_rule_ok i (rs_manifest rs) r)"
proof -
  obtain rs info' where run: "parse_v1 (\<lambda>_. True) no_libs wide_limits v1_events v1_start (new_ruleset_info None) = Some (Inr rs, info')"
    "map fst (rules rs) = [''r1'']"
    using v1_run by (elim exE conjE) (rule that)
  have "rules v1_start = []"
    by (simp add: v1_start_def empty_ruleset_def)
  from v1_rules_filed [OF this run(1)] have "\<forall>(i, r) \<in> set (rules rs). v1_rule_ok i (rs_manifest rs) r"
    by (elim conjE)
  with run show ?thesis
    by (intro exI conjI)
qed

lemma v1_keeps_failed_addresses:
  "\<exists>rs info'. parse_v1 (\<lambda>_. True) no_libs wide_limits v1_events v1_start (new_ruleset_info None) = Some (Inr rs, info') \<and>
     ''b'' \<in> set (fst (get_root_addresses (rs_manifest rs))) \<and>
     (\<forall>(i, r) \<in> set (rules rs). \<forall>c \<in> set (conditions r). \<forall>t \<in> set (cond_targets c). target_name t \<noteq> ''b'')"
  by (simp add: parse_code v1_code get_root_addresses_def)

text \<open>
  An entry that is no map is one failed rule for version 1, whose cast is in the \<open>try\<close> block; in
  version 2 it ends the whole load (\<open>parser_v2.cpp:401\<close>), also for the rules before it.
\<close>

lemma no_map_entry:
  "fst (the (parse_rules (\<lambda>_. True) no_libs wide_limits [o_rule ''r1'' ''a'' ''x'', o_str ''no map''] start_state (new_ruleset_info None))) =
     Inl (Bad_Cast ''map'' ''string'')"
  "\<exists>rs n info'. events_loop (\<lambda>_. True) no_libs wide_limits [v1_rule ''r1'' ''a'' [(''name'', o_str ''one'')], o_str ''no map''] v1_start 0
     (new_ruleset_info None) = Some (rs, n, info') \<and> map fst (rules rs) = [''r1'']"
  by (simp_all add: parse_code v1_code)

end
