(* ===== verification/Interface.thy ===== *)
theory Interface
  imports Parser_V1 Updates Context
begin

text \<open>
  The handle (\<open>src/waf.hpp\<close>), the version of a rule set (\<open>src/parser/parser.cpp\<close>) and the functions
  of the C API (\<open>src/interface.cpp\<close>).
\<close>

section \<open>The handle\<close>

text \<open>\<open>std::from_chars\<close> for an unsigned number; what follows the digits is not looked at.\<close>

definition from_chars_u32 :: "string \<Rightarrow> u32 option" where
  "from_chars_u32 s =
     (let ds = takeWhile isdigit s in
      if ds = [] \<or> digits_nat ds \<ge> 2 ^ 32 then None else Some (of_nat (digits_nat ds)))"

definition invalid_version :: exn where
  "invalid_version = Parsing_Exn ''invalid version format, expected major.minor''"

definition parse_schema_version :: "pmap \<Rightarrow> u32 throws" where
  "parse_schema_version root_map =
     bind_exn (at to_string_view root_map ''version'') (\<lambda>version.
     if CHR ''.'' \<notin> set version then Inl invalid_version
     else (case from_chars_u32 (takeWhile (\<lambda>c. c \<noteq> CHR ''.'') version) of
             None \<Rightarrow> Inl invalid_version
           | Some major \<Rightarrow> Inr major))"

text \<open>Handles share their builder: it is held by its address.\<close>

record waf =
  waf_builder :: "nat option"
  waf_ruleset :: ruleset

record world =
  builders :: "nat \<rightharpoonup> ruleset_builder"
  next_builder :: nat

definition schema_version :: "pmap \<Rightarrow> u32" where
  "schema_version input_map =
     (if map_of input_map ''version'' = None then 2
      else (case parse_schema_version input_map of Inl _ \<Rightarrow> 2 | Inr version \<Rightarrow> version))"

text \<open>The constructor. The first build of a builder gives a rule set or throws.\<close>

definition new_waf ::
    "(nat \<Rightarrow> bool) \<Rightarrow> libs \<Rightarrow> ddwaf_object \<Rightarrow> object_limits \<Rightarrow> bool \<Rightarrow> obfuscator \<Rightarrow> world \<Rightarrow> ruleset_info
     \<Rightarrow> (waf throws \<times> world \<times> ruleset_info) option" where
  "new_waf alloc env input lim free_fn ob w info =
     (case to_map input of
        Inl e \<Rightarrow> Some (Inl e, w, info)
      | Inr input_map \<Rightarrow>
          (let version = schema_version input_map in
           if version = 1 then
             do { (res, info') \<leftarrow> parse_v1 alloc env lim input_map ((empty_ruleset ob)\<lparr>rs_free_fn := free_fn\<rparr>) info;
                  Some (map_sum id (\<lambda>rs. \<lparr>waf_builder = None, waf_ruleset = rs\<rparr>) res, w, info') }
           else if version = 2 then
             do { (res, b, info') \<leftarrow> build_object alloc env input (new_builder lim free_fn ob, info);
                  (case res of
                     Inl e \<Rightarrow> Some (Inl e, w, info')
                   | Inr None \<Rightarrow> None
                   | Inr (Some rs) \<Rightarrow>
                       Some (Inr \<lparr>waf_builder = Some (next_builder w), waf_ruleset = rs\<rparr>,
                         w\<lparr>builders := (builders w)(next_builder w \<mapsto> b), next_builder := next_builder w + 1\<rparr>, info')) }
           else Some (Inl Unsupported_Version, w, info)))"

definition waf_update ::
    "(nat \<Rightarrow> bool) \<Rightarrow> libs \<Rightarrow> waf \<Rightarrow> ddwaf_object \<Rightarrow> world \<Rightarrow> ruleset_info
     \<Rightarrow> (waf option throws \<times> world \<times> ruleset_info) option" where
  "waf_update alloc env h input w info =
     (case waf_builder h of
        None \<Rightarrow> Some (Inr None, w, info)
      | Some p \<Rightarrow>
          do { b \<leftarrow> builders w p;
               (res, b', info') \<leftarrow> build_object alloc env input (b, info);
               Some (map_sum id (map_option (\<lambda>rs. \<lparr>waf_builder = Some p, waf_ruleset = rs\<rparr>)) res,
                 w\<lparr>builders := (builders w)(p \<mapsto> b')\<rparr>, info') })"

definition create_context :: "waf \<Rightarrow> waf_context" where
  "create_context h = new_context (waf_ruleset h)"

section \<open>The functions of the C API\<close>

text \<open>The expressions of the obfuscator are C strings or null.\<close>

record ddwaf_config =
  cfg_max_container_size :: u32
  cfg_max_container_depth :: u32
  cfg_max_string_length :: u32
  cfg_key_regex :: "string option"
  cfg_value_regex :: "string option"
  cfg_free_fn :: bool

definition default_limits :: object_limits where
  "default_limits = \<lparr>max_container_depth = 20, max_container_size = 256, max_string_length = 4096\<rparr>"

definition limits_from_config :: "ddwaf_config option \<Rightarrow> object_limits" where
  "limits_from_config config =
     (case config of
        None \<Rightarrow> default_limits
      | Some c \<Rightarrow>
          (let pick = (\<lambda>given dflt. if given \<noteq> (0 :: u32) then unat given else dflt) in
           \<lparr>max_container_depth = pick (cfg_max_container_depth c) (max_container_depth default_limits),
            max_container_size = pick (cfg_max_container_size c) (max_container_size default_limits),
            max_string_length = pick (cfg_max_string_length c) (max_string_length default_limits)\<rparr>))"

definition obfuscator_from_config :: "libs \<Rightarrow> ddwaf_config option \<Rightarrow> processor_error + obfuscator" where
  "obfuscator_from_config env config =
     (let pick = (\<lambda>field. case config of None \<Rightarrow> [] | Some c \<Rightarrow> (case field c of None \<Rightarrow> [] | Some s \<Rightarrow> c_str s))
      in new_obfuscator env (pick cfg_key_regex) (pick cfg_value_regex))"

text \<open>Exceptions end in a null handle; what was written to the diagnostics stays.\<close>

definition ddwaf_init ::
    "(nat \<Rightarrow> bool) \<Rightarrow> libs \<Rightarrow> ddwaf_object option \<Rightarrow> ddwaf_config option \<Rightarrow> ddwaf_ruleset_info option \<Rightarrow> world
     \<Rightarrow> (waf option \<times> world \<times> ddwaf_ruleset_info option) option" where
  "ddwaf_init alloc env rule_set config info w =
     (let ri = new_ruleset_info info in
      case rule_set of
        None \<Rightarrow> Some (None, w, info_ptr ri)
      | Some input \<Rightarrow>
          (case obfuscator_from_config env config of
             Inl _ \<Rightarrow> Some (None, w, info_ptr ri)
           | Inr ob \<Rightarrow>
               do { (res, w', ri') \<leftarrow> new_waf alloc env input (limits_from_config config)
                      (case config of None \<Rightarrow> True | Some c \<Rightarrow> cfg_free_fn c) ob w ri;
                    Some (case res of Inl _ \<Rightarrow> None | Inr h \<Rightarrow> Some h, w', info_ptr ri') }))"

definition ddwaf_update ::
    "(nat \<Rightarrow> bool) \<Rightarrow> libs \<Rightarrow> waf option \<Rightarrow> ddwaf_object option \<Rightarrow> ddwaf_ruleset_info option \<Rightarrow> world
     \<Rightarrow> (waf option \<times> world \<times> ddwaf_ruleset_info option) option" where
  "ddwaf_update alloc env handle rule_set info w =
     (let ri = new_ruleset_info info in
      case (handle, rule_set) of
        (Some h, Some input) \<Rightarrow>
          do { (res, w', ri') \<leftarrow> waf_update alloc env h input w ri;
               Some (case res of Inl _ \<Rightarrow> None | Inr h' \<Rightarrow> h', w', info_ptr ri') }
      | _ \<Rightarrow> Some (None, w, info_ptr ri))"

text \<open>The addresses and their number, and the handle, whose manifest remembers the answer.\<close>

definition ddwaf_required_addresses :: "waf option \<Rightarrow> string list option \<times> u32 \<times> waf option" where
  "ddwaf_required_addresses handle =
     (case handle of
        None \<Rightarrow> (None, 0, None)
      | Some h \<Rightarrow>
          (let (addresses, m) = get_root_addresses (rs_manifest (waf_ruleset h));
               h' = h\<lparr>waf_ruleset := (waf_ruleset h)\<lparr>rs_manifest := m\<rparr>\<rparr>
           in if addresses = [] \<or> length addresses > 2 ^ 32 - 1 then (None, 0, Some h')
              else (Some addresses, of_nat (length addresses), Some h')))"

definition ddwaf_context_init :: "waf option \<Rightarrow> waf_context option" where
  "ddwaf_context_init handle = map_option create_context handle"

definition ddwaf_run ::
    "engine_env \<Rightarrow> (json \<Rightarrow> string option) \<Rightarrow> waf_context option \<Rightarrow> ddwaf_object option \<Rightarrow> ddwaf_result option \<Rightarrow> u64 \<Rightarrow> nat
     \<Rightarrow> (ret_code \<times> ddwaf_result option \<times> waf_context option \<times> nat) option" where
  "ddwaf_run env write_json ctx input result timeout i =
     (let res = map_option (\<lambda>_. zero_result) result in
      case (ctx, input) of
        (Some c, Some ob) \<Rightarrow>
          do { (code, res', c', i') \<leftarrow> context_run env write_json c ob res timeout i; Some (code, res', Some c', i') }
      | _ \<Rightarrow> Some (DDWAF_ERR_INVALID_ARGUMENT, res, ctx, i))"

text \<open>A null result is dereferenced.\<close>

definition ddwaf_result_free :: "ddwaf_result option \<Rightarrow> ddwaf_result option" where
  "ddwaf_result_free result = map_option (\<lambda>_. zero_result) result"

unbundle bit_operations_syntax

section \<open>The rules of a handle\<close>

text \<open>Rules filed under their identifiers, and a rule set that is made of such rules.\<close>

definition filed_rules :: "(string \<times> rule) list \<Rightarrow> bool" where
  "filed_rules rs \<longleftrightarrow> distinct (map fst rs) \<and> (\<forall>(i, r) \<in> set rs. rule_id r = i)"

definition well_made :: "ruleset \<Rightarrow> bool" where
  "well_made rs \<longleftrightarrow> filed_rules (rules rs) \<and>
     (\<exists>rs0. collections rs0 = [] \<and> priority_collections rs0 = [] \<and> rs = insert_rules (rules rs) rs0)"

lemma well_madeI:
  "filed_rules xs \<Longrightarrow> collections rs0 = [] \<Longrightarrow> priority_collections rs0 = [] \<Longrightarrow> rs = insert_rules xs rs0 \<Longrightarrow> well_made rs"
  by (auto simp: well_made_def insert_rules_keeps)

lemma filed_rules_inj: "filed_rules rs \<Longrightarrow> inj_on rule_id (snd ` set rs)"
proof (rule inj_onI)
  fix x y
  assume f: "filed_rules rs" and xy: "x \<in> snd ` set rs" "y \<in> snd ` set rs" "rule_id x = rule_id y"
  then have "(rule_id x, x) \<in> set rs" "(rule_id x, y) \<in> set rs"
    by (auto simp: filed_rules_def)
  then show "x = y"
    using f by (metis eq_key_imp_eq_value filed_rules_def)
qed

lemma well_made_reports:
  assumes "well_made rs" "run_history env (new_context rs) runs = Some evs"
  shows "distinct (map event_id evs) \<and> (\<forall>e \<in> set evs. \<exists>(i, r) \<in> set (rules rs). enabled r \<and> event_id e = i)"
proof -
  obtain rs0 where rs0: "collections rs0 = []" "priority_collections rs0 = []" "rs = insert_rules (rules rs) rs0"
    and filed: "filed_rules (rules rs)"
    using assms(1) by (auto simp: well_made_def)
  have "run_history env (new_context (insert_rules (rules rs) rs0)) runs = Some evs"
    using assms(2) rs0(3) by simp
  from history_reports_once [OF rs0(1,2) filed_rules_inj [OF filed] this] filed show ?thesis
    by (fastforce simp: filed_rules_def)
qed

text \<open>Filing rules does not touch the other members.\<close>

lemma file_rule_update:
  "file_rule r (rs\<lparr>rs_dynamic_processors := x1\<rparr>) = (file_rule r rs)\<lparr>rs_dynamic_processors := x1\<rparr>"
  "file_rule r (rs\<lparr>rule_filters := x2\<rparr>) = (file_rule r rs)\<lparr>rule_filters := x2\<rparr>"
  "file_rule r (rs\<lparr>input_filters := x3\<rparr>) = (file_rule r rs)\<lparr>input_filters := x3\<rparr>"
  "file_rule r (rs\<lparr>rs_free_fn := x4\<rparr>) = (file_rule r rs)\<lparr>rs_free_fn := x4\<rparr>"
  "file_rule r (rs\<lparr>rs_manifest := x5\<rparr>) = (file_rule r rs)\<lparr>rs_manifest := x5\<rparr>"
  "file_rule r (rs\<lparr>rules := x6\<rparr>) = (file_rule r rs)\<lparr>rules := x6\<rparr>"
  by (simp_all add: file_rule_def)

lemma insert_rules_update:
  "insert_rules xs (rs\<lparr>rs_dynamic_processors := x1\<rparr>) = (insert_rules xs rs)\<lparr>rs_dynamic_processors := x1\<rparr>"
  "insert_rules xs (rs\<lparr>rule_filters := x2\<rparr>) = (insert_rules xs rs)\<lparr>rule_filters := x2\<rparr>"
  "insert_rules xs (rs\<lparr>input_filters := x3\<rparr>) = (insert_rules xs rs)\<lparr>input_filters := x3\<rparr>"
  "insert_rules xs (rs\<lparr>rs_free_fn := x4\<rparr>) = (insert_rules xs rs)\<lparr>rs_free_fn := x4\<rparr>"
  "insert_rules xs (rs\<lparr>rs_manifest := x5\<rparr>) = (insert_rules xs rs)\<lparr>rs_manifest := x5\<rparr>"
proof -
  have fold_update: "fold (\<lambda>(i, r). file_rule r) xs (f rs) = f (fold (\<lambda>(i, r). file_rule r) xs rs)"
    if "\<And>r rs. file_rule r (f rs) = f (file_rule r rs)" for f :: "ruleset \<Rightarrow> ruleset" and xs :: "(string \<times> rule) list" and rs
    by (induction xs arbitrary: rs) (auto simp: that)
  show "insert_rules xs (rs\<lparr>rs_dynamic_processors := x1\<rparr>) = (insert_rules xs rs)\<lparr>rs_dynamic_processors := x1\<rparr>"
    using fold_update [of "\<lambda>rs. rs\<lparr>rs_dynamic_processors := x1\<rparr>" xs "rs\<lparr>rules := xs\<rparr>"]
    by (cases rs) (simp add: insert_rules_def file_rule_update)
  show "insert_rules xs (rs\<lparr>rule_filters := x2\<rparr>) = (insert_rules xs rs)\<lparr>rule_filters := x2\<rparr>"
    using fold_update [of "\<lambda>rs. rs\<lparr>rule_filters := x2\<rparr>" xs "rs\<lparr>rules := xs\<rparr>"]
    by (cases rs) (simp add: insert_rules_def file_rule_update)
  show "insert_rules xs (rs\<lparr>input_filters := x3\<rparr>) = (insert_rules xs rs)\<lparr>input_filters := x3\<rparr>"
    using fold_update [of "\<lambda>rs. rs\<lparr>input_filters := x3\<rparr>" xs "rs\<lparr>rules := xs\<rparr>"]
    by (cases rs) (simp add: insert_rules_def file_rule_update)
  show "insert_rules xs (rs\<lparr>rs_free_fn := x4\<rparr>) = (insert_rules xs rs)\<lparr>rs_free_fn := x4\<rparr>"
    using fold_update [of "\<lambda>rs. rs\<lparr>rs_free_fn := x4\<rparr>" xs "rs\<lparr>rules := xs\<rparr>"]
    by (cases rs) (simp add: insert_rules_def file_rule_update)
  show "insert_rules xs (rs\<lparr>rs_manifest := x5\<rparr>) = (insert_rules xs rs)\<lparr>rs_manifest := x5\<rparr>"
    using fold_update [of "\<lambda>rs. rs\<lparr>rs_manifest := x5\<rparr>" xs "rs\<lparr>rules := xs\<rparr>"]
    by (cases rs) (simp add: insert_rules_def file_rule_update)
qed

lemma ruleset_of_well_made: "filed_rules (final_rules b) \<Longrightarrow> well_made (ruleset_of b)"
proof -
  let ?rs0 = "(empty_ruleset (rb_obfuscator b))\<lparr>rs_manifest := target_manifest b, rs_dynamic_processors := dynamic_processors b,
      rule_filters := rb_rule_filters b, input_filters := rb_input_filters b, rs_free_fn := rb_free_fn b\<rparr>"
  have rs: "ruleset_of b = insert_rules (final_rules b) ?rs0"
    by (simp only: ruleset_of_def insert_rules_update)
  assume "filed_rules (final_rules b)"
  moreover have "rules (ruleset_of b) = final_rules b"
    unfolding rs by (simp only: insert_rules_keeps)
  moreover have "collections ?rs0 = []" "priority_collections ?rs0 = []"
    by (simp_all add: empty_ruleset_def)
  ultimately show ?thesis
    unfolding well_made_def using rs by (intro conjI exI [of _ ?rs0]) simp_all
qed

text \<open>The rules of version 1 are filed one after the other.\<close>

lemma insert_rule_well_made:
  assumes "well_made rs" "map_of (rules rs) (rule_id r) = None"
  shows "well_made (insert_rule r rs)"
proof -
  obtain rs0 where rs0: "collections rs0 = []" "priority_collections rs0 = []" "rs = insert_rules (rules rs) rs0" "filed_rules (rules rs)"
    using assms(1) by (auto simp: well_made_def)
  let ?xs = "rules rs @ [(rule_id r, r)]"
  have same: "fold (\<lambda>(i, r). file_rule r) ys (rs1\<lparr>rules := zs\<rparr>) = (fold (\<lambda>(i, r). file_rule r) ys rs1)\<lparr>rules := zs\<rparr>"
    for ys zs :: "(string \<times> rule) list" and rs1
    by (induction ys arbitrary: rs1) (auto simp: file_rule_update)
  have "insert_rules ?xs rs0 = file_rule r ((insert_rules (rules rs) rs0)\<lparr>rules := ?xs\<rparr>)"
    by (simp add: insert_rules_def same)
  also have "\<dots> = insert_rule r rs"
    using rs0(3) assms(2) by (simp add: insert_rule_def emplace_def)
  finally have "insert_rule r rs = insert_rules ?xs rs0"
    by simp
  moreover have "filed_rules ?xs"
    using rs0(4) assms(2) by (auto simp: filed_rules_def map_of_eq_None_iff)
  ultimately show ?thesis
    unfolding well_made_def using rs0(1,2) by (intro conjI exI [of _ rs0]) (simp_all add: insert_rules_keeps)
qed

lemma manifest_well_made: "well_made rs \<Longrightarrow> well_made (rs\<lparr>rs_manifest := m\<rparr>)"
proof -
  assume "well_made rs"
  then obtain rs0 where rs0: "collections rs0 = []" "priority_collections rs0 = []" "rs = insert_rules (rules rs) rs0" "filed_rules (rules rs)"
    by (auto simp: well_made_def)
  have "rs\<lparr>rs_manifest := m\<rparr> = insert_rules (rules rs) (rs0\<lparr>rs_manifest := m\<rparr>)"
    using rs0(3) by (simp add: insert_rules_update)
  with rs0(1,2) show ?thesis
    by (intro well_madeI [OF rs0(4)]) simp_all
qed

lemma events_loop_well_made:
  "well_made rs \<Longrightarrow> events_loop alloc env lim xs rs n info = Some (rs', n', info') \<Longrightarrow> well_made rs'"
proof (induction xs arbitrary: rs n info)
  case (Cons x xs)
  have step: "well_made rs1" if parsed: "parseRule alloc env lim rule_map rs n info = Some (Inr (rs1, n1, info1))" for rule_map rs1 n1 info1
  proof -
    obtain i where i: "at to_string rule_map ''id'' = Inr i"
      using parsed by (cases "at to_string rule_map ''id''") (simp_all add: parseRule_def)
    show ?thesis
    proof (cases "map_of (rules rs) i")
      case (Some r)
      with parsed Cons.prems(1) show ?thesis
        by (auto simp: parseRule_def i)
    next
      case None
      obtain res s where run: "parse_rule_v1 env rule_map i lim \<lparr>ps_manifest = rs_manifest rs, ps_data_ids = [], ps_next = n\<rparr> = Some (res, s)"
        using parsed None by (auto simp: parseRule_def i bind_eq_Some_conv)
      from makesD [OF parse_rule_v1_ok run] have "\<And>r. res = Inr r \<Longrightarrow> rule_id r = i"
        by (auto simp: v1_rule_ok_def)
      with parsed None Cons.prems(1) show ?thesis
        by (cases res) (auto simp: parseRule_def i run Let_def intro!: insert_rule_well_made manifest_well_made)
    qed
  qed
  show ?case
  proof (cases "to_map x")
    case (Inl e)
    with Cons show ?thesis
      by simp
  next
    case (Inr rule_map)
    then obtain res where res: "parseRule alloc env lim rule_map rs n info = Some res"
      using Cons.prems(2) by (auto simp: bind_eq_Some_conv)
    show ?thesis
    proof (cases res)
      case Inl: (Inl e)
      with Cons Inr res show ?thesis
        by simp
    next
      case ok: (Inr res1)
      obtain rs1 n1 info1 where "res1 = (rs1, n1, info1)"
        by (rule prod_cases3)
      with Cons.prems(2) Cons.IH [OF step] Inr res ok show ?thesis
        by simp
    qed
  qed
qed simp

text \<open>A builder in order, also one that threw half way.\<close>

definition builder_sane :: "ruleset_builder \<Rightarrow> bool" where
  "builder_sane b \<longleftrightarrow> sane b \<and> filed_rules (final_rules b)"

lemma regenerate_rules_sane: "sane b \<Longrightarrow> regenerate_rules b = Some b' \<Longrightarrow> builder_sane b'"
proof -
  assume b: "sane b" "regenerate_rules b = Some b'"
  then have ok: "distinct (map fst (base_rules b))" "overrides_ok (overrides b)"
    by (simp_all add: sane_def)
  let ?rs = "numbered (next_ptr b) (base_rules b)"
  let ?f = "\<lambda>(i, r). (i, overridden (tag_map_of ?rs) ?rs (all_overrides b) r)"
  have b': "base_rules b' = base_rules b" "overrides b' = overrides b" "final_rules b' = map ?f ?rs"
    using b(2) unfolding regenerate_rules_form [OF ok] by auto
  have "map fst (map ?f ?rs) = map fst ?rs"
    by (simp only: map_map comp_def case_prod_unfold fst_conv)
  then have "distinct (map fst (map ?f ?rs))"
    using ok(1) by (simp only: numbered_ids)
  moreover have "rule_id r = i" if "(i, r) \<in> set ?rs" for i r
    using stands_for_spec [OF numbered_stand that] by (auto simp: stands_for_def)
  ultimately show ?thesis
    using b(1) fold_override_rule unfolding builder_sane_def filed_rules_def sane_def b' by (auto simp: overridden_def)
qed

lemma make_rule_filters_keep:
  "make_rule_filters xs b = Some b' \<Longrightarrow> base_rules b' = base_rules b \<and> overrides b' = overrides b \<and> final_rules b' = final_rules b"
proof (induction xs arbitrary: b)
  case (Cons x xs)
  from Cons.prems show ?case
    by (cases x) (auto simp: bind_eq_Some_conv Let_def dest!: Cons.IH)
qed simp

lemma make_input_filters_keep:
  "make_input_filters xs b = Some b' \<Longrightarrow> base_rules b' = base_rules b \<and> overrides b' = overrides b \<and> final_rules b' = final_rules b"
proof (induction xs arbitrary: b)
  case (Cons x xs)
  from Cons.prems show ?case
    by (cases x) (auto simp: bind_eq_Some_conv Let_def dest!: Cons.IH)
qed simp

lemmas make_filters_keep = make_rule_filters_keep make_input_filters_keep

lemma regenerate_filters_sane: "builder_sane b \<Longrightarrow> regenerate_filters b = Some b' \<Longrightarrow> builder_sane b'"
  by (auto simp: regenerate_filters_def builder_sane_def sane_def bind_eq_Some_conv dest!: make_filters_keep)

lemma rebuild_sane: "builder_sane b \<Longrightarrow> rebuild state b = Some b' \<Longrightarrow> builder_sane b'"
proof -
  assume b: "builder_sane b" and run: "rebuild state b = Some b'"
  have clean: "builder_sane (clean_manifest b2)" if "builder_sane b2" for b2
    using that by (simp add: builder_sane_def sane_def clean_manifest_def)
  obtain b1 where b1: "(if state AND 3 \<noteq> 0 then regenerate_rules b else Some b) = Some b1"
    using run by (auto simp: rebuild_def bind_eq_Some_conv)
  obtain b2 where b2: "(if state AND 7 \<noteq> 0 then regenerate_filters b1 else Some b1) = Some b2"
    using run b1 by (auto simp: rebuild_def bind_eq_Some_conv)
  have "builder_sane b1"
    using b b1 regenerate_rules_sane by (auto simp: builder_sane_def split: if_splits)
  then have "builder_sane b2"
    using b2 regenerate_filters_sane by (auto split: if_splits)
  with clean show ?thesis
    using run b1 b2 by (auto simp: rebuild_def split: if_splits)
qed

lemma build_object_sane:
  assumes b: "builder_sane b" and run: "build_object alloc env ob (b, info) = Some (r, b', info')"
  shows "builder_sane b' \<and> (\<forall>rs. r = Inr (Some rs) \<longrightarrow> well_made rs)"
  using run
proof (cases rule: build_object_cases)
  case (built root_map state b1)
  have "load_step b b1"
    using load_cases [OF built(2)] by simp
  with b have "builder_sane b1"
    by (simp add: builder_sane_def load_step_def)
  from rebuild_sane [OF this built(3)] have "builder_sane b'" .
  with built(4) ruleset_of_well_made show ?thesis
    by (auto simp: builder_sane_def)
next
  case (failed root_map e)
  have "load_step b b'"
    using load_cases [OF failed(2)] by simp
  with b failed(3) show ?thesis
    by (simp add: builder_sane_def load_step_def)
next
  case (same root_map)
  have "load_step b b'"
    using load_cases [OF same(2)] by simp
  with b same(3) show ?thesis
    by (simp add: builder_sane_def load_step_def)
qed (use b in simp)

lemma new_builder_sane: "builder_sane (new_builder lim free_fn ob)"
  by (simp add: builder_sane_def sane_def filed_rules_def new_builder_def overrides_ok_def no_overrides_def)

section \<open>A new handle is defined\<close>

lemma parse_rule_v1_defined: "defined (parse_rule_v1 env rule_map i lim)"
proof -
  have "defined (insert_target a kp)" for a kp
    by (simp add: defined_def insert_target_def split_beta Let_def)
  then have "defined (parse_input_v1 ob)" for ob
    unfolding parse_input_v1_def Let_def by (intro defined_rules)
  then have "defined (parseCondition env cond xfs lim)" for cond xfs
    unfolding parseCondition_def by (intro defined_rules new_condition_defined)
  moreover have "defined (new_rule i name rule_tags conds)" for name rule_tags conds
    by (simp add: defined_def new_rule_def)
  ultimately show ?thesis
    unfolding parse_rule_v1_def by (intro defined_rules)
qed

lemma events_loop_defined: "info_ptr info = None \<Longrightarrow> \<exists>r. events_loop alloc env lim xs rs n info = Some r"
proof (induction xs arbitrary: rs n info)
  case (Cons x xs)
  note null = info_null_keeps [OF Cons.prems]
  have rest: "\<exists>r. events_loop alloc env lim xs rs' n' info1 = Some r"
    if "info1 = info \<or> info1 = add_failed info \<or> info1 = add_loaded info" for rs' n' info1
    using Cons.IH Cons.prems null that by blast
  show ?case
  proof (cases "to_map x")
    case (Inr m)
    show ?thesis
    proof (cases "at to_string m ''id''")
      case i: (Inr i)
      obtain r s where r: "parse_rule_v1 env m i lim \<lparr>ps_manifest = rs_manifest rs, ps_data_ids = [], ps_next = n\<rparr> = Some (r, s)"
        using definedD [OF parse_rule_v1_defined] by blast
      show ?thesis
        using rest null by (cases r) (auto simp: Inr parseRule_def i r)
    qed (use rest in \<open>simp add: Inr parseRule_def\<close>)
  qed (use rest in simp)
qed simp

lemma parse_v1_defined: "info_ptr info = None \<Longrightarrow> \<exists>r info'. parse_v1 alloc env lim root_map rs info = Some (r, info')"
proof (cases "at to_vector root_map ''events''")
  case (Inr xs)
  assume "info_ptr info = None"
  then obtain r where r: "events_loop alloc env lim xs rs 0 info = Some r"
    using events_loop_defined by blast
  obtain rs' n info' where "r = (rs', n, info')"
    by (rule prod_cases3)
  note r [unfolded this]
  then show ?thesis
    by (simp add: parse_v1_def Inr)
qed (simp add: parse_v1_def)

lemma new_waf_defined:
  assumes "inet_ok (lib_inet env)"
  shows "\<exists>r w' info'. new_waf alloc env input lim free_fn ob w (new_ruleset_info None) = Some (r, w', info')"
proof (cases "to_map input")
  case (Inl e)
  then show ?thesis
    by (simp add: new_waf_def)
next
  case (Inr input_map)
  have "info_ptr (new_ruleset_info None) = None"
    by (simp add: new_ruleset_info_def)
  then obtain r1 info1 where v1: "parse_v1 alloc env lim input_map ((empty_ruleset ob)\<lparr>rs_free_fn := free_fn\<rparr>) (new_ruleset_info None) = Some (r1, info1)"
    using parse_v1_defined by blast
  obtain r b info2 where v2: "build_object alloc env input (new_builder lim free_fn ob, new_ruleset_info None) = Some (r, b, info2)"
    using build_object_defined [OF assms new_builder_ok] by blast
  have "r \<noteq> Inr None"
    using v2
  proof (cases rule: build_object_cases)
    case (same root_map)
    from first_load [OF _ same(2)] show ?thesis
      by (simp add: new_builder_def)
  qed simp_all
  then show ?thesis
    by (cases r) (auto simp: new_waf_def Inr v1 v2 Let_def)
qed



section \<open>The life of a process\<close>

text \<open>
  What a caller can do with rule sets: make handles of any objects, and update any handle with any
  object, whether the earlier calls have failed or not.
\<close>

inductive life :: "(nat \<Rightarrow> bool) \<Rightarrow> libs \<Rightarrow> world \<Rightarrow> waf set \<Rightarrow> bool" for alloc env where
  begins: "life alloc env \<lparr>builders = Map.empty, next_builder = 0\<rparr> {}"
| inits: "life alloc env w hs \<Longrightarrow> ddwaf_init alloc env input config info w = Some (h, w', info') \<Longrightarrow>
    life alloc env w' (hs \<union> set_option h)"
| updates: "life alloc env w hs \<Longrightarrow> h \<in> hs \<Longrightarrow> ddwaf_update alloc env (Some h) input info w = Some (h', w', info') \<Longrightarrow>
    life alloc env w' (hs \<union> set_option h')"

definition world_ok :: "world \<Rightarrow> waf set \<Rightarrow> bool" where
  "world_ok w hs \<longleftrightarrow> (\<forall>p b. builders w p = Some b \<longrightarrow> builder_sane b) \<and> (\<forall>h \<in> hs. well_made (waf_ruleset h))"

lemma map_sum_eq_Inr: "map_sum f g x = Inr y \<longleftrightarrow> (\<exists>z. x = Inr z \<and> y = g z)"
  by (cases x) auto

lemma new_waf_ok:
  assumes "world_ok w hs" "new_waf alloc env input lim free_fn ob w info = Some (res, w', info')"
  shows "world_ok w' hs \<and> (\<forall>h. res = Inr h \<longrightarrow> well_made (waf_ruleset h))"
proof (cases "to_map input")
  case (Inl e)
  with assms show ?thesis
    by (auto simp: new_waf_def)
next
  case (Inr input_map)
  consider "schema_version input_map = 1" | "schema_version input_map = 2" | "schema_version input_map \<noteq> 1 \<and> schema_version input_map \<noteq> 2"
    by blast
  then show ?thesis
  proof cases
    case 1
    let ?rs = "(empty_ruleset ob)\<lparr>rs_free_fn := free_fn\<rparr>"
    have made: "well_made ?rs"
      by (rule well_madeI [of "[]" ?rs]) (simp_all add: filed_rules_def empty_ruleset_def insert_rules_def)
    have "well_made rs" if "parse_v1 alloc env lim input_map ?rs info = Some (Inr rs, info1)" for rs info1
      using that events_loop_well_made [OF made] by (auto simp: parse_v1_def bind_eq_Some_conv split: sum.splits if_splits)
    then show ?thesis
      using assms 1 by (auto simp: new_waf_def Inr bind_eq_Some_conv map_sum_eq_Inr)
  next
    case 2
    obtain r b info1 where b: "build_object alloc env input (new_builder lim free_fn ob, info) = Some (r, b, info1)"
      using assms(2) 2 by (auto simp: new_waf_def Inr bind_eq_Some_conv)
    from build_object_sane [OF new_builder_sane b] have ok: "builder_sane b" "\<And>rs. r = Inr (Some rs) \<Longrightarrow> well_made rs"
      by auto
    then show ?thesis
      using assms 2 b by (auto simp: new_waf_def Inr world_ok_def split: sum.splits option.splits if_splits)
  next
    case 3
    with assms show ?thesis
      by (auto simp: new_waf_def Inr)
  qed
qed

lemma waf_update_ok:
  assumes "world_ok w hs" "waf_update alloc env h input w info = Some (res, w', info')"
  shows "world_ok w' hs \<and> (\<forall>h'. res = Inr (Some h') \<longrightarrow> well_made (waf_ruleset h'))"
proof (cases "waf_builder h")
  case None
  with assms show ?thesis
    by (auto simp: waf_update_def)
next
  case (Some p)
  obtain b r b' info1 where b: "builders w p = Some b" "build_object alloc env input (b, info) = Some (r, b', info1)"
    using assms(2) by (auto simp: waf_update_def Some bind_eq_Some_conv)
  have "builder_sane b"
    using assms(1) b(1) by (auto simp: world_ok_def)
  from build_object_sane [OF this b(2)] have ok: "builder_sane b'" "\<And>rs. r = Inr (Some rs) \<Longrightarrow> well_made rs"
    by auto
  have res: "w' = w\<lparr>builders := (builders w)(p \<mapsto> b')\<rparr>" "res = map_sum id (map_option (\<lambda>rs. \<lparr>waf_builder = Some p, waf_ruleset = rs\<rparr>)) r"
    using assms(2) by (auto simp: waf_update_def Some b)
  have "well_made (waf_ruleset h')" if "res = Inr (Some h')" for h'
    using that ok(2) by (cases r) (auto simp: res(2))
  then show ?thesis
    using assms(1) ok(1) by (auto simp: world_ok_def res(1))
qed

lemma life_ok: "life alloc env w hs \<Longrightarrow> world_ok w hs"
proof (induction rule: life.induct)
  case begins
  show ?case
    by (simp add: world_ok_def)
next
  case (inits w hs input config info h w' info')
  show ?case
  proof (cases "input = None \<or> (\<exists>e. obfuscator_from_config env config = Inl e)")
    case True
    with inits show ?thesis
      by (auto simp: ddwaf_init_def Let_def split: option.splits)
  next
    case False
    then obtain ob input' where ob: "input = Some input'" "obfuscator_from_config env config = Inr ob"
      by (cases "obfuscator_from_config env config") auto
    then obtain res ri where run: "new_waf alloc env input' (limits_from_config config)
        (case config of None \<Rightarrow> True | Some c \<Rightarrow> cfg_free_fn c) ob w (new_ruleset_info info) = Some (res, w', ri)"
      "h = (case res of Inl _ \<Rightarrow> None | Inr h \<Rightarrow> Some h)"
      using inits.hyps(2) by (auto simp: ddwaf_init_def Let_def bind_eq_Some_conv)
    from new_waf_ok [OF inits.IH run(1)] show ?thesis
      by (cases res) (auto simp: run(2) world_ok_def)
  qed
next
  case (updates w hs h input info h' w' info')
  show ?case
  proof (cases input)
    case None
    with updates show ?thesis
      by (auto simp: ddwaf_update_def Let_def)
  next
    case (Some input')
    then obtain res ri where run: "waf_update alloc env h input' w (new_ruleset_info info) = Some (res, w', ri)"
      "h' = (case res of Inl _ \<Rightarrow> None | Inr h \<Rightarrow> h)"
      using updates.hyps(3) by (auto simp: ddwaf_update_def Let_def bind_eq_Some_conv)
    from waf_update_ok [OF updates.IH run(1)] show ?thesis
      by (cases res) (auto simp: run(2) world_ok_def)
  qed
qed

text \<open>C2: Whatever rule sets a process loads, of version 1 or 2, however it updates its handles and
  whichever of these calls fail: in the life of a context of any of its handles, every rule of the
  handle reports at most one event, and only rules that are enabled there do.\<close>

theorem process_reports_once:
  assumes "life alloc env w hs" "h \<in> hs" "ddwaf_context_init (Some h) = Some ctx"
    and "run_history engine ctx runs = Some evs"
  shows "distinct (map event_id evs) \<and> (\<forall>e \<in> set evs. \<exists>(i, r) \<in> set (rules (waf_ruleset h)). enabled r \<and> event_id e = i)"
proof -
  have "well_made (waf_ruleset h)"
    using life_ok [OF assms(1)] assms(2) by (simp add: world_ok_def)
  moreover have "ctx = new_context (waf_ruleset h)"
    using assms(3) by (simp add: ddwaf_context_init_def create_context_def)
  ultimately show ?thesis
    using well_made_reports assms(4) by blast
qed

text \<open>A process that loads one rule, and a request that the rule matches.\<close>

definition e_rules :: ddwaf_object where
  "e_rules = o_map [(''rules'', o_array [o_rule ''r1'' ''a'' ''evil''])]"

lemma e_rules_run:
  "(case ddwaf_init (\<lambda>_. True) no_libs (Some e_rules) None None \<lparr>builders = Map.empty, next_builder = 0\<rparr> of
      Some (Some h, _, _) \<Rightarrow> map_option (map event_id)
        (run_history sample_env (new_context (waf_ruleset h)) [(o_map [(''a'', o_str ''evil'')], 1000, 0)])
    | _ \<Rightarrow> None) = Some [''r1'']"
  by code_simp

lemma process_reports_once_witness:
  "\<exists>w hs h ctx evs. life (\<lambda>_. True) no_libs w hs \<and> h \<in> hs \<and> ddwaf_context_init (Some h) = Some ctx \<and>
     run_history sample_env ctx [(o_map [(''a'', o_str ''evil'')], 1000, 0)] = Some evs \<and> map event_id evs = [''r1''] \<and>
     distinct (map event_id evs) \<and> (\<forall>e \<in> set evs. \<exists>(i, r) \<in> set (rules (waf_ruleset h)). enabled r \<and> event_id e = i)"
proof -
  let ?w = "\<lparr>builders = Map.empty, next_builder = 0\<rparr>"
  obtain h w1 info1 evs where h: "ddwaf_init (\<lambda>_. True) no_libs (Some e_rules) None None ?w = Some (Some h, w1, info1)"
    and evs: "run_history sample_env (new_context (waf_ruleset h)) [(o_map [(''a'', o_str ''evil'')], 1000, 0)] = Some evs"
      "map event_id evs = [''r1'']"
    using e_rules_run by (auto split: option.splits prod.splits)
  have alive: "life (\<lambda>_. True) no_libs w1 {h}"
    using life.inits [OF life.begins h] by simp
  have made: "ddwaf_context_init (Some h) = Some (new_context (waf_ruleset h))"
    by (simp add: ddwaf_context_init_def create_context_def)
  from process_reports_once [OF alive _ made evs(1)] alive made evs show ?thesis
    by (intro exI [of _ w1] exI [of _ "{h}"] exI [of _ h] exI [of _ "new_context (waf_ruleset h)"] exI [of _ evs]) simp
qed

end
