(* ===== verification/Spec2Isabelle.thy ===== *)
theory Spec2Isabelle
  imports Prelude Objects Utf8 Xf_Core Xf_Steps Xf_Basic Xf_Decode Xf_Js Xf_Html Xf_Base64 Xf_Command Xf_Path Xf_Parts Transformer
    Engine_Base Cutoff Iterators Object_Store Path_Trie Object_Filter Ip_Utils Radix Processors Condition Rule Exclusion Collection Event Ruleset Context
    Mkmap Parameter Ruleset_Info
    Specification Parser_V2 Builder Updates Parser_V1 Interface
begin

text \<open>
  A verification development of libddwaf, the web application firewall engine (C++, \<open>src/\<close> and
  \<open>include/ddwaf.h\<close>; paths below are relative to the root of the repository).

  \<^bold>\<open>The program.\<close> A caller builds a rule set as a tree of generic objects and makes a handle of it
  (\<open>ddwaf_init\<close>). The parsers turn the objects into specifications, the builder turns these into a rule
  set and keeps them for later updates (\<open>ddwaf_update\<close>). A context evaluates a request: every run adds
  a batch of addresses with their objects to its store, applies the exclusion filters, and evaluates
  the collections of rules. A rule fires when each of its conditions finds a value among its targets
  that, after the transformers, its operator matches. All of it watches a deadline. The events are
  reported as JSON, with sensitive values redacted.

  \<^bold>\<open>The theories\<close>, in the order in which they build on each other. Definitions have the names of the
  functions, members and enumeration values that they model; \<open>PROJECT.json\<close> gives the lines.

  \<^item> \<open>Prelude\<close>: machine types (a \<open>char\<close> is a byte, \<open>u32\<close> and \<open>u64\<close> wrap around), buffers with checked
    access, the loops that scan a buffer.
  \<^item> \<open>Objects\<close>: \<open>ddwaf_object\<close>, its constructors, insertion, access and release (\<open>src/object.cpp\<close>,
    \<open>src/utils.hpp\<close>). \<open>Utf8\<close>: \<open>src/utf8.cpp\<close>.
  \<^item> \<open>Xf_Core\<close>, \<open>Xf_Steps\<close>, \<open>Xf_Basic\<close>, \<open>Xf_Decode\<close>, \<open>Xf_Js\<close>, \<open>Xf_Html\<close>, \<open>Xf_Base64\<close>, \<open>Xf_Command\<close>,
    \<open>Xf_Path\<close>, \<open>Xf_Parts\<close>, \<open>Transformer\<close>: \<open>src/PWTransformer.cpp\<close>, the transformers on buffers, in their
    mutable and their read-only call, and the dispatcher. The locale \<open>transformer\<close> is the contract
    that the callers rely on; \<open>stepper\<close>, \<open>scanner\<close> and their extensions derive it from one step of a
    decoder; each transformer is an interpretation.
  \<^item> \<open>Engine_Base\<close>: limits, clock and deadline, manifest (\<open>src/config.hpp\<close>, \<open>src/clock.*\<close>,
    \<open>src/manifest.*\<close>). \<open>Cutoff\<close>: \<open>src/utils.cpp\<close>. \<open>Iterators\<close>: \<open>src/iterator.*\<close>. \<open>Object_Store\<close>:
    \<open>src/object_store.*\<close>. \<open>Path_Trie\<close>, \<open>Object_Filter\<close>: \<open>src/exclusion/object_filter.*\<close>.
  \<^item> \<open>Ip_Utils\<close>, \<open>Radix\<close>, \<open>Processors\<close>: \<open>src/ip_utils.*\<close>, \<open>third_party/radixlib/radixlib.c\<close> and the
    operators of \<open>src/rule_processor/\<close>.
  \<^item> \<open>Condition\<close>, \<open>Rule\<close>, \<open>Exclusion\<close>, \<open>Collection\<close>, \<open>Event\<close>, \<open>Ruleset\<close>, \<open>Context\<close>: the files of the same
    names, with \<open>src/exclusion/rule_filter.*\<close>, \<open>src/exclusion/input_filter.*\<close> and \<open>src/obfuscator.*\<close>.
    The locale \<open>iteration\<close> is what a condition needs of an iterator, \<open>timely\<close> what a rule needs of a
    condition.
  \<^item> \<open>Mkmap\<close>: \<open>src/mkmap.hpp\<close>. \<open>Parameter\<close>: \<open>src/parameter.*\<close>, \<open>src/exception.hpp\<close>, \<open>src/parser/common.hpp\<close>.
    \<open>Ruleset_Info\<close>: \<open>src/ruleset_info.*\<close>.
  \<^item> \<open>Specification\<close>, \<open>Parser_V2\<close>, \<open>Parser_V1\<close>: \<open>src/parser/\<close>. A parser is an action: it changes a state
    (manifest, identifiers of rule data, pointer of the next object) and ends with a value or an
    exception. The locale \<open>progress\<close> carries what holds of an action through its composition.
  \<^item> \<open>Builder\<close>, \<open>Updates\<close>: \<open>src/ruleset_builder.*\<close>, the second theory as a state machine over all updates.
  \<^item> \<open>Interface\<close>: \<open>src/waf.hpp\<close>, \<open>src/parser/parser.cpp\<close>, \<open>src/interface.cpp\<close>.
\<close>

text \<open>
  \<^bold>\<open>How the code is modelled.\<close> Structures are records, unions and enumerations datatypes. Undefined
  behaviour is the value \<open>None\<close>: a read or write outside a buffer, a null pointer followed, a value that
  its integer type cannot hold; so that a theorem that gives \<open>Some\<close> says that there is none. Exceptions are the left side
  of a sum (\<open>throws\<close>); what was changed before them stays changed. Pointers to objects of the engine
  (rules, conditions, builders) are numbers from a counter, pointers into the objects of a caller are
  paths (\<open>addr\<close>). A hash map is a list of entries without duplicates; where the code walks through
  one, the list stands for the order of its buckets, and the theorems hold of every order. Strings
  are lists of bytes with their length; a C string ends at its first null character.

  \<^bold>\<open>Termination.\<close> No definition has fuel. Loops whose measure is plain are functions with termination
  proofs. The others are \<open>partial_function (option)\<close>, and end by theorem: the repeated URL decoding
  (\<open>iis_loop\<close> in \<open>Transformer\<close>), the loop of a condition over an iterator (\<open>match_target\<close>, by the locale
  \<open>iteration\<close>), the loops of the decoders (\<open>body_loop\<close>, by \<open>stepper\<close>), those of UTF-8 normalisation,
  comments and HTML references (with the theorems of their theories).

  \<^bold>\<open>Parameters.\<close> What is not in the repository, or vendored, is an argument: \<open>malloc\<close> (which
  sizes succeed; the containers of C++ are taken not to run out of memory), utf8proc, \<open>clock_gettime\<close> (any sequence of readings),
  \<open>inet_pton\<close> (4 or 16 bytes where a theorem says \<open>inet_ok\<close>), libinjection, the Aho-Corasick automaton,
  RE2, the writer of JSON, the system time for expirations.

  \<^bold>\<open>What is shown.\<close>
  \<^item> Of the engine: in the life of a context every rule reports at most one event
    (\<open>Context\<close>), for every handle that a process can make with \<open>ddwaf_init\<close> and
    \<open>ddwaf_update\<close> (\<open>Interface\<close>); the cache of a rule is exact
    (\<open>Rule\<close>); a condition fires exactly when one of its values matches
    (\<open>Condition\<close>); the iterators go through exactly the values and keys within
    the limits (\<open>Iterators\<close>); the filter excludes exactly what its paths select
    (\<open>Object_Filter\<close>); addresses match their most specific network
    (\<open>Processors\<close>); a deadline is noticed (\<open>Engine_Base\<close>).
  \<^item> Of a load: it is defined (\<open>Interface\<close>, \<open>Updates\<close>); the rules are well
    formed (\<open>Parser_V2\<close>, \<open>Parser_V1\<close>); rule sets fit their
    manifest over all updates (\<open>Updates\<close>); overrides have their order
    (\<open>Builder\<close>); the diagnostics refine their specification
    (\<open>Ruleset_Info\<close>).
  \<^item> Of the transformers: each decoder on encoded text, base64 there and back, paths against a
    segment-wise specification, skipping a chain changes nothing; of UTF-8, there and back and safety
    on any bytes.
  \<^item> Flaws that the modelling showed are proved beside the code they concern, as lemmas on concrete
    inputs, and listed as findings in \<open>PROJECT.json\<close>.

  \<^bold>\<open>Bounds.\<close> Sizes of strings and containers are below \<open>2 ^ 64\<close>, and where the code narrows them, the
  narrowing is written out. The definedness of loads is stated without diagnostics: the memory that
  they allocate can fail, which \<open>Ruleset_Info\<close> treats by itself.

  \<^bold>\<open>Not modelled.\<close> The logger and the log lines (\<open>src/log.*\<close>: output only); \<open>parameter::print\<close>; the vDSO
  lookup of the clock (\<open>src/clock.cpp\<close>, platform code); the release of the tree and the reference
  counts of \<open>radixlib.c\<close>, \<open>ddwaf_destroy\<close> and \<open>ddwaf_context_destroy\<close> (memory management without a
  result); \<open>ddwaf_get_version\<close>, \<open>ddwaf_set_log_cb\<close>; concurrency, which the code leaves to the caller,
  one context being used by one thread. Left out as not part of the engine: the vendored libinjection,
  \<open>fuzzing/\<close>, \<open>perf/\<close>, \<open>validator/\<close>, \<open>examples/\<close>, \<open>smoketest/\<close>, \<open>tests/\<close> and the schema.
\<close>

end
